(* ===== verification/Prelude.thy ===== *)
theory Prelude
  imports Main "HOL-Library.Word"
begin

text \<open>
  What every component of the development shares: names for the machine types of the
  i386 target (\<open>int\<close>, \<open>long\<close> and pointers have 32 bits), the fact collections, and
  lemmas about words, lists and functions that belong to no component.
\<close>

unbundle bit_operations_syntax

section \<open>Machine types\<close>

type_synonym u8 = "8 word"
type_synonym u16 = "16 word"
type_synonym u32 = "32 word"
type_synonym u64 = "64 word"

text \<open>
  \<open>code_defs\<close> collects the unfoldings of small operations, \<open>frame\<close> the facts that say
  what an operation leaves alone, \<open>word_facts\<close> the conversions between words and
  naturals.
\<close>

named_theorems code_defs
named_theorems frame
named_theorems word_facts

section \<open>Words\<close>

lemma unat_u32_less [simp]: "unat (w :: u32) < 4294967296"
  by (rule less_le_trans [OF unsigned_less]) simp

lemma unat_u8_less [simp]: "unat (w :: u8) < 256"
  by (rule less_le_trans [OF unsigned_less]) simp

lemma word32_of_nat_unat_id [word_facts]:
  "n < 4294967296 \<Longrightarrow> unat (of_nat n :: u32) = n"
  by (simp add: unat_of_nat take_bit_nat_eq_self)

lemma word64_of_nat_unat_id [word_facts]:
  "n < 18446744073709551616 \<Longrightarrow> unat (of_nat n :: u64) = n"
  by (simp add: unat_of_nat take_bit_nat_eq_self)

lemma unat_add_small [word_facts]:
  "unat a + unat b < 2 ^ LENGTH('a) \<Longrightarrow> unat (a + b) = unat a + unat (b :: 'a::len word)"
  by (metis mod_less unat_word_ariths(1))

lemma sint_small [word_facts]:
  "unat (w :: u32) < 2147483648 \<Longrightarrow> sint w = int (unat w)"
proof -
  assume "unat w < 2147483648"
  then have "uint w < 2147483648" unfolding uint_nat by linarith
  moreover have "- 2147483648 \<le> uint w" by (rule order_trans [of _ 0]) simp_all
  ultimately have "sint w = uint w" unfolding sint_uint by (intro signed_take_bit_int_eq_self) simp_all
  then show ?thesis by simp
qed

lemma word_of_unat_eq: "unat (x :: 'a::len word) = n \<Longrightarrow> x = of_nat n"
  by auto

lemma unat_add_one_less [word_facts]:
  assumes "(x :: u32) < y"
  shows "unat (x + 1) = Suc (unat x)"
proof -
  have "unat x < unat y" using assms by (simp add: word_less_nat_alt)
  moreover have "unat y < 4294967296" by (rule unat_u32_less)
  ultimately have "unat x < 4294967295" by linarith
  then show ?thesis using unat_add_small [of x 1] by simp
qed

lemma unat_sub_le [word_facts]:
  "b \<le> a \<Longrightarrow> unat (a - b) = unat a - unat (b :: 'a::len word)"
  by (simp add: unat_sub)

lemma word_less_add_one_iff:
  "w \<noteq> - 1 \<Longrightarrow> unat (w + 1) = Suc (unat (w :: 'a::len word))"
  by (metis add.commute add_eq_0_iff2 unatSuc)

lemma u32_nonzero_bit:
  assumes "(w :: u32) \<noteq> 0"
  obtains i where "bit w i" "i < 32"
proof -
  from assms obtain i where "bit w i" using bit_eqI [of w 0] by auto
  moreover from this have "i < 32" using bit_imp_le_length by fastforce
  ultimately show thesis by (rule that)
qed

lemma bit_signed_drop_u32: "i + k < 32 \<Longrightarrow> bit (signed_drop_bit k (x :: u32)) i = bit x (i + k)"
  by (auto simp: bit_signed_drop_bit_iff add.commute)

lemma bit_push_u32: "k \<le> i \<Longrightarrow> i < 32 \<Longrightarrow> bit (push_bit k (x :: u32)) i = bit x (i - k)"
  by (simp add: bit_push_bit_iff)

lemma unat_top_bit:
  assumes "bit w k" and "\<And>j. k < j \<Longrightarrow> \<not> bit (w :: u32) j"
  shows "2 ^ k \<le> unat w \<and> unat w < 2 ^ Suc k"
proof
  have b: "bit (unat w) j = bit w j" for j
    by (auto simp: bit_unsigned_iff dest: bit_imp_le_length)
  show "2 ^ k \<le> unat w"
  proof (rule ccontr)
    assume "\<not> 2 ^ k \<le> unat w"
    then have "take_bit k (unat w) = unat w" by (simp add: take_bit_nat_eq_self)
    with assms(1) b [of k] show False by (metis bit_take_bit_iff less_irrefl)
  qed
  have "take_bit (Suc k) (unat w) = unat w"
    by (rule bit_eqI) (metis assms(2) b bit_take_bit_iff not_less_eq)
  then show "unat w < 2 ^ Suc k" by (metis take_bit_nat_less_exp)
qed

lemma pow2_bracket_unique:
  assumes "2 ^ a \<le> (n :: nat)" "n < 2 ^ Suc a" "2 ^ b \<le> n" "n < 2 ^ Suc b"
  shows "a = b"
proof (rule ccontr)
  have lt: False if "x < y" "n < 2 ^ Suc x" "2 ^ y \<le> n" for x y :: nat
  proof -
    have "(2 :: nat) ^ Suc x \<le> 2 ^ y" using that(1) by (intro power_increasing) auto
    with that(2,3) show False by linarith
  qed
  assume "a \<noteq> b"
  then show False using lt [of a b] lt [of b a] assms by (metis linorder_neqE_nat)
qed

lemma align_down_unat: "unat (x AND NOT (2 ^ a - 1 :: u32)) = unat x div 2 ^ a * 2 ^ a"
proof -
  have u: "unat (drop_bit a x) = unat x div 2 ^ a" unfolding unsigned_drop_bit_eq by (simp add: drop_bit_eq_div take_bit_nat_eq_self)
  have "x AND NOT (2 ^ a - 1 :: u32) = push_bit a (drop_bit a x)"
    unfolding mask_eq_exp_minus_1 [symmetric] by (rule bit_eqI) (auto simp: bit_simps)
  also have "\<dots> = of_nat (unat x div 2 ^ a * 2 ^ a)"
    unfolding word_of_unat_eq [OF u] by (simp add: push_bit_eq_mult)
  finally have "x AND NOT (2 ^ a - 1 :: u32) = of_nat (unat x div 2 ^ a * 2 ^ a)" .
  moreover have "unat x div 2 ^ a * 2 ^ a < 4294967296"
    using div_times_less_eq_dividend [of "unat x" "2 ^ a"] unat_u32_less [of x] by linarith
  ultimately show ?thesis by (metis word32_of_nat_unat_id)
qed

section \<open>Lists and functions\<close>

lemma fun_upd_same_value: "f a = b \<Longrightarrow> f(a := b) = f"
  by (rule fun_upd_idem)

lemma set_subset_Cons_iff: "set xs \<inter> set (y # ys) = {} \<longleftrightarrow> y \<notin> set xs \<and> set xs \<inter> set ys = {}"
  by auto

lemma split_list_unique:
  assumes "x \<in> set xs"
  shows "\<exists>ys zs. xs = ys @ x # zs \<and> x \<notin> set ys"
  using assms by (rule split_list_first)

lemma map_remove1_inj: "inj f \<Longrightarrow> map f (remove1 x xs) = remove1 (f x) (map f xs)"
  by (induction xs) (auto simp: inj_eq)

lemma remove1_split: "x \<notin> set ys \<Longrightarrow> remove1 x (ys @ x # zs) = ys @ zs"
  by (simp add: remove1_append)

end
