(* ===== verification/Bitops.thy ===== *)
theory Bitops
  imports Prelude
begin

text \<open>
  The bit primitives of \<open>kernel/include/i386/bitops.h\<close> and the logarithm of
  \<open>kernel/include/kernel/log2.h\<close>. A bitmap is the array of 32-bit words that starts at
  \<open>addr\<close>; the \<open>bts\<close> and \<open>btr\<close> instructions address bit \<open>nr\<close> of it as bit
  \<open>nr mod 32\<close> of word \<open>nr div 32\<close>.
\<close>

section \<open>Setting, clearing and testing a bit\<close>

definition bts :: "nat \<Rightarrow> u32 \<Rightarrow> u32" where
  "bts nr w = w OR push_bit nr 1"

definition btr :: "nat \<Rightarrow> u32 \<Rightarrow> u32" where
  "btr nr w = w AND NOT (push_bit nr 1)"

definition set_bit_at :: "nat \<Rightarrow> (nat \<Rightarrow> u32) \<Rightarrow> (nat \<Rightarrow> u32)" where
  "set_bit_at nr addr = addr(nr div 32 := bts (nr mod 32) (addr (nr div 32)))"

definition clear_bit_at :: "nat \<Rightarrow> (nat \<Rightarrow> u32) \<Rightarrow> (nat \<Rightarrow> u32)" where
  "clear_bit_at nr addr = addr(nr div 32 := btr (nr mod 32) (addr (nr div 32)))"

text \<open>\<open>sbbl %0,%0\<close> after \<open>btrl\<close> yields \<open>- carry\<close>: minus one for an old set bit.\<close>

definition test_and_clear_bit :: "nat \<Rightarrow> (nat \<Rightarrow> u32) \<Rightarrow> u32 \<times> (nat \<Rightarrow> u32)" where
  "test_and_clear_bit nr addr =
     ((if bit (addr (nr div 32)) (nr mod 32) then - 1 else 0), clear_bit_at nr addr)"

text \<open>\<open>((1UL << (nr & 31)) & (addr[nr >> 5])) != 0\<close>\<close>

definition constant_test_bit :: "nat \<Rightarrow> (nat \<Rightarrow> u32) \<Rightarrow> bool" where
  "constant_test_bit nr addr = (push_bit (nr AND 31) 1 AND addr (drop_bit 5 nr) \<noteq> 0)"

definition variable_test_bit :: "nat \<Rightarrow> (nat \<Rightarrow> u32) \<Rightarrow> u32" where
  "variable_test_bit nr addr = (if bit (addr (nr div 32)) (nr mod 32) then - 1 else 0)"

text \<open>The same test on one word, as the page-flag macros use it (\<open>nr < 32\<close>).\<close>

definition test_bit_w :: "nat \<Rightarrow> u32 \<Rightarrow> bool" where
  "test_bit_w nr w = (push_bit nr 1 AND w \<noteq> 0)"

lemma and_pow_bit: "2 ^ n AND (w :: u32) \<noteq> 0 \<longleftrightarrow> bit w n"
proof (cases "n < 32")
  case True
  have "bit (2 ^ n AND w) i \<longleftrightarrow> i = n \<and> bit w n" for i
    using True by (auto simp: bit_simps)
  then show ?thesis
    by (metis bit_0_eq bit_eq_iff bot_apply bot_bool_def)
next
  case False
  then have z: "2 ^ n = (0 :: u32)"
    by (simp add: exp_eq_zero_iff)
  have "\<not> bit w n"
    using False bit_imp_le_length by fastforce
  then show ?thesis unfolding z by simp
qed

lemma test_bit_w_iff [simp]: "test_bit_w n w \<longleftrightarrow> bit w n"
  by (simp add: test_bit_w_def and_pow_bit)

lemma bit_bts [simp]: "n < 32 \<Longrightarrow> bit (bts n w) i \<longleftrightarrow> i = n \<or> bit w i"
  by (auto simp: bts_def bit_simps)

lemma bit_btr [simp]: "n < 32 \<Longrightarrow> bit (btr n w) i \<longleftrightarrow> i \<noteq> n \<and> bit w i"
  by (auto simp: btr_def bit_simps dest: bit_imp_le_length)

lemma constant_test_bit_iff: "constant_test_bit nr addr \<longleftrightarrow> bit (addr (nr div 32)) (nr mod 32)"
proof -
  have "nr AND 31 = nr mod 32"
    using take_bit_eq_mask [of 5 nr] by (simp add: take_bit_eq_mod mask_eq_exp_minus_1)
  moreover have "drop_bit 5 nr = nr div 32"
    by (simp add: drop_bit_eq_div)
  ultimately show ?thesis
    by (simp add: constant_test_bit_def and_pow_bit)
qed

lemma variable_test_bit_iff: "variable_test_bit nr addr \<noteq> 0 \<longleftrightarrow> constant_test_bit nr addr"
  by (simp add: variable_test_bit_def constant_test_bit_iff)

lemma test_set_bit_at:
  "constant_test_bit m (set_bit_at n a) \<longleftrightarrow> m = n \<or> constant_test_bit m a"
proof (cases "m div 32 = n div 32")
  case True
  then have "m = n \<longleftrightarrow> m mod 32 = n mod 32" by (metis div_mult_mod_eq)
  with True show ?thesis by (simp add: constant_test_bit_iff set_bit_at_def)
next
  case False
  then show ?thesis by (auto simp: constant_test_bit_iff set_bit_at_def)
qed

lemma test_clear_bit_at:
  "constant_test_bit m (clear_bit_at n a) \<longleftrightarrow> m \<noteq> n \<and> constant_test_bit m a"
proof (cases "m div 32 = n div 32")
  case True
  then have "m = n \<longleftrightarrow> m mod 32 = n mod 32" by (metis div_mult_mod_eq)
  with True show ?thesis by (simp add: constant_test_bit_iff clear_bit_at_def)
next
  case False
  then show ?thesis by (auto simp: constant_test_bit_iff clear_bit_at_def)
qed

section \<open>First and last set bit\<close>

text \<open>
  \<open>ffs\<close> halves the window that must hold the lowest set bit. \<open>x\<close> is an \<open>int\<close>, so its right
  shift is arithmetic. A stage reads the pair \<open>(x, r)\<close>, tests the low half of the window and
  shifts it away when it is empty.
\<close>

definition ffs_stage :: "nat \<Rightarrow> u32 \<times> nat \<Rightarrow> u32 \<times> nat" where
  "ffs_stage k xr = (case xr of (x, r) \<Rightarrow>
     if x AND mask k = 0 then (signed_drop_bit k x, r + k) else (x, r))"

definition ffs :: "u32 \<Rightarrow> nat" where
  "ffs x = (if x = 0 then 0
     else snd (ffs_stage 1 (ffs_stage 2 (ffs_stage 4 (ffs_stage 8 (ffs_stage 16 (x, 1)))))))"

text \<open>
  \<open>fls\<close> shifts left and counts down from 32; the masks \<open>0xffff0000u\<close>, \<open>0xff000000u\<close>, ... are
  the top \<open>k\<close> bits.
\<close>

definition fls_stage :: "nat \<Rightarrow> u32 \<times> nat \<Rightarrow> u32 \<times> nat" where
  "fls_stage k xr = (case xr of (x, r) \<Rightarrow>
     if x AND push_bit (32 - k) (mask k) = 0 then (push_bit k x, r - k) else (x, r))"

definition fls :: "u32 \<Rightarrow> nat" where
  "fls x = (if x = 0 then 0
     else snd (fls_stage 1 (fls_stage 2 (fls_stage 4 (fls_stage 8 (fls_stage 16 (x, 32)))))))"

text \<open>
  The invariant of \<open>ffs\<close> on a window of \<open>k\<close> bits: \<open>x\<close> is the original word shifted by
  \<open>r - 1\<close> as far as the window goes, the window holds a set bit, and nothing below it is set.
\<close>

definition ffs_inv :: "nat \<Rightarrow> u32 \<Rightarrow> u32 \<times> nat \<Rightarrow> bool" where
  "ffs_inv k w xr = (case xr of (x, r) \<Rightarrow> 1 \<le> r \<and> r + k \<le> 33
     \<and> (\<forall>i<k. bit x i = bit w (i + (r - 1))) \<and> (\<exists>i<k. bit x i) \<and> (\<forall>j<r - 1. \<not> bit w j))"

definition fls_inv :: "nat \<Rightarrow> u32 \<Rightarrow> u32 \<times> nat \<Rightarrow> bool" where
  "fls_inv k w xr = (case xr of (x, r) \<Rightarrow> k \<le> r \<and> r \<le> 32
     \<and> (\<forall>i<k. bit x (31 - i) = bit w (r - 1 - i)) \<and> (\<exists>i<k. bit x (31 - i))
     \<and> (\<forall>j\<ge>r. \<not> bit w j))"

lemma and_mask_eq_0_iff: "x AND mask k = 0 \<longleftrightarrow> (\<forall>i<k. \<not> bit (x :: u32) i)"
proof
  assume "x AND mask k = 0"
  then have "\<not> bit (x AND mask k) i" for i by simp
  then show "\<forall>i<k. \<not> bit x i"
    by (metis bit_and_iff bit_imp_le_length bit_mask_iff possible_bit_word)
next
  assume "\<forall>i<k. \<not> bit x i"
  then show "x AND mask k = 0" by (auto intro!: bit_eqI simp: bit_simps)
qed

lemma and_top_mask_eq_0_iff:
  assumes "k \<le> 32"
  shows "x AND push_bit (32 - k) (mask k) = 0 \<longleftrightarrow> (\<forall>i<k. \<not> bit (x :: u32) (31 - i))"
proof
  assume a: "x AND push_bit (32 - k) (mask k) = 0"
  show "\<forall>i<k. \<not> bit x (31 - i)"
  proof (intro allI impI)
    fix i assume "i < k"
    have "\<not> bit (x AND push_bit (32 - k) (mask k)) (31 - i)" using a by simp
    with \<open>i < k\<close> assms show "\<not> bit x (31 - i)" by (auto simp: bit_simps)
  qed
next
  assume a: "\<forall>i<k. \<not> bit x (31 - i)"
  have "\<not> bit x j" if "j < 32" "32 - k \<le> j" for j
    using a [rule_format, of "31 - j"] that assms by simp
  then show "x AND push_bit (32 - k) (mask k) = 0"
    by (intro bit_eqI) (auto simp: bit_simps)
qed

lemma ffs_stage_inv:
  assumes "ffs_inv (2 * k) w xr" and "0 < k" and "2 * k \<le> 32"
  shows "ffs_inv k w (ffs_stage k xr)"
proof -
  obtain x r where xr: "xr = (x, r)" by fastforce
  from assms xr have r: "1 \<le> r" "r + 2 * k \<le> 33"
    and win: "\<And>i. i < 2 * k \<Longrightarrow> bit x i = bit w (i + (r - 1))"
    and some: "\<exists>i<2 * k. bit x i" and low: "\<And>j. j < r - 1 \<Longrightarrow> \<not> bit w j"
    by (auto simp: ffs_inv_def)
  show ?thesis
  proof (cases "x AND mask k = 0")
    case True
    then have none: "\<And>i. i < k \<Longrightarrow> \<not> bit x i" by (simp add: and_mask_eq_0_iff)
    have sh: "bit (signed_drop_bit k x) i = bit w (i + (r + k - 1))" if "i < k" for i
      using win [of "i + k"] that r assms(2,3)
      by (simp add: bit_signed_drop_u32 add.commute add.left_commute)
    from some none obtain i where i: "i < 2 * k" "bit x i" "k \<le> i" by (metis not_less)
    then have "i - k < k" "bit (signed_drop_bit k x) (i - k)"
      using sh [of "i - k"] win [of i] r by auto
    moreover have "\<not> bit w j" if "j < r + k - 1" for j
      using low [of j] none [of "j - (r - 1)"] win [of "j - (r - 1)"] that r
      by (cases "j < r - 1") auto
    ultimately show ?thesis
      using True sh r by (auto simp: ffs_inv_def ffs_stage_def xr)
  next
    case False
    then have "\<exists>i<k. bit x i" by (simp add: and_mask_eq_0_iff)
    with False r win low show ?thesis
      by (auto simp: ffs_inv_def ffs_stage_def xr)
  qed
qed

lemma fls_stage_inv:
  assumes "fls_inv (2 * k) w xr" and "0 < k" and "2 * k \<le> 32"
  shows "fls_inv k w (fls_stage k xr)"
proof -
  obtain x r where xr: "xr = (x, r)" by fastforce
  from assms xr have r: "2 * k \<le> r" "r \<le> 32"
    and win: "\<And>i. i < 2 * k \<Longrightarrow> bit x (31 - i) = bit w (r - 1 - i)"
    and some: "\<exists>i<2 * k. bit x (31 - i)" and high: "\<And>j. j \<ge> r \<Longrightarrow> \<not> bit w j"
    by (auto simp: fls_inv_def)
  show ?thesis
  proof (cases "x AND push_bit (32 - k) (mask k) = 0")
    case True
    then have none: "\<And>i. i < k \<Longrightarrow> \<not> bit x (31 - i)"
      using assms(3) by (simp add: and_top_mask_eq_0_iff)
    have sh: "bit (push_bit k x) (31 - i) = bit w (r - k - 1 - i)" if "i < k" for i
      using win [of "i + k"] that r assms(2,3) by (simp add: bit_push_u32 add.commute)
    from some none obtain i where i: "i < 2 * k" "bit x (31 - i)" "k \<le> i" by (metis not_less)
    then have "i - k < k" "bit (push_bit k x) (31 - (i - k))"
      using sh [of "i - k"] win [of i] r by auto
    moreover have "\<not> bit w j" if "j \<ge> r - k" for j
      using high [of j] none [of "r - 1 - j"] win [of "r - 1 - j"] that r assms(2)
      by (cases "j \<ge> r") auto
    ultimately show ?thesis
      using True sh r by (auto simp: fls_inv_def fls_stage_def xr)
  next
    case False
    then have "\<exists>i<k. bit x (31 - i)" using assms(3) by (simp add: and_top_mask_eq_0_iff)
    with False r win high show ?thesis
      by (auto simp: fls_inv_def fls_stage_def xr)
  qed
qed

text \<open>The five stages take the window from 32 bits to one.\<close>

lemma ffs_correct:
  assumes "w \<noteq> 0"
  shows "1 \<le> ffs w \<and> ffs w \<le> 32 \<and> bit w (ffs w - 1) \<and> (\<forall>j<ffs w - 1. \<not> bit w j)"
proof -
  from assms obtain i where i: "bit w i" "i < 32" by (rule u32_nonzero_bit)
  then have "ffs_inv 32 w (w, 1)" by (auto simp: ffs_inv_def)
  then have "ffs_inv 16 w (ffs_stage 16 (w, 1))" using ffs_stage_inv [of 16] by simp
  then have "ffs_inv 8 w (ffs_stage 8 (ffs_stage 16 (w, 1)))" using ffs_stage_inv [of 8] by simp
  then have "ffs_inv 4 w (ffs_stage 4 (ffs_stage 8 (ffs_stage 16 (w, 1))))"
    using ffs_stage_inv [of 4] by simp
  then have "ffs_inv 2 w (ffs_stage 2 (ffs_stage 4 (ffs_stage 8 (ffs_stage 16 (w, 1)))))"
    using ffs_stage_inv [of 2] by simp
  then have "ffs_inv 1 w (ffs_stage 1 (ffs_stage 2 (ffs_stage 4 (ffs_stage 8 (ffs_stage 16 (w, 1))))))"
    using ffs_stage_inv [of 1] by simp
  then show ?thesis using assms by (auto simp: ffs_inv_def ffs_def)
qed

lemma fls_correct:
  assumes "w \<noteq> 0"
  shows "1 \<le> fls w \<and> fls w \<le> 32 \<and> bit w (fls w - 1) \<and> (\<forall>j\<ge>fls w. \<not> bit w j)"
proof -
  from assms obtain i where i: "bit w i" "i < 32" by (rule u32_nonzero_bit)
  then have "fls_inv 32 w (w, 32)"
    by (auto simp: fls_inv_def dest: bit_imp_le_length intro!: exI [of _ "31 - i"])
  then have "fls_inv 16 w (fls_stage 16 (w, 32))" using fls_stage_inv [of 16] by simp
  then have "fls_inv 8 w (fls_stage 8 (fls_stage 16 (w, 32)))" using fls_stage_inv [of 8] by simp
  then have "fls_inv 4 w (fls_stage 4 (fls_stage 8 (fls_stage 16 (w, 32))))"
    using fls_stage_inv [of 4] by simp
  then have "fls_inv 2 w (fls_stage 2 (fls_stage 4 (fls_stage 8 (fls_stage 16 (w, 32)))))"
    using fls_stage_inv [of 2] by simp
  then have "fls_inv 1 w (fls_stage 1 (fls_stage 2 (fls_stage 4 (fls_stage 8 (fls_stage 16 (w, 32))))))"
    using fls_stage_inv [of 1] by simp
  then show ?thesis using assms by (auto simp: fls_inv_def fls_def)
qed

section \<open>Logarithm\<close>

text \<open>
  \<open>ilog2(n)\<close> has two branches: for a compile-time constant the macro tests the bits from 31
  down to 2, and otherwise (for an operand of at most four bytes) it calls \<open>__ilog2_u32\<close>,
  which is \<open>fls(n) - 1\<close>, hence minus one at zero. The test of bit \<open>k\<close> is written
  \<open>n & (1ULL << k)\<close>.
\<close>

definition ilog2_u32 :: "u32 \<Rightarrow> int" where
  "ilog2_u32 n = int (fls n) - 1"

fun ilog2_scan :: "nat \<Rightarrow> u32 \<Rightarrow> int" where
  "ilog2_scan k n =
     (if k < 2 then 1 else if n AND push_bit k 1 \<noteq> 0 then int k else ilog2_scan (k - 1) n)"

declare ilog2_scan.simps [simp del]

definition ilog2_const :: "u32 \<Rightarrow> int" where
  "ilog2_const n = (if n < 2 then 0 else ilog2_scan 31 n)"

definition ilog2 :: "bool \<Rightarrow> u32 \<Rightarrow> int" where
  "ilog2 constant_p n = (if constant_p then ilog2_const n else ilog2_u32 n)"

lemma ilog2_scan_spec:
  assumes "1 \<le> k" "k \<le> 31" "\<And>j. k < j \<Longrightarrow> \<not> bit n j" "2 \<le> n"
  shows "\<exists>m. ilog2_scan k n = int m \<and> bit n m \<and> (\<forall>j>m. \<not> bit n j)"
  using assms
proof (induction k n rule: ilog2_scan.induct)
  case (1 k n)
  have t: "n AND push_bit k 1 \<noteq> 0 \<longleftrightarrow> bit n k"
    by (simp add: and_pow_bit and.commute [of n])
  show ?case
  proof (cases "k < 2")
    case True
    with "1.prems"(1) have k: "k = 1" by simp
    have "bit n 1"
    proof (rule ccontr)
      assume "\<not> bit n 1"
      with "1.prems"(3) k have "bit n j \<Longrightarrow> j = 0" for j
        by (metis One_nat_def less_one linorder_neqE_nat)
      then have "n AND mask 1 = n" by (intro bit_eqI) (auto simp: bit_simps)
      then have "n \<le> mask 1" by (metis word_and_le1)
      with "1.prems"(4) show False by (simp add: word_le_nat_alt)
    qed
    with True k "1.prems"(3) show ?thesis by (subst ilog2_scan.simps) auto
  next
    case False
    show ?thesis
    proof (cases "bit n k")
      case True
      with False t "1.prems"(3) show ?thesis by (subst ilog2_scan.simps) auto
    next
      case nb: False
      with "1.prems" have "\<not> bit n j" if "k - 1 < j" for j
        using that by (cases "j = k") auto
      with False nb t "1.prems" have "\<exists>m. ilog2_scan (k - 1) n = int m \<and> bit n m \<and> (\<forall>j>m. \<not> bit n j)"
        by (intro "1.IH") auto
      with False nb t show ?thesis by (subst ilog2_scan.simps) simp
    qed
  qed
qed

lemma ilog2_u32_spec:
  assumes "n \<noteq> 0"
  shows "\<exists>m. ilog2_u32 n = int m \<and> 2 ^ m \<le> unat n \<and> unat n < 2 ^ Suc m"
proof -
  from fls_correct [OF assms]
  have f: "1 \<le> fls n" "bit n (fls n - 1)" "\<And>j. fls n - 1 < j \<Longrightarrow> \<not> bit n j" by auto
  from unat_top_bit [OF f(2,3)] f(1) show ?thesis
    by (intro exI [of _ "fls n - 1"]) (auto simp: ilog2_u32_def)
qed

lemma ilog2_const_spec:
  assumes "n \<noteq> 0"
  shows "\<exists>m. ilog2_const n = int m \<and> 2 ^ m \<le> unat n \<and> unat n < 2 ^ Suc m"
proof (cases "n < 2")
  case True
  with assms have "unat n = 1" by (simp add: word_less_nat_alt unat_eq_0 less_2_cases_iff)
  with True show ?thesis by (intro exI [of _ 0]) (simp add: ilog2_const_def)
next
  case False
  have "\<not> bit n j" if "31 < j" for j using that bit_imp_le_length by fastforce
  with False obtain m where "ilog2_scan 31 n = int m" "bit n m" "\<And>j. m < j \<Longrightarrow> \<not> bit n j"
    using ilog2_scan_spec [of 31 n] by (auto simp: not_less)
  with False unat_top_bit [of n m] show ?thesis by (auto simp: ilog2_const_def)
qed

end
