(* ===== verification/Listhead.thy ===== *)
theory Listhead
  imports Prelude
begin

text \<open>
  The intrusive, circular, doubly linked list of \<open>kernel/include/kernel/list.h\<close>. A heap
  gives the two fields of every \<open>struct list_head\<close>; the nodes are named by a type that
  each client chooses (the list heads and the list fields of its objects). The file ends
  with the interface that clients use, a locale, and its interpretation on these
  operations.
\<close>

section \<open>The operations\<close>

record 'n lheap =
  prev :: "'n \<Rightarrow> 'n"
  nxt :: "'n \<Rightarrow> 'n"

definition set_prev :: "'n \<Rightarrow> 'n \<Rightarrow> 'n lheap \<Rightarrow> 'n lheap" where
  "set_prev p v h = h\<lparr>prev := (prev h)(p := v)\<rparr>"

definition set_nxt :: "'n \<Rightarrow> 'n \<Rightarrow> 'n lheap \<Rightarrow> 'n lheap" where
  "set_nxt p v h = h\<lparr>nxt := (nxt h)(p := v)\<rparr>"

definition init_list :: "'n \<Rightarrow> 'n lheap \<Rightarrow> 'n lheap" where
  "init_list p h = set_nxt p p (set_prev p p h)"

text \<open>\<open>__list_add(new, prev, next)\<close>: four stores in this order.\<close>

definition list_add_between :: "'n \<Rightarrow> 'n \<Rightarrow> 'n \<Rightarrow> 'n lheap \<Rightarrow> 'n lheap" where
  "list_add_between new p n h = set_prev new p (set_nxt new n (set_prev n new (set_nxt p new h)))"

definition list_empty :: "'n \<Rightarrow> 'n lheap \<Rightarrow> bool" where
  "list_empty p h \<longleftrightarrow> prev h p = p \<and> nxt h p = p"

definition list_add :: "'n \<Rightarrow> 'n \<Rightarrow> 'n lheap \<Rightarrow> 'n lheap" where
  "list_add old new h = list_add_between new old (nxt h old) h"

definition list_add_tail :: "'n \<Rightarrow> 'n \<Rightarrow> 'n lheap \<Rightarrow> 'n lheap" where
  "list_add_tail old new h = list_add_between new (prev h old) old h"

text \<open>The second store reads the heap the first one left.\<close>

definition list_del :: "'n \<Rightarrow> 'n lheap \<Rightarrow> 'n lheap" where
  "list_del it h =
     (let h1 = set_prev (nxt h it) (prev h it) h in set_nxt (prev h1 it) (nxt h1 it) h1)"

text \<open>
  \<open>list_for_each(pos, head)\<close>: the nodes the loop visits. It does not end on a chain that
  never comes back to the head, so not ending is \<^const>\<open>None\<close>.
\<close>

partial_function (option) list_for_each :: "'n lheap \<Rightarrow> 'n \<Rightarrow> 'n \<Rightarrow> 'n list \<Rightarrow> 'n list option" where
  "list_for_each h head pos seen =
     (if pos = head then Some (rev seen) else list_for_each h head (nxt h pos) (pos # seen))"

lemmas list_defs = list_add_between_def list_add_def list_add_tail_def list_del_def
  init_list_def list_empty_def set_prev_def set_nxt_def

section \<open>What a list in the heap stands for\<close>

text \<open>
  \<open>links h l\<close>: each node of \<open>l\<close> points to its successor in \<open>l\<close> and back. A ring is the
  chain from the head through the members back to the head, with no node twice.
\<close>

fun links :: "'n lheap \<Rightarrow> 'n list \<Rightarrow> bool" where
  "links h (a # b # l) \<longleftrightarrow> nxt h a = b \<and> prev h b = a \<and> links h (b # l)"
| "links h _ \<longleftrightarrow> True"

definition ring :: "'n lheap \<Rightarrow> 'n \<Rightarrow> 'n list \<Rightarrow> bool" where
  "ring h p xs \<longleftrightarrow> distinct (p # xs) \<and> links h (p # xs @ [p])"

lemma links_append:
  "links h (xs @ a # ys) \<longleftrightarrow> links h (xs @ [a]) \<and> links h (a # ys)"
  by (induction h "xs @ a # ys" arbitrary: xs rule: links.induct)
     (auto simp: Cons_eq_append_conv append_eq_Cons_conv)

lemma links_appendD: "links h (xs @ ys) \<Longrightarrow> links h xs \<and> links h ys"
  by (induction h xs rule: links.induct) (auto split: list.splits, (cases ys; simp)+)

lemma links_cong:
  assumes "\<And>x. x \<in> set (butlast l) \<Longrightarrow> nxt h' x = nxt h x"
    and "\<And>x. x \<in> set (tl l) \<Longrightarrow> prev h' x = prev h x"
  shows "links h' l = links h l"
  using assms by (induction h l rule: links.induct) auto

lemma links_snoc2: "links h (xs @ [a, b]) \<longleftrightarrow> links h (xs @ [a]) \<and> nxt h a = b \<and> prev h b = a"
  using links_append [of h xs a "[b]"] by simp

lemma ring_distinct: "ring h p xs \<Longrightarrow> distinct (p # xs)"
  by (simp add: ring_def)

lemma ring_frame:
  assumes "ring h p xs"
    and "\<And>x. x \<in> set (p # xs) \<Longrightarrow> nxt h' x = nxt h x"
    and "\<And>x. x \<in> set (p # xs) \<Longrightarrow> prev h' x = prev h x"
  shows "ring h' p xs"
proof -
  have "links h' (p # xs @ [p]) = links h (p # xs @ [p])"
    by (rule links_cong) (auto simp: butlast_append assms(2,3) split: if_splits)
  with assms(1) show ?thesis by (simp add: ring_def)
qed

lemma ring_Nil: "ring h p [] \<longleftrightarrow> nxt h p = p \<and> prev h p = p"
  by (auto simp: ring_def)

lemma ring_nxt: "ring h p xs \<Longrightarrow> nxt h p = hd (xs @ [p])"
  by (cases xs) (auto simp: ring_def)

lemma ring_prev: "ring h p xs \<Longrightarrow> prev h p = last (p # xs)"
  by (cases xs rule: rev_cases) (auto simp: ring_def links_snoc2 [of h "p # _", simplified])

lemma ring_split:
  assumes "ring h p (xs @ n # ys)"
  shows "prev h n = last (p # xs)" and "nxt h n = hd (ys @ [p])"
proof -
  from assms have "links h ((p # xs) @ n # (ys @ [p]))" by (simp add: ring_def)
  then have l: "links h ((p # xs) @ [n])" and r: "links h (n # (ys @ [p]))"
    using links_append [of h "p # xs" n "ys @ [p]"] by simp_all
  from l show "prev h n = last (p # xs)"
    by (metis append_Cons append_Nil append_assoc append_butlast_last_id links_snoc2 list.distinct(1))
  from r show "nxt h n = hd (ys @ [p])" by (cases ys) auto
qed

section \<open>Each operation on rings\<close>

lemma init_list_ring: "ring (init_list p h) p []"
  by (simp add: ring_Nil list_defs)

lemma list_empty_ring: "ring h p xs \<Longrightarrow> list_empty p h \<longleftrightarrow> xs = []"
  by (cases xs) (auto simp: ring_def list_defs)

text \<open>
  Insertion between two neighbours of a ring: the general fact behind \<open>list_add\<close> and
  \<open>list_add_tail\<close>.
\<close>

lemma add_between_ring:
  assumes "ring h p (xs @ ys)" and "n \<notin> set (p # xs @ ys)"
  shows "ring (list_add_between n (last (p # xs)) (hd (ys @ [p])) h) p (xs @ n # ys)"
proof -
  let ?a = "last (p # xs)" and ?b = "hd (ys @ [p])"
  let ?h = "list_add_between n ?a ?b h"
  let ?as = "butlast (p # xs)"
  have as: "p # xs = ?as @ [?a]" by simp
  obtain bs where bs: "ys @ [p] = ?b # bs" by (cases ys) auto
  from assms(1) have d: "distinct (p # xs @ ys)" and "links h ((p # xs) @ (ys @ [p]))"
    by (simp_all add: ring_def)
  then have l: "links h (?as @ [?a])" and r: "links h (?b # bs)"
    unfolding as [symmetric] bs [symmetric] by (blast dest: links_appendD)+
  have "?a \<in> set (p # xs)" by (rule last_in_set) simp
  moreover have "?b \<in> set (p # ys)" by (cases ys) auto
  ultimately have na: "?a \<noteq> n" "?b \<noteq> n" using assms(2) by auto
  have "links ?h (?as @ [?a])"
  proof (subst links_cong [of "?as @ [?a]" ?h h])
    fix x assume "x \<in> set (butlast (?as @ [?a]))"
    then have "x \<in> set ?as" by simp
    moreover have "distinct (?as @ [?a])" using d as by (metis distinct_append append_Cons)
    moreover have "x \<in> set (p # xs)" using \<open>x \<in> set ?as\<close> by (rule in_set_butlastD)
    ultimately show "nxt ?h x = nxt h x" using assms(2) by (auto simp: list_defs)
  next
    fix x assume "x \<in> set (tl (?as @ [?a]))"
    then have "x \<in> set xs" using as by (metis list.sel(3))
    moreover have "?b \<in> set (p # ys)" by (cases ys) auto
    ultimately show "prev ?h x = prev h x" using assms(2) d by (auto simp: list_defs)
  qed (rule l)
  moreover have "links ?h (?b # bs)"
  proof (subst links_cong [of "?b # bs" ?h h])
    fix x assume "x \<in> set (butlast (?b # bs))"
    then have "x \<in> set ys" using bs by (metis butlast_snoc)
    moreover have "?a \<in> set (p # xs)" by (rule last_in_set) simp
    ultimately show "nxt ?h x = nxt h x" using assms(2) d by (auto simp: list_defs)
  next
    fix x assume "x \<in> set (tl (?b # bs))"
    then have "x \<in> set bs" by simp
    moreover have "distinct (ys @ [p])" using d by auto
    then have "distinct (?b # bs)" using bs by metis
    moreover have "set (ys @ [p]) = set (?b # bs)" using bs by metis
    then have "set bs \<subseteq> set (p # ys)" by auto
    ultimately show "prev ?h x = prev h x" using assms(2) by (auto simp: list_defs)
  qed (rule r)
  moreover have "nxt ?h ?a = n" "prev ?h n = ?a" "nxt ?h n = ?b" "prev ?h ?b = n"
    using na by (simp_all add: list_defs)
  ultimately have "links ?h (?as @ ?a # n # ?b # bs)"
    using links_append [of ?h ?as ?a "n # ?b # bs"] by simp
  then have "links ?h (p # (xs @ n # ys) @ [p])"
    using as bs by (metis append.assoc append_Cons append_Nil)
  then show ?thesis using d assms(2) by (auto simp: ring_def)
qed

lemma list_add_ring:
  assumes "ring h p xs" and "n \<notin> set (p # xs)"
  shows "ring (list_add p n h) p (n # xs)"
  using add_between_ring [of h p "[]" xs n] assms ring_nxt [OF assms(1)]
  by (simp add: list_add_def)

lemma list_add_tail_ring:
  assumes "ring h p xs" and "n \<notin> set (p # xs)"
  shows "ring (list_add_tail p n h) p (xs @ [n])"
  using add_between_ring [of h p xs "[]" n] assms ring_prev [OF assms(1)]
  by (simp add: list_add_tail_def)

text \<open>Unlinking a member joins its neighbours.\<close>

lemma list_del_ring:
  assumes "ring h p (xs @ n # ys)"
  shows "ring (list_del n h) p (xs @ ys)"
proof -
  let ?a = "last (p # xs)" and ?b = "hd (ys @ [p])"
  let ?h = "list_del n h"
  let ?as = "butlast (p # xs)"
  have as: "p # xs = ?as @ [?a]" by simp
  obtain bs where bs: "ys @ [p] = ?b # bs" by (cases ys) auto
  from assms have d: "distinct (p # xs @ n # ys)" and "links h ((p # xs) @ (n # (ys @ [p])))"
    by (simp_all add: ring_def)
  then have "links h (p # xs)" and "links h (n # (ys @ [p]))"
    by (blast dest: links_appendD)+
  then have "links h (p # xs)" and "links h (ys @ [p])"
    using links_appendD [of h "[n]" "ys @ [p]"] by simp_all
  then have l: "links h (?as @ [?a])" and r: "links h (?b # bs)"
    unfolding as [symmetric] bs [symmetric] by (blast dest: links_appendD)+
  note nb = ring_split [OF assms]
  have an: "?a \<in> set (p # xs)" by (rule last_in_set) simp
  have bn: "?b \<in> set (p # ys)" by (cases ys) auto
  have ne: "?a \<noteq> n" "?b \<noteq> n" using an bn d by auto
  have nh: "nxt ?h = (nxt h)(?a := ?b)" and ph: "prev ?h = (prev h)(?b := ?a)"
    using ne nb by (auto simp: list_defs Let_def)
  have "links ?h (?as @ [?a])"
  proof (subst links_cong [of "?as @ [?a]" ?h h])
    fix x assume "x \<in> set (butlast (?as @ [?a]))"
    then have "x \<in> set ?as" by simp
    moreover have "distinct (?as @ [?a])" using d as by (metis distinct_append append_Cons)
    ultimately show "nxt ?h x = nxt h x" by (auto simp: nh)
  next
    fix x assume "x \<in> set (tl (?as @ [?a]))"
    then have "x \<in> set xs" using as by (metis list.sel(3))
    then show "prev ?h x = prev h x" using bn d by (auto simp: ph)
  qed (rule l)
  moreover have "links ?h (?b # bs)"
  proof (subst links_cong [of "?b # bs" ?h h])
    fix x assume "x \<in> set (butlast (?b # bs))"
    then have "x \<in> set ys" using bs by (metis butlast_snoc)
    then show "nxt ?h x = nxt h x" using an d by (auto simp: nh)
  next
    fix x assume "x \<in> set (tl (?b # bs))"
    then have "x \<in> set bs" by simp
    moreover have "distinct (ys @ [p])" using d by auto
    then have "distinct (?b # bs)" using bs by metis
    ultimately show "prev ?h x = prev h x" by (auto simp: ph)
  qed (rule r)
  moreover have "nxt ?h ?a = ?b" "prev ?h ?b = ?a" by (simp_all add: nh ph)
  ultimately have "links ?h (?as @ ?a # ?b # bs)"
    using links_append [of ?h ?as ?a "?b # bs"] by simp
  then have "links ?h (p # (xs @ ys) @ [p])"
    using as bs by (metis append.assoc append_Cons append_Nil)
  then show ?thesis using d by (auto simp: ring_def)
qed

text \<open>The loop visits the members in order and ends.\<close>

lemma list_for_each_from:
  "links h (n # ys @ [p]) \<Longrightarrow> p \<notin> set (n # ys) \<Longrightarrow>
     list_for_each h p n seen = Some (rev seen @ n # ys)"
proof (induction ys arbitrary: n seen)
  case Nil
  then show ?case by (simp add: list_for_each.simps)
next
  case (Cons a ys)
  then show ?case by (subst list_for_each.simps) auto
qed

lemma list_for_each_ring:
  assumes "ring h p xs"
  shows "list_for_each h p (nxt h p) [] = Some xs"
proof (cases xs)
  case Nil
  with assms show ?thesis by (simp add: ring_Nil list_for_each.simps)
next
  case (Cons a ys)
  with assms show ?thesis using list_for_each_from [of h a ys p "[]"] by (simp add: ring_def)
qed

text \<open>The cells an operation writes.\<close>

lemma list_add_between_frame [frame]:
  "x \<notin> {new, p} \<Longrightarrow> nxt (list_add_between new p n h) x = nxt h x"
  "x \<notin> {new, n} \<Longrightarrow> prev (list_add_between new p n h) x = prev h x"
  by (simp_all add: list_defs)

lemma list_del_frame [frame]:
  assumes "x \<notin> {nxt h n, prev h n}" and "prev h n \<noteq> n"
  shows "nxt (list_del n h) x = nxt h x" and "prev (list_del n h) x = prev h x"
  using assms by (auto simp: list_defs Let_def)

section \<open>The interface of a store of lists\<close>

text \<open>
  A client such as the page allocator keeps many lists in one heap, one list per index, and
  moves nodes between them. \<open>family\<close> says that the heads \<open>H i\<close> carry the lists \<open>L i\<close> and
  that no node is on two of them.
\<close>

definition family ::
  "('h \<Rightarrow> 'n \<Rightarrow> 'n list \<Rightarrow> bool) \<Rightarrow> 'i set \<Rightarrow> ('i \<Rightarrow> 'n) \<Rightarrow> 'h \<Rightarrow> ('i \<Rightarrow> 'n list) \<Rightarrow> bool" where
  "family rep I H h L \<longleftrightarrow> (\<forall>i\<in>I. rep h (H i) (L i))
     \<and> (\<forall>i\<in>I. \<forall>j\<in>I. i \<noteq> j \<longrightarrow> set (H i # L i) \<inter> set (H j # L j) = {})"

definition family_nodes :: "'i set \<Rightarrow> ('i \<Rightarrow> 'n) \<Rightarrow> ('i \<Rightarrow> 'n list) \<Rightarrow> 'n set" where
  "family_nodes I H L = (\<Union>i\<in>I. set (H i # L i))"

lemma family_rep: "family rep I H h L \<Longrightarrow> i \<in> I \<Longrightarrow> rep h (H i) (L i)"
  by (simp add: family_def)

lemma family_disjoint:
  "family rep I H h L \<Longrightarrow> i \<in> I \<Longrightarrow> j \<in> I \<Longrightarrow> i \<noteq> j \<Longrightarrow> set (H i # L i) \<inter> set (H j # L j) = {}"
  unfolding family_def by blast

lemma family_nodes_mem: "i \<in> I \<Longrightarrow> x \<in> set (H i # L i) \<Longrightarrow> x \<in> family_nodes I H L"
  unfolding family_nodes_def by blast

lemma family_upd:
  assumes f: "family rep I H h L" and i: "i \<in> I" and r: "rep h' (H i) l"
    and o: "\<And>j. j \<in> I \<Longrightarrow> j \<noteq> i \<Longrightarrow> rep h' (H j) (L j)"
    and s: "set l \<subseteq> set (L i) \<union> N"
    and n: "\<And>j. j \<in> I \<Longrightarrow> j \<noteq> i \<Longrightarrow> N \<inter> set (H j # L j) = {}"
  shows "family rep I H h' (L(i := l))"
proof -
  have d: "set (H i # l) \<inter> set (H j # L j) = {}" if "j \<in> I" "j \<noteq> i" for j
    using family_disjoint [OF f i that(1)] n [OF that] s that(2) by auto
  then have "set (H a # (L(i := l)) a) \<inter> set (H b # (L(i := l)) b) = {}"
    if "a \<in> I" "b \<in> I" "a \<noteq> b" for a b
    using family_disjoint [OF f that] d [of a] d [of b] that
    by (cases "a = i"; cases "b = i") (simp_all add: Int_commute)
  then show ?thesis unfolding family_def using r o by simp
qed

locale list_store =
  fixes rep :: "'h \<Rightarrow> 'n \<Rightarrow> 'n list \<Rightarrow> bool"
    and put :: "'n \<Rightarrow> 'n \<Rightarrow> 'h \<Rightarrow> 'h"
    and put_tail :: "'n \<Rightarrow> 'n \<Rightarrow> 'h \<Rightarrow> 'h"
    and unlink :: "'n \<Rightarrow> 'h \<Rightarrow> 'h"
    and is_empty :: "'n \<Rightarrow> 'h \<Rightarrow> bool"
    and first :: "'h \<Rightarrow> 'n \<Rightarrow> 'n"
  assumes rep_distinct: "rep h p xs \<Longrightarrow> distinct (p # xs)"
    and rep_put: "rep h p xs \<Longrightarrow> n \<notin> set (p # xs) \<Longrightarrow> rep (put p n h) p (n # xs)"
    and rep_put_tail: "rep h p xs \<Longrightarrow> n \<notin> set (p # xs) \<Longrightarrow> rep (put_tail p n h) p (xs @ [n])"
    and rep_unlink: "rep h p (xs @ n # ys) \<Longrightarrow> rep (unlink n h) p (xs @ ys)"
    and rep_is_empty: "rep h p xs \<Longrightarrow> is_empty p h \<longleftrightarrow> xs = []"
    and rep_first: "rep h p (x # xs) \<Longrightarrow> first h p = x"
    and put_other: "rep h p xs \<Longrightarrow> rep h q ys \<Longrightarrow> set (q # ys) \<inter> set (n # p # xs) = {} \<Longrightarrow>
      rep (put p n h) q ys"
    and put_tail_other: "rep h p xs \<Longrightarrow> rep h q ys \<Longrightarrow> set (q # ys) \<inter> set (n # p # xs) = {} \<Longrightarrow>
      rep (put_tail p n h) q ys"
    and unlink_other: "rep h p xs \<Longrightarrow> n \<in> set xs \<Longrightarrow> rep h q ys \<Longrightarrow>
      set (q # ys) \<inter> set (p # xs) = {} \<Longrightarrow> rep (unlink n h) q ys"
begin

lemma family_put:
  assumes f: "family rep I H h L" and i: "i \<in> I" and n: "n \<notin> family_nodes I H L"
  shows "family rep I H (put (H i) n h) (L(i := n # L i))"
proof (rule family_upd [OF f i, where N = "{n}"])
  note new = family_nodes_mem [where x = n and H = H and L = L and I = I]
  show "rep (put (H i) n h) (H i) (n # L i)"
    using family_rep [OF f i] new [OF i] n by (intro rep_put) auto
  fix j assume j: "j \<in> I" "j \<noteq> i"
  then show "{n} \<inter> set (H j # L j) = {}" using new n by blast
  with j family_disjoint [OF f i] show "rep (put (H i) n h) (H j) (L j)"
    by (intro put_other [OF family_rep [OF f i] family_rep [OF f]]) auto
qed auto

lemma family_put_tail:
  assumes f: "family rep I H h L" and i: "i \<in> I" and n: "n \<notin> family_nodes I H L"
  shows "family rep I H (put_tail (H i) n h) (L(i := L i @ [n]))"
proof (rule family_upd [OF f i, where N = "{n}"])
  note new = family_nodes_mem [where x = n and H = H and L = L and I = I]
  show "rep (put_tail (H i) n h) (H i) (L i @ [n])"
    using family_rep [OF f i] new [OF i] n by (intro rep_put_tail) auto
  fix j assume j: "j \<in> I" "j \<noteq> i"
  then show "{n} \<inter> set (H j # L j) = {}" using new n by blast
  with j family_disjoint [OF f i] show "rep (put_tail (H i) n h) (H j) (L j)"
    by (intro put_tail_other [OF family_rep [OF f i] family_rep [OF f]]) auto
qed auto

lemma family_unlink:
  assumes f: "family rep I H h L" and i: "i \<in> I" and n: "n \<in> set (L i)"
  shows "family rep I H (unlink n h) (L(i := remove1 n (L i)))"
proof (rule family_upd [OF f i, where N = "{}"])
  obtain xs ys where l: "L i = xs @ n # ys" "n \<notin> set xs"
    using split_list_unique [OF n] by blast
  then have rm: "remove1 n (L i) = xs @ ys" by (simp add: remove1_split)
  with l show "rep (unlink n h) (H i) (remove1 n (L i))"
    using family_rep [OF f i] rep_unlink by metis
  show "set (remove1 n (L i)) \<subseteq> set (L i) \<union> {}" by (simp add: set_remove1_subset)
  fix j assume j: "j \<in> I" "j \<noteq> i"
  with family_disjoint [OF f i] show "rep (unlink n h) (H j) (L j)"
    by (intro unlink_other [OF family_rep [OF f i] n family_rep [OF f]]) auto
qed simp

lemma family_is_empty:
  "family rep I H h L \<Longrightarrow> i \<in> I \<Longrightarrow> is_empty (H i) h \<longleftrightarrow> L i = []"
  using family_rep [of rep I H h L i] rep_is_empty by blast

lemma family_first:
  "family rep I H h L \<Longrightarrow> i \<in> I \<Longrightarrow> L i \<noteq> [] \<Longrightarrow> first h (H i) = hd (L i)"
  using family_rep [of rep I H h L i] rep_first [of h "H i" "hd (L i)" "tl (L i)"] by simp

lemma family_distinct:
  "family rep I H h L \<Longrightarrow> i \<in> I \<Longrightarrow> distinct (H i # L i)"
  using family_rep [of rep I H h L i] rep_distinct by blast

text \<open>Taking the first node off one list and putting it on another.\<close>

lemma family_move_first:
  assumes f: "family rep I H h L" and i: "i \<in> I" "L i \<noteq> []" and j: "j \<in> I" "j \<noteq> i"
  defines "n \<equiv> first h (H i)"
  shows "family rep I H (put_tail (H j) n (unlink n h)) (L(i := tl (L i), j := L j @ [n]))"
proof -
  have n: "n = hd (L i)" using f i family_first by (simp add: n_def)
  then have "n \<in> set (L i)" "remove1 n (L i) = tl (L i)" using i(2) by (cases "L i"; simp)+
  with family_unlink [OF f i(1)] have u: "family rep I H (unlink n h) (L(i := tl (L i)))" by metis
  have "distinct (H i # L i)" by (rule family_distinct [OF f i(1)])
  with n i(2) have "n \<notin> set (H i # tl (L i))" by (cases "L i") auto
  moreover have "n \<notin> set (H k # L k)" if "k \<in> I" "k \<noteq> i" for k
    using family_disjoint [OF f i(1) that(1)] that(2) \<open>n \<in> set (L i)\<close> by auto
  ultimately have "n \<notin> family_nodes I H (L(i := tl (L i)))"
    by (auto simp: family_nodes_def split: if_splits)
  from family_put_tail [OF u j(1) this] j(2) show ?thesis by simp
qed

end

text \<open>The ring operations of \<open>list.h\<close> are such a store.\<close>

lemma ring_between_other:
  assumes "ring h q ys" "set (q # ys) \<inter> {new, a, b} = {}"
  shows "ring (list_add_between new a b h) q ys"
  by (rule ring_frame [OF assms(1)])
     (use assms(2) in \<open>auto simp: list_add_between_def set_prev_def set_nxt_def\<close>)

interpretation rings: list_store ring list_add list_add_tail list_del list_empty nxt
proof (unfold_locales, goal_cases)
  case (1 h p xs)
  then show ?case by (rule ring_distinct)
next
  case (2 h p xs n)
  then show ?case by (rule list_add_ring)
next
  case (3 h p xs n)
  then show ?case by (rule list_add_tail_ring)
next
  case (4 h p xs n ys)
  then show ?case by (rule list_del_ring)
next
  case (5 h p xs)
  then show ?case by (rule list_empty_ring)
next
  case (6 h p x xs)
  then show ?case using ring_nxt [of h p "x # xs"] by simp
next
  case (7 h p xs q ys n)
  have "nxt h p \<in> set (p # xs)" using ring_nxt [OF 7(1)] by (cases xs) auto
  with 7 show ?case by (auto simp: list_add_def intro!: ring_between_other)
next
  case (8 h p xs q ys n)
  have "prev h p \<in> set (p # xs)" using ring_prev [OF 8(1)] by simp
  with 8 show ?case by (auto simp: list_add_tail_def intro!: ring_between_other)
next
  case (9 h p xs n q ys)
  obtain us vs where xs: "xs = us @ n # vs" using 9(2) by (meson split_list)
  note r = 9(1) [unfolded xs]
  have d: "distinct (p # us @ n # vs)" by (rule ring_distinct [OF r])
  have "last (p # us) \<in> set (p # us)" by (rule last_in_set) simp
  moreover have "hd (vs @ [p]) \<in> set (p # vs)" by (cases vs) auto
  ultimately have m: "prev h n \<noteq> n" "prev h n \<in> set (p # xs)" "nxt h n \<in> set (p # xs)"
    using d xs ring_split [OF r] by auto
  show ?case
    by (rule ring_frame [OF 9(3)]; rule list_del_frame) (use 9(4) m in blast)+
qed

lemma family_ring_frame:
  assumes "family ring I H h L"
    and "\<And>x. x \<in> family_nodes I H L \<Longrightarrow> nxt h' x = nxt h x"
    and "\<And>x. x \<in> family_nodes I H L \<Longrightarrow> prev h' x = prev h x"
  shows "family ring I H h' L"
proof -
  have "ring h' (H i) (L i)" if "i \<in> I" for i
    by (rule ring_frame [OF family_rep [OF assms(1) that]]; rule assms(2,3))
       (rule family_nodes_mem [OF that], assumption)+
  then show ?thesis using assms(1) by (simp add: family_def)
qed

text \<open>Cells outside the lists are left alone.\<close>

lemma family_del_frame:
  assumes f: "family ring I H h L" and i: "i \<in> I" "n \<in> set (L i)" and x: "x \<notin> family_nodes I H L"
  shows "nxt (list_del n h) x = nxt h x" and "prev (list_del n h) x = prev h x"
proof -
  obtain us vs where l: "L i = us @ n # vs" using i(2) by (meson split_list)
  have r: "ring h (H i) (us @ n # vs)" using family_rep [of ring I H h L i] f i(1) l by simp
  have "last (H i # us) \<in> set (H i # us)" by (rule last_in_set) simp
  moreover have "hd (vs @ [H i]) \<in> set (H i # vs)" by (cases vs) auto
  ultimately have m: "prev h n \<noteq> n" "prev h n \<in> set (H i # L i)" "nxt h n \<in> set (H i # L i)"
    using ring_distinct [OF r] ring_split [OF r] l by auto
  then have "x \<notin> {nxt h n, prev h n}" using x family_nodes_mem [OF i(1), of _ H L] by blast
  then show "nxt (list_del n h) x = nxt h x" "prev (list_del n h) x = prev h x"
    using list_del_frame [of x h n] m(1) by simp_all
qed

lemma family_add_frame:
  assumes f: "family ring I H h L" and i: "i \<in> I" and x: "x \<notin> family_nodes I H L" "x \<noteq> n"
  shows "nxt (list_add (H i) n h) x = nxt h x" and "prev (list_add (H i) n h) x = prev h x"
proof -
  have "nxt h (H i) \<in> set (H i # L i)"
    using ring_nxt [OF family_rep [OF f i]] by (cases "L i") auto
  then have "x \<notin> {n, H i, nxt h (H i)}" using x family_nodes_mem [OF i, of _ H L] by auto
  then show "nxt (list_add (H i) n h) x = nxt h x" "prev (list_add (H i) n h) x = prev h x"
    by (simp_all add: list_add_def frame)
qed

end
