(* ===== verification/PageDesc.thy ===== *)
theory PageDesc
  imports Bitops Listhead
begin

text \<open>
  The page descriptors, zones and address macros of \<open>kernel/include/i386/mm.h\<close>,
  \<open>page.h\<close>, \<open>page_flag.h\<close> and \<open>page_table.h\<close>, and the state of the page allocator.

  A \<open>struct page *\<close> into \<open>mem_map\<close> is the index of the descriptor, a natural number, and a
  zone is its index in \<open>node_zones\<close>. Every \<open>struct list_head\<close> the allocator and the slab
  caches link has a name of type \<open>lnode\<close>; \<open>list_entry\<close> is the inverse of the constructor.
\<close>

section \<open>Addresses and frame numbers\<close>

definition PAGE_SHIFT :: nat where
  "PAGE_SHIFT = 12"

definition PAGE_SIZE :: u32 where
  "PAGE_SIZE = push_bit PAGE_SHIFT 1"

definition PAGE_MASK :: u32 where
  "PAGE_MASK = NOT (PAGE_SIZE - 1)"

definition PAGE_OFFSET :: u32 where
  "PAGE_OFFSET = 0xc0000000"

definition pa :: "u32 \<Rightarrow> u32" where
  "pa x = x - PAGE_OFFSET"

definition va :: "u32 \<Rightarrow> u32" where
  "va x = x + PAGE_OFFSET"

definition PFN_UP :: "u32 \<Rightarrow> u32" where
  "PFN_UP x = drop_bit PAGE_SHIFT (x + PAGE_SIZE - 1)"

definition PFN_DOWN :: "'a::len word \<Rightarrow> 'a word" where
  "PFN_DOWN x = drop_bit PAGE_SHIFT x"

definition PFN_PHYS :: "u32 \<Rightarrow> u32" where
  "PFN_PHYS x = push_bit PAGE_SHIFT x"

definition pfn_to_kaddr :: "u32 \<Rightarrow> u32" where
  "pfn_to_kaddr pfn = va (push_bit PAGE_SHIFT pfn)"

definition kaddr_to_pfn :: "u32 \<Rightarrow> u32" where
  "kaddr_to_pfn k = drop_bit PAGE_SHIFT (pa k)"

definition page_to_pfn :: "nat \<Rightarrow> u32" where
  "page_to_pfn pg = of_nat pg"

definition pfn_to_page :: "u32 \<Rightarrow> nat" where
  "pfn_to_page pfn = unat pfn"

definition kaddr_to_page :: "u32 \<Rightarrow> nat" where
  "kaddr_to_page k = pfn_to_page (kaddr_to_pfn k)"

definition virt_to_phys :: "u32 \<Rightarrow> u32" where
  "virt_to_phys address = pa address"

definition lowmem_page_address :: "nat \<Rightarrow> u32" where
  "lowmem_page_address pg = va (push_bit PAGE_SHIFT (page_to_pfn pg))"

text \<open>
  \<open>config.h\<close> spells the option \<open>CONFIG_HIHMEM\<close>, so \<open>CONFIG_HIGHMEM\<close> is not defined,
  \<open>PageHighMem\<close> is the constant 0 and \<open>page_address\<close> always takes the low-memory branch.
\<close>

definition PageHighMem :: "nat \<Rightarrow> bool" where
  "PageHighMem pg = False"

definition page_address :: "nat \<Rightarrow> u32" where
  "page_address pg = (if \<not> PageHighMem pg then lowmem_page_address pg else undefined)"

text \<open>\<open>-PAGE_OFFSET - VMALLOC_REVERSE\<close>\<close>

definition MAX_LOW_MEM :: u32 where
  "MAX_LOW_MEM = - PAGE_OFFSET - push_bit 20 128"

definition MAX_DMA_ADDRESS :: u32 where
  "MAX_DMA_ADDRESS = PAGE_OFFSET + 0x1000000"

lemmas addr_defs [code_defs] = PAGE_SHIFT_def PAGE_SIZE_def PAGE_MASK_def PAGE_OFFSET_def pa_def va_def
  kaddr_to_pfn_def pfn_to_kaddr_def page_to_pfn_def pfn_to_page_def kaddr_to_page_def
  lowmem_page_address_def PageHighMem_def page_address_def

section \<open>Page descriptors\<close>

text \<open>
  \<open>pg_cache_p\<close> is the union of \<open>cache_p\<close> and \<open>kmem_size\<close>. The union of \<open>lru\<close> and \<open>next\<close> is
  the list node \<open>Lru p\<close>: \<open>next\<close> is its first word, \<open>prev\<close>.
\<close>

record page =
  pg_flags :: u32
  pg_count :: u32
  pg_mapcount :: u32
  pg_private :: u32
  pg_mapping :: u32
  pg_index :: u32
  pg_inuse :: "15 word"
  pg_objects :: "15 word"
  pg_buddy :: "1 word"
  pg_frozen :: "1 word"
  pg_free_list :: u32
  pg_cache_p :: u32
  pg_pobjects :: u32

definition page_zero :: page where
  "page_zero = \<lparr>pg_flags = 0, pg_count = 0, pg_mapcount = 0, pg_private = 0, pg_mapping = 0,
     pg_index = 0, pg_inuse = 0, pg_objects = 0, pg_buddy = 0, pg_frozen = 0, pg_free_list = 0,
     pg_cache_p = 0, pg_pobjects = 0\<rparr>"

definition PG_slab :: nat where "PG_slab = 7"
definition PG_KMEM :: nat where "PG_KMEM = 9"
definition PG_reserved :: nat where "PG_reserved = 11"
definition PG_private :: nat where "PG_private = 12"

definition SetPageKmem :: "page \<Rightarrow> page" where
  "SetPageKmem pg = pg\<lparr>pg_flags := bts PG_KMEM (pg_flags pg)\<rparr>"

definition PageKmem :: "page \<Rightarrow> bool" where
  "PageKmem pg = test_bit_w PG_KMEM (pg_flags pg)"

definition SetPageReserved :: "page \<Rightarrow> page" where
  "SetPageReserved pg = pg\<lparr>pg_flags := bts PG_reserved (pg_flags pg)\<rparr>"

definition ClearPageKmem :: "page \<Rightarrow> page" where
  "ClearPageKmem pg = pg\<lparr>pg_flags := btr PG_KMEM (pg_flags pg)\<rparr>"

definition ClearPageReserved :: "page \<Rightarrow> page" where
  "ClearPageReserved pg = pg\<lparr>pg_flags := btr PG_reserved (pg_flags pg)\<rparr>"

definition PageReserved :: "page \<Rightarrow> bool" where
  "PageReserved pg = test_bit_w PG_reserved (pg_flags pg)"

definition SetPagePrivate :: "page \<Rightarrow> page" where
  "SetPagePrivate pg = pg\<lparr>pg_flags := bts PG_private (pg_flags pg)\<rparr>"

definition ClearPagePrivate :: "page \<Rightarrow> page" where
  "ClearPagePrivate pg = pg\<lparr>pg_flags := btr PG_private (pg_flags pg)\<rparr>"

definition PagePrivate :: "page \<Rightarrow> bool" where
  "PagePrivate pg = test_bit_w PG_private (pg_flags pg)"

definition SetPageSlab :: "page \<Rightarrow> page" where
  "SetPageSlab pg = pg\<lparr>pg_flags := bts PG_slab (pg_flags pg)\<rparr>"

definition ClearPageSlab :: "page \<Rightarrow> page" where
  "ClearPageSlab pg = pg\<lparr>pg_flags := btr PG_slab (pg_flags pg)\<rparr>"

definition PageSlab :: "page \<Rightarrow> bool" where
  "PageSlab pg = test_bit_w PG_slab (pg_flags pg)"

text \<open>Each flag is set and cleared on its own.\<close>

lemmas page_flag_unfold = PageKmem_def PageReserved_def PagePrivate_def PageSlab_def SetPageKmem_def SetPageReserved_def
  SetPagePrivate_def SetPageSlab_def ClearPageKmem_def ClearPageReserved_def ClearPagePrivate_def ClearPageSlab_def
  PG_slab_def PG_KMEM_def PG_reserved_def PG_private_def

lemma page_flags_set:
  "PageKmem (SetPageKmem pg)" "PageReserved (SetPageReserved pg)" "PagePrivate (SetPagePrivate pg)" "PageSlab (SetPageSlab pg)"
  "\<not> PageKmem (ClearPageKmem pg)" "\<not> PageReserved (ClearPageReserved pg)" "\<not> PagePrivate (ClearPagePrivate pg)"
  "\<not> PageSlab (ClearPageSlab pg)"
  by (simp_all add: page_flag_unfold)

lemma page_flags_apart:
  "PageReserved (SetPageKmem pg) = PageReserved pg" "PagePrivate (SetPageKmem pg) = PagePrivate pg" "PageSlab (SetPageKmem pg) = PageSlab pg"
  "PageKmem (SetPageSlab pg) = PageKmem pg" "PageReserved (SetPageSlab pg) = PageReserved pg" "PagePrivate (SetPageSlab pg) = PagePrivate pg"
  "PageKmem (ClearPageSlab pg) = PageKmem pg" "PageReserved (ClearPageSlab pg) = PageReserved pg" "PagePrivate (ClearPageSlab pg) = PagePrivate pg"
  by (simp_all add: page_flag_unfold)

text \<open>\<open>atomic_read(&(p)->_count) + 1\<close>\<close>

definition page_count :: "page \<Rightarrow> u32" where
  "page_count pg = pg_count pg + 1"

lemmas flag_defs = PG_slab_def PG_KMEM_def PG_reserved_def PG_private_def SetPageKmem_def PageKmem_def
  SetPageReserved_def PageReserved_def SetPagePrivate_def PagePrivate_def SetPageSlab_def
  ClearPageSlab_def PageSlab_def

section \<open>Zones and the allocator's state\<close>

definition DMA_ZONE :: nat where "DMA_ZONE = 0"
definition NORMAL_ZONE :: nat where "NORMAL_ZONE = 1"
definition HIGH_ZONE :: nat where "HIGH_ZONE = 2"
definition MAX_ORDER :: nat where "MAX_ORDER = 11"
definition MAX_NR_ZONES :: nat where "MAX_NR_ZONES = 3"
definition GFP_ZONETYPES :: nat where "GFP_ZONETYPES = 4"

text \<open>\<open>sizeof(pg_flags_t)*8 - MAX_NR_ZONES - MAX_NUMNODES\<close> with one node.\<close>

definition NODEZONE_SHIFT :: nat where
  "NODEZONE_SHIFT = 4 * 8 - MAX_NR_ZONES - 1"

lemmas zone_consts [simp] = DMA_ZONE_def NORMAL_ZONE_def HIGH_ZONE_def MAX_ORDER_def MAX_NR_ZONES_def
  GFP_ZONETYPES_def

lemma NODEZONE_SHIFT_28 [simp]: "NODEZONE_SHIFT = 28"
  by (simp add: NODEZONE_SHIFT_def)

text \<open>
  List nodes. \<open>FreeHead z o\<close> is \<open>node_zones[z].free_area[o].head\<close>. \<open>FreeHead z (-1)\<close> is the
  storage just below the array: a \<open>struct free_area\<close> is as large as the three words
  \<open>pages_min, pages_low, pages_high\<close> that precede \<open>free_area\<close> in \<open>struct zone\<close>, so
  \<open>free_area[-1]\<close> overlays exactly these (as \<open>head.prev\<close>, \<open>head.next\<close>, \<open>nr_free\<close>), and no
  other code touches them. \<open>NullN\<close> is the null pointer. \<open>PageN p\<close> is the address of the
  descriptor \<open>p\<close> itself, as \<open>next\<close> holds it, against that of its \<open>lru\<close> field.
\<close>

datatype lnode =
    NullN
  | FreeHead nat int
  | PcpList nat nat
  | Lru nat
  | PageN nat
  | NodePartial u32
  | CacheListHead
  | CacheHead u32

record per_cpu_pages =
  pcp_count :: u32
  pcp_low :: u32
  pcp_high :: u32
  pcp_batch :: u32

record zone =
  z_free_pages :: u32
  z_nr_free :: "int \<Rightarrow> u32"
  z_pcp :: "nat \<Rightarrow> per_cpu_pages"
  z_mem_map :: nat
  z_spanned :: u32

record mm =
  mem_map :: "nat \<Rightarrow> page"
  lists :: "lnode lheap"
  zones :: "nat \<Rightarrow> zone"
  zone_table :: "nat \<Rightarrow> nat option"

definition upd_page :: "nat \<Rightarrow> (page \<Rightarrow> page) \<Rightarrow> mm \<Rightarrow> mm" where
  "upd_page p f s = s\<lparr>mem_map := (mem_map s)(p := f (mem_map s p))\<rparr>"

definition upd_zone :: "nat \<Rightarrow> (zone \<Rightarrow> zone) \<Rightarrow> mm \<Rightarrow> mm" where
  "upd_zone z f s = s\<lparr>zones := (zones s)(z := f (zones s z))\<rparr>"

definition upd_nr_free :: "nat \<Rightarrow> int \<Rightarrow> (u32 \<Rightarrow> u32) \<Rightarrow> mm \<Rightarrow> mm" where
  "upd_nr_free z ord f = upd_zone z (\<lambda>zn. zn\<lparr>z_nr_free := (z_nr_free zn)(ord := f (z_nr_free zn ord))\<rparr>)"

definition on_lists :: "(lnode lheap \<Rightarrow> lnode lheap) \<Rightarrow> mm \<Rightarrow> mm" where
  "on_lists f s = s\<lparr>lists := f (lists s)\<rparr>"

lemmas upd_defs = upd_page_def upd_zone_def upd_nr_free_def on_lists_def

lemma upd_page_simps [simp]:
  "mem_map (upd_page p f s) = (mem_map s)(p := f (mem_map s p))"
  "lists (upd_page p f s) = lists s" "zones (upd_page p f s) = zones s"
  "zone_table (upd_page p f s) = zone_table s"
  by (simp_all add: upd_page_def)

lemma on_lists_simps [simp]:
  "lists (on_lists f s) = f (lists s)" "mem_map (on_lists f s) = mem_map s"
  "zones (on_lists f s) = zones s" "zone_table (on_lists f s) = zone_table s"
  by (simp_all add: on_lists_def)

lemma upd_zone_simps [simp]:
  "lists (upd_zone z f s) = lists s" "mem_map (upd_zone z f s) = mem_map s"
  "zone_table (upd_zone z f s) = zone_table s"
  "zones (upd_zone z f s) = (zones s)(z := f (zones s z))"
  by (simp_all add: upd_zone_def)

lemma upd_nr_free_simps [simp]:
  "lists (upd_nr_free z ord f s) = lists s" "mem_map (upd_nr_free z ord f s) = mem_map s"
  "zone_table (upd_nr_free z ord f s) = zone_table s"
  "z_mem_map (zones (upd_nr_free z ord f s) z') = z_mem_map (zones s z')"
  "z_spanned (zones (upd_nr_free z ord f s) z') = z_spanned (zones s z')"
  "z_pcp (zones (upd_nr_free z ord f s) z') = z_pcp (zones s z')"
  "z_free_pages (zones (upd_nr_free z ord f s) z') = z_free_pages (zones s z')"
  "z_nr_free (zones (upd_nr_free z ord f s) z') ord' =
     (if z' = z \<and> ord' = ord then f (z_nr_free (zones s z) ord) else z_nr_free (zones s z') ord')"
  by (simp_all add: upd_nr_free_def)

section \<open>Frame numbers and kernel addresses correspond\<close>

text \<open>
  Below 1 GiB of physical memory the kernel address of a frame leads back to the frame,
  from any byte of the page.
\<close>

lemma unat_push_pfn:
  assumes "pfn < 0x40000"
  shows "unat (push_bit 12 (of_nat pfn :: u32)) = 4096 * pfn"
proof -
  have "push_bit 12 (of_nat pfn :: u32) = of_nat (4096 * pfn)"
    by (simp add: push_bit_eq_mult)
  then show ?thesis using assms by (simp add: word32_of_nat_unat_id del: of_nat_mult)
qed

lemma kaddr_to_page_offset:
  assumes "pg < 0x40000" and "off < PAGE_SIZE"
  shows "kaddr_to_page (page_address pg + off) = pg"
proof -
  have o: "unat off < 4096" using assms(2) by (simp add: addr_defs word_less_nat_alt)
  have "pa (page_address pg + off) = push_bit 12 (of_nat pg) + off"
    by (simp add: addr_defs)
  moreover have "unat (push_bit 12 (of_nat pg) + off) = 4096 * pg + unat off"
    using o assms(1) unat_push_pfn [OF assms(1)] by (subst unat_add_small) simp_all
  ultimately have "unat (drop_bit 12 (pa (page_address pg + off))) = (4096 * pg + unat off) div 4096"
    by (simp add: drop_bit_eq_div unat_div_distrib)
  then show ?thesis using o by (simp add: kaddr_to_page_def kaddr_to_pfn_def pfn_to_page_def PAGE_SHIFT_def)
qed

end
