(* ===== verification/BaseProps.thy ===== *)
theory BaseProps
  imports PageDesc
begin

text \<open>
  The properties of the building blocks: bit operations, the integer logarithm, the intrusive
  lists and the page descriptors.
\<close>

text \<open>
  \<open>ffs\<close> and \<open>fls\<close> number the lowest and the highest set bit from 1, and \<open>fls\<close> is zero only
  for zero; \<open>ilog2\<close> of a nonzero word, whichever branch of the macro the compiler takes, is the
  exponent \<open>m\<close> with \<open>2^m \<le> n < 2^(m+1)\<close>.
\<close>

theorem bit_scans_correct:
  assumes "w \<noteq> 0"
  shows "bit w (ffs w - 1) \<and> (\<forall>j < ffs w - 1. \<not> bit w j) \<and> 1 \<le> ffs w
     \<and> bit w (fls w - 1) \<and> (\<forall>j \<ge> fls w. \<not> bit w j) \<and> 1 \<le> fls w
     \<and> (\<exists>m. ilog2 c w = int m \<and> 2 ^ m \<le> unat w \<and> unat w < 2 ^ Suc m)"
  using ffs_correct [OF assms] fls_correct [OF assms] ilog2_u32_spec [OF assms] ilog2_const_spec [OF assms]
  by (cases c) (simp_all add: ilog2_def)

theorem bit_scans_correct_witness:
  "(\<exists>m. ilog2 True 100 = int m \<and> 2 ^ m \<le> unat (100 :: u32) \<and> unat (100 :: u32) < 2 ^ Suc m)
     \<and> bit (100 :: u32) (ffs 100 - 1)"
  using bit_scans_correct [of 100 True] by simp

text \<open>
  A bitmap as a set of bit numbers: \<open>set_bit\<close> adds one, \<open>clear_bit\<close> removes one,
  \<open>test_and_clear_bit\<close> removes one and tells whether it was there, and both versions of
  \<open>test_bit\<close> read membership.
\<close>

theorem bitmap_operations:
  "(constant_test_bit m (set_bit_at n a) \<longleftrightarrow> m = n \<or> constant_test_bit m a)
   \<and> (constant_test_bit m (clear_bit_at n a) \<longleftrightarrow> m \<noteq> n \<and> constant_test_bit m a)
   \<and> snd (test_and_clear_bit n a) = clear_bit_at n a
   \<and> (fst (test_and_clear_bit n a) = (if constant_test_bit n a then - 1 else 0))
   \<and> (variable_test_bit n a \<noteq> 0 \<longleftrightarrow> constant_test_bit n a)"
  by (simp only: test_set_bit_at test_clear_bit_at variable_test_bit_iff simp_thms
        test_and_clear_bit_def fst_conv snd_conv) (simp add: constant_test_bit_iff)

text \<open>
  C25: on a well-formed ring the list operations are the operations on its sequence of members:
  insertion after the head and before it, removal, the emptiness test and the traversal, which
  visits every member once in order and ends.
\<close>

theorem list_operations_refine:
  assumes "ring h p (xs @ n # ys)" and "m \<notin> set (p # xs @ n # ys)"
  shows "ring (list_add p m h) p (m # xs @ n # ys) \<and> ring (list_add_tail p m h) p (xs @ n # ys @ [m])
     \<and> ring (list_del n h) p (xs @ ys) \<and> (list_empty p (list_del n h) \<longleftrightarrow> xs @ ys = [])
     \<and> list_for_each h p (nxt h p) [] = Some (xs @ n # ys)"
  using list_add_ring [OF assms] list_add_tail_ring [OF assms] list_del_ring [OF assms(1)]
    list_for_each_ring [OF assms(1)] list_empty_ring [OF list_del_ring [OF assms(1)]] by simp

theorem list_operations_refine_witness:
  "list_for_each (list_add_tail 0 2 (list_add_tail 0 1 (init_list (0 :: nat) \<lparr>prev = id, nxt = id\<rparr>))) 0 1 []
    = Some [1, 2]"
proof -
  let ?h = "list_add_tail 0 2 (list_add_tail 0 1 (init_list (0 :: nat) \<lparr>prev = id, nxt = id\<rparr>))"
  have "ring (list_add_tail 0 1 (init_list (0 :: nat) \<lparr>prev = id, nxt = id\<rparr>)) 0 ([] @ [1])"
    by (rule list_add_tail_ring [OF init_list_ring]) simp
  from list_add_tail_ring [OF this, of 2] have r: "ring ?h 0 ([] @ 1 # [2])" by simp
  have "nxt ?h 0 = 1" using ring_nxt [OF r] by simp
  with list_operations_refine [OF r, of 3] show ?thesis by simp
qed

text \<open>
  The kernel address of a frame below 1 GiB, at any offset inside the page, leads back to its
  descriptor.
\<close>

theorem kaddr_roundtrip:
  assumes "pg < 0x40000" and "off < PAGE_SIZE"
  shows "kaddr_to_page (page_address pg + off) = pg"
  by (rule kaddr_to_page_offset [OF assms])

theorem kaddr_roundtrip_witness: "kaddr_to_page (page_address 4097 + 123) = 4097"
  by (rule kaddr_roundtrip) (simp_all add: PAGE_SIZE_def PAGE_SHIFT_def)

end
