(* ===== verification/Buddy.thy ===== *)
theory Buddy
  imports PageDesc
begin

text \<open>
  The buddy allocator of \<open>kernel/kernel/page_alloc.c\<close>: each zone keeps, for every order
  below \<open>MAX_ORDER\<close>, a list of free blocks of that order. The definitions follow the C
  functions statement by statement. Orders and sizes that the code keeps in \<open>int\<close> are
  integers here, since \<open>expand\<close> runs its order down to minus one.
\<close>

section \<open>The operations\<close>

text \<open>\<open>zone_table[pg->flags >> NODEZONE_SHIFT]\<close>; an entry that was never set is the null zone.\<close>

definition page_zone :: "nat \<Rightarrow> mm \<Rightarrow> nat option" where
  "page_zone pg s = zone_table s (unat (drop_bit NODEZONE_SHIFT (pg_flags (mem_map s pg))))"

definition page_order :: "nat \<Rightarrow> mm \<Rightarrow> u32" where
  "page_order pg s = pg_private (mem_map s pg)"

definition set_page_order :: "nat \<Rightarrow> u32 \<Rightarrow> mm \<Rightarrow> mm" where
  "set_page_order pg ord s = upd_page pg (\<lambda>p. SetPagePrivate (p\<lparr>pg_private := ord\<rparr>)) s"

text \<open>
  \<open>expand\<close>. \<open>fa\<close> is the index of the free area the pointer stands at; it moves down one
  before each use.
\<close>

function expand_loop :: "nat \<Rightarrow> nat \<Rightarrow> int \<Rightarrow> int \<Rightarrow> int \<Rightarrow> u32 \<Rightarrow> mm \<Rightarrow> mm" where
  "expand_loop z pg low high fa sz s =
     (if high \<ge> low then
        let fa' = fa - 1; sz' = drop_bit 1 sz; q = pg + unat sz';
            s1 = on_lists (list_add_tail (FreeHead z fa') (Lru q)) s;
            s2 = upd_nr_free z fa' (\<lambda>n. n + 1) s1;
            s3 = upd_zone z (\<lambda>zn. zn\<lparr>z_free_pages := z_free_pages zn + sz'\<rparr>) s2;
            s4 = set_page_order q sz' s3
        in expand_loop z pg (low + 1) high fa' sz' s4
      else s)"
  by pat_completeness auto
termination
  by (relation "measure (\<lambda>(z, pg, low, high, fa, size, s). nat (high + 1 - low))") auto

declare expand_loop.simps [simp del]

definition expand :: "nat \<Rightarrow> nat \<Rightarrow> int \<Rightarrow> int \<Rightarrow> int \<Rightarrow> mm \<Rightarrow> nat \<times> mm" where
  "expand z pg low high fa s =
     (pg, expand_loop z pg low high fa (push_bit (nat high) 1) s)"

text \<open>
  \<open>list_entry(head.next, struct page, lru)\<close>: the page whose \<open>lru\<close> field the node is. A node
  that is no \<open>lru\<close> field would give a pointer outside \<open>mem_map\<close>; the free lists hold none.
\<close>

fun lru_page :: "lnode \<Rightarrow> nat option" where
  "lru_page (Lru p) = Some p"
| "lru_page _ = None"

text \<open>
  Page pointers as the allocator returns them: null, a descriptor, \<open>(struct page *)-1\<close>, or
  the bogus pointer that \<open>list_entry(&(pcp->list.next), ...)\<close> computes from the address of
  a field of the zone, given by zone and hot/cold index. \<open>PBad n\<close> is \<open>list_entry\<close> of a node
  that is no page's \<open>lru\<close>.
\<close>

datatype pgptr = PNull | PPage nat | PMinusOne | PPcpSlot nat nat | PBad lnode

function rmqueue_from :: "nat \<Rightarrow> nat \<Rightarrow> nat \<Rightarrow> mm \<Rightarrow> pgptr \<times> mm" where
  "rmqueue_from z ord ord' s =
     (if ord' < MAX_ORDER then
        if list_empty (FreeHead z (int ord')) (lists s) then rmqueue_from z ord (Suc ord') s
        else
          let n = nxt (lists s) (FreeHead z (int ord'));
              s1 = on_lists (list_del n) s;
              s2 = upd_nr_free z (int ord') (\<lambda>k. k - 1) s1;
              s3 = upd_zone z (\<lambda>zn. zn\<lparr>z_free_pages := z_free_pages zn - push_bit ord 1\<rparr>) s2
          in (case lru_page n of
                Some pg \<Rightarrow> (let (pg', s4) = expand z pg (int ord) (int ord') (int ord') s3
                            in (PPage pg', s4))
              | None \<Rightarrow> (PBad n, s3))
      else (PNull, s))"
  by pat_completeness auto
termination
  by (relation "measure (\<lambda>(z, ord, ord', s). MAX_ORDER - ord')") auto

declare rmqueue_from.simps [simp del]

definition rmqueue :: "nat \<Rightarrow> nat \<Rightarrow> mm \<Rightarrow> pgptr \<times> mm" where
  "rmqueue z ord s = rmqueue_from z ord ord s"

text \<open>
  \<open>rmqueue_bulk\<close>: up to \<open>count\<close> (signed) blocks go to the tail of \<open>list\<close>; the result is how
  many.
\<close>

fun rmqueue_bulk_loop :: "nat \<Rightarrow> nat \<Rightarrow> nat \<Rightarrow> lnode \<Rightarrow> u32 \<Rightarrow> mm \<Rightarrow> u32 \<times> mm" where
  "rmqueue_bulk_loop z ord 0 lst allocated s = (allocated, s)"
| "rmqueue_bulk_loop z ord (Suc n) lst allocated s =
     (case rmqueue z ord s of
        (PPage pg, s1) \<Rightarrow>
          rmqueue_bulk_loop z ord n lst (allocated + 1) (on_lists (list_add_tail lst (Lru pg)) s1)
      | (PBad b, s1) \<Rightarrow>
          rmqueue_bulk_loop z ord n lst (allocated + 1) (on_lists (list_add_tail lst b) s1)
      | (_, s1) \<Rightarrow> (allocated, s1))"

definition rmqueue_bulk :: "nat \<Rightarrow> nat \<Rightarrow> u32 \<Rightarrow> lnode \<Rightarrow> mm \<Rightarrow> u32 \<times> mm" where
  "rmqueue_bulk z ord cnt lst s = rmqueue_bulk_loop z ord (nat (sint cnt)) lst 0 s"

text \<open>\<open>!!(gfp_flags && __GFP_COLD)\<close>: a logical \<open>and\<close> with a nonzero constant.\<close>

definition GFP_COLD :: u32 where "GFP_COLD = 0x100"

definition gfp_cold :: "u32 \<Rightarrow> nat" where
  "gfp_cold gfp_flags = (if gfp_flags \<noteq> 0 \<and> GFP_COLD \<noteq> 0 then 1 else 0)"

definition upd_pcp :: "nat \<Rightarrow> nat \<Rightarrow> (per_cpu_pages \<Rightarrow> per_cpu_pages) \<Rightarrow> mm \<Rightarrow> mm" where
  "upd_pcp z cold f = upd_zone z (\<lambda>zn. zn\<lparr>z_pcp := (z_pcp zn)(cold := f (z_pcp zn cold))\<rparr>)"

text \<open>
  \<open>buffered_rmqueue\<close>: an order-0 request refills the per-cpu buffer when its count is not
  above \<open>low\<close> (compared as \<open>int\<close>) and takes its page from there when the count is nonzero;
  every other request, and one the buffer did not serve, goes to the buddy lists.
\<close>

definition buffered_rmqueue :: "nat \<Rightarrow> nat \<Rightarrow> u32 \<Rightarrow> mm \<Rightarrow> pgptr \<times> mm" where
  "buffered_rmqueue z ord gfp_flags s =
     (let cold = gfp_cold gfp_flags;
          (pg, s1) =
            (if ord = 0 then
               let pcp = z_pcp (zones s z) cold;
                   s0 = (if pcp_count pcp \<le>s pcp_low pcp then
                           let (n, t) = rmqueue_bulk z 0 (pcp_batch pcp) (PcpList z cold) s
                           in upd_pcp z cold (\<lambda>c. c\<lparr>pcp_count := pcp_count c + n\<rparr>) t
                         else s)
               in if pcp_count (z_pcp (zones s0 z) cold) \<noteq> 0 then
                    (PPcpSlot z cold, upd_pcp z cold (\<lambda>c. c\<lparr>pcp_count := pcp_count c - 1\<rparr>) s0)
                  else (PNull, s0)
             else (PNull, s))
      in if pg = PNull then rmqueue z ord s1 else (pg, s1))"

text \<open>
  \<open>__alloc_pages\<close>: the zones of the zonelist in order, up to its null entry; the first that
  has a block serves the request. When none does the function returns \<open>-1\<close>, not null.
\<close>

fun alloc_pages :: "u32 \<Rightarrow> nat \<Rightarrow> nat list \<Rightarrow> mm \<Rightarrow> pgptr \<times> mm" where
  "alloc_pages gfp_mask ord [] s = (PMinusOne, s)"
| "alloc_pages gfp_mask ord (z # zs) s =
     (let (pg, s1) = buffered_rmqueue z ord gfp_mask s
      in if pg \<noteq> PNull then (pg, s1) else alloc_pages gfp_mask ord zs s1)"

definition page_is_buddy :: "nat \<Rightarrow> nat \<Rightarrow> mm \<Rightarrow> bool" where
  "page_is_buddy pg ord s \<longleftrightarrow> PagePrivate (mem_map s pg) \<and> page_order pg s = of_nat ord
     \<and> \<not> PageReserved (mem_map s pg) \<and> page_count (mem_map s pg) = 0"

definition not_in_zone :: "nat \<Rightarrow> nat \<Rightarrow> mm \<Rightarrow> bool" where
  "not_in_zone z pg s \<longleftrightarrow> pg < z_mem_map (zones s z)
     \<or> z_mem_map (zones s z) + unat (z_spanned (zones s z)) < pg"

text \<open>The merging loop of \<open>__free_pages\<close>: block index, order and state when it stops.\<close>

function free_pages_loop :: "nat \<Rightarrow> nat \<Rightarrow> nat \<Rightarrow> mm \<Rightarrow> nat \<times> nat \<times> mm" where
  "free_pages_loop z pg_idx ord s =
     (if ord < MAX_ORDER - 1 then
        let buddy_idx = pg_idx XOR push_bit ord 1;
            buddy = z_mem_map (zones s z) + buddy_idx
        in if not_in_zone z buddy s then (pg_idx, ord, s)
           else if \<not> page_is_buddy buddy ord s then (pg_idx, ord, s)
           else
             let s1 = on_lists (list_del (Lru buddy)) s;
                 s2 = upd_nr_free z (int ord) (\<lambda>n. n - 1) s1
             in free_pages_loop z (pg_idx AND buddy_idx) (Suc ord) s2
      else (pg_idx, ord, s))"
  by pat_completeness auto
termination
  by (relation "measure (\<lambda>(z, pg_idx, ord, s). MAX_ORDER - ord)") auto

declare free_pages_loop.simps [simp del]

text \<open>\<open>__free_pages\<close>; a page whose zone entry is null makes it dereference null, \<^const>\<open>None\<close>.\<close>

definition free_pages :: "nat \<Rightarrow> nat \<Rightarrow> mm \<Rightarrow> mm option" where
  "free_pages pg ord s =
     (case page_zone pg s of
        None \<Rightarrow> None
      | Some z \<Rightarrow>
          let base = z_mem_map (zones s z);
              (pg_idx, ord', s1) = free_pages_loop z (pg - base) ord s;
              col = base + pg_idx;
              s2 = set_page_order col (of_nat ord') s1;
              s3 = on_lists (list_add (FreeHead z (int ord')) (Lru col)) s2
          in Some (upd_nr_free z (int ord') (\<lambda>n. n + 1) s3))"

definition free_page :: "nat \<Rightarrow> mm \<Rightarrow> mm option" where
  "free_page pg s = free_pages pg 0 s"

end
