(* ===== verification/BuddyInv.thy ===== *)
theory BuddyInv
  imports Buddy
begin

text \<open>
  The invariant of the free lists and the proof that \<open>__free_pages\<close> keeps it: the block it
  returns, merged with its free buddies, becomes free memory and nothing else changes.
\<close>

section \<open>Buddies as numbers\<close>

text \<open>
  A block of order \<open>o\<close> starts at a multiple of \<open>2^o\<close>; its buddy is the other half of the
  enclosing block of order \<open>o + 1\<close>.
\<close>

lemma buddy_even:
  assumes "2 ^ k dvd i" "even (i div 2 ^ k)"
  shows "i XOR push_bit k 1 = i + 2 ^ k" "i AND (i XOR push_bit k 1) = i" "2 ^ Suc k dvd (i :: nat)"
proof -
  have nb: "\<not> bit i k" using assms(2) by (simp add: bit_iff_odd)
  have "i XOR push_bit k 1 = flip_bit k i" by (simp add: flip_bit_eq_xor)
  also have "\<dots> = set_bit k i" using nb by (simp add: flip_bit_eq_if)
  also have "\<dots> = i OR push_bit k 1" by (simp add: set_bit_eq_or)
  also have "\<dots> = i + 2 ^ k"
    using nb by (subst disjunctive_add [symmetric]) (auto simp: bit_exp_iff)
  finally show x: "i XOR push_bit k 1 = i + 2 ^ k" .
  show "i AND (i XOR push_bit k 1) = i"
    using nb by (auto intro!: bit_eqI simp: bit_simps)
  from assms show "2 ^ Suc k dvd i"
    by (metis dvd_mult_div_cancel mult.commute mult_dvd_mono dvd_refl power_Suc)
qed

lemma buddy_odd:
  assumes "2 ^ k dvd i" "odd (i div 2 ^ k)"
  shows "i XOR push_bit k 1 = i - 2 ^ k" "i AND (i XOR push_bit k 1) = i - 2 ^ k"
    "2 ^ Suc k dvd i - 2 ^ k" "2 ^ k \<le> (i :: nat)"
proof -
  have b: "bit i k" using assms(2) by (simp add: bit_iff_odd)
  have e: "i = 2 ^ k * (i div 2 ^ k)" using assms(1) by simp
  have "i div 2 ^ k \<noteq> 0" using assms(2) by (metis even_zero)
  then have q: "1 \<le> i div 2 ^ k" by simp
  show le: "2 ^ k \<le> i" using q e by (metis mult.right_neutral mult_le_mono2)
  let ?j = "i - 2 ^ k"
  have dj: "2 ^ k dvd ?j" using assms(1) by (simp add: dvd_diff_nat)
  have "?j div 2 ^ k = i div 2 ^ k - 1" using le by (simp add: le_div_geq)
  then have ev: "even (?j div 2 ^ k)" using assms(2) q by simp
  note J = buddy_even [OF dj ev]
  from J(3) show "2 ^ Suc k dvd ?j" .
  have "i = ?j XOR push_bit k 1" using J(1) le by simp
  then show "i XOR push_bit k 1 = ?j" by (metis bit.xor_self xor.assoc xor.right_neutral xor_self_eq)
  then show "i AND (i XOR push_bit k 1) = ?j"
    using J(1,2) le by (simp add: and.commute)
qed

section \<open>The invariant\<close>

definition blk :: "nat \<Rightarrow> nat \<Rightarrow> nat set" where
  "blk p k = {p ..< p + 2 ^ k}"

definition zone_base :: "mm \<Rightarrow> nat \<Rightarrow> nat" where
  "zone_base s z = z_mem_map (zones s z)"

definition zone_span :: "mm \<Rightarrow> nat \<Rightarrow> nat" where
  "zone_span s z = unat (z_spanned (zones s z))"

definition zone_pages :: "mm \<Rightarrow> nat \<Rightarrow> nat set" where
  "zone_pages s z = {zone_base s z ..< zone_base s z + zone_span s z}"

text \<open>What \<open>page_is_buddy\<close> reads of a descriptor, apart from the order.\<close>

definition free_mark :: "page \<Rightarrow> bool" where
  "free_mark pg \<longleftrightarrow> PagePrivate pg \<and> \<not> PageReserved pg \<and> page_count pg = 0"

definition block_ok :: "mm \<Rightarrow> nat \<Rightarrow> nat \<Rightarrow> nat \<Rightarrow> bool" where
  "block_ok s z k p \<longleftrightarrow> zone_base s z \<le> p \<and> 2 ^ k dvd p - zone_base s z
     \<and> p + 2 ^ k \<le> zone_base s z + zone_span s z
     \<and> free_mark (mem_map s p) \<and> pg_private (mem_map s p) = of_nat k"

text \<open>
  \<open>fl z k\<close> is the free list of zone \<open>z\<close> and order \<open>k\<close>, as pages. \<open>Z\<close> is the set of zones that
  hold memory.
\<close>

type_synonym freelists = "nat \<Rightarrow> nat \<Rightarrow> nat list"

definition flI :: "nat set \<Rightarrow> (nat \<times> nat) set" where
  "flI Z = Z \<times> {..<MAX_ORDER}"

fun flH :: "nat \<times> nat \<Rightarrow> lnode" where
  "flH (z, k) = FreeHead z (int k)"

fun flL :: "freelists \<Rightarrow> nat \<times> nat \<Rightarrow> lnode list" where
  "flL fl (z, k) = map Lru (fl z k)"

definition set_fl :: "freelists \<Rightarrow> nat \<Rightarrow> nat \<Rightarrow> nat list \<Rightarrow> freelists" where
  "set_fl fl z k l = fl(z := (fl z)(k := l))"

definition zones_wf :: "mm \<Rightarrow> nat set \<Rightarrow> bool" where
  "zones_wf s Z \<longleftrightarrow> (\<forall>z\<in>Z. zone_table s z = Some z \<and> 1024 dvd zone_span s z
     \<and> (\<forall>p\<in>zone_pages s z. unat (drop_bit 28 (pg_flags (mem_map s p))) = z))"

definition buddy_page :: "mm \<Rightarrow> nat \<Rightarrow> nat \<Rightarrow> nat \<Rightarrow> nat" where
  "buddy_page s z k p = zone_base s z + ((p - zone_base s z) XOR push_bit k 1)"

definition free_set :: "freelists \<Rightarrow> nat \<Rightarrow> nat set" where
  "free_set fl z = (\<Union>k<MAX_ORDER. \<Union>p\<in>set (fl z k). blk p k)"

text \<open>The parts of the invariant, for one zone, and together; \<open>P\<close> is memory on its way back.\<close>

definition blocks_disjoint :: "freelists \<Rightarrow> nat \<Rightarrow> bool" where
  "blocks_disjoint fl z \<longleftrightarrow> (\<forall>k<MAX_ORDER. \<forall>j<MAX_ORDER. \<forall>p\<in>set (fl z k). \<forall>q\<in>set (fl z j).
     (k, p) \<noteq> (j, q) \<longrightarrow> blk p k \<inter> blk q j = {})"

definition marks_covered :: "mm \<Rightarrow> freelists \<Rightarrow> nat set \<Rightarrow> nat \<Rightarrow> bool" where
  "marks_covered s fl P z \<longleftrightarrow>
     (\<forall>p\<in>zone_pages s z. free_mark (mem_map s p) \<longrightarrow> p \<in> P \<or> p \<in> free_set fl z)"

definition coalesced :: "mm \<Rightarrow> freelists \<Rightarrow> nat \<Rightarrow> bool" where
  "coalesced s fl z \<longleftrightarrow>
     (\<forall>k<MAX_ORDER - 1. \<forall>p\<in>set (fl z k). buddy_page s z k p \<notin> set (fl z k))"

definition buddy_inv :: "mm \<Rightarrow> nat set \<Rightarrow> freelists \<Rightarrow> nat set \<Rightarrow> bool" where
  "buddy_inv s Z fl P \<longleftrightarrow> zones_wf s Z
     \<and> family ring (flI Z) flH (lists s) (flL fl)
     \<and> (\<forall>z\<in>Z. \<forall>k<MAX_ORDER. z_nr_free (zones s z) (int k) = of_nat (length (fl z k)))
     \<and> (\<forall>z\<in>Z. \<forall>k<MAX_ORDER. \<forall>p\<in>set (fl z k). block_ok s z k p)
     \<and> (\<forall>z\<in>Z. blocks_disjoint fl z \<and> marks_covered s fl P z \<and> coalesced s fl z)"

text \<open>
  The block the merging loop carries: block index \<open>i\<close>, order \<open>k\<close>, disjoint from free memory.
\<close>

definition pending :: "mm \<Rightarrow> freelists \<Rightarrow> nat \<Rightarrow> nat \<Rightarrow> nat \<Rightarrow> bool" where
  "pending s fl z i k \<longleftrightarrow> k < MAX_ORDER \<and> 2 ^ k dvd i \<and> i + 2 ^ k \<le> zone_span s z
     \<and> free_set fl z \<inter> blk (zone_base s z + i) k = {}
     \<and> \<not> PageReserved (mem_map s (zone_base s z + i))
     \<and> page_count (mem_map s (zone_base s z + i)) = 0"

lemmas buddy_defs = zone_base_def zone_span_def zone_pages_def free_mark_def block_ok_def

text \<open>What the words below the \<open>free_area\<close> arrays hold.\<close>

definition slots :: "mm \<Rightarrow> nat \<Rightarrow> lnode" where
  "slots s z = prev (lists s) (FreeHead z (- 1))"

lemma slot_not_in_family: "FreeHead z (- 1) \<notin> family_nodes (flI Z) flH (flL fl)"
  by (auto simp: family_nodes_def flI_def)

lemma set_fl_simps [simp]:
  "set_fl fl z k l z' k' = (if z' = z \<and> k' = k then l else fl z' k')"
  by (simp add: set_fl_def)

lemma flL_set_fl: "flL (set_fl fl z k l) = (flL fl)((z, k) := map Lru l)"
  by (auto simp: fun_eq_iff set_fl_def)

lemma mem_free_set:
  "p \<in> free_set fl z \<longleftrightarrow> (\<exists>k<MAX_ORDER. \<exists>h\<in>set (fl z k). p \<in> blk h k)"
  by (auto simp: free_set_def)

lemma blk_start [simp]: "p \<in> blk p k"
  by (simp add: blk_def)

lemma of_nat_order_inj:
  assumes "j < 11" "k < 11" "(of_nat j :: u32) = of_nat k"
  shows "j = k"
proof -
  have "unat (of_nat j :: u32) = j" "unat (of_nat k :: u32) = k"
    using assms(1,2) by (simp_all only: word32_of_nat_unat_id)
  with assms(3) show ?thesis by metis
qed

text \<open>Two aligned blocks are nested or disjoint.\<close>

lemma aligned_block_of:
  assumes "2 ^ k dvd (h :: nat)" "h \<le> x" "x < h + 2 ^ k"
  shows "h = 2 ^ k * (x div 2 ^ k)"
proof -
  from assms(1) obtain c where h: "h = 2 ^ k * c" by blast
  with assms(2,3) have "x div 2 ^ k = c"
    by (intro div_nat_eqI) (auto simp: algebra_simps)
  with h show ?thesis by simp
qed

lemma blk_aligned_meet:
  assumes "2 ^ k dvd (h :: nat)" "2 ^ k dvd g" "b + h \<in> blk (b + g) k"
  shows "h = g"
proof -
  have "g = 2 ^ k * (h div 2 ^ k)"
    using assms(2,3) by (intro aligned_block_of) (auto simp: blk_def)
  with assms(1) show ?thesis by simp
qed

lemma blk_bound: "blk p k \<subseteq> {..<n} \<Longrightarrow> p + 2 ^ k \<le> n"
proof -
  assume "blk p k \<subseteq> {..<n}"
  moreover have "0 < (2 :: nat) ^ k" by simp
  then have "p + 2 ^ k - 1 \<in> blk p k" unfolding blk_def atLeastLessThan_iff by linarith
  ultimately have "p + 2 ^ k - 1 < n" by blast
  with \<open>0 < 2 ^ k\<close> show "p + 2 ^ k \<le> n" by linarith
qed

lemma blk_upper:
  assumes "2 ^ Suc k dvd i"
  shows "blk (b + i) (Suc k) = blk (b + i) k \<union> blk (b + (i + 2 ^ k)) k"
  by (auto simp: blk_def)

text \<open>Facts about the buddy of a pending block, in both positions.\<close>

lemma buddy_cases:
  assumes "2 ^ k dvd (i :: nat)"
  defines "i' \<equiv> i XOR push_bit k 1"
  shows "2 ^ k dvd i'" "i' \<noteq> i" "2 ^ Suc k dvd i AND i'" "i AND i' = i \<or> i AND i' = i'"
    "blk (b + (i AND i')) (Suc k) = blk (b + i) k \<union> blk (b + i') k"
    "blk (b + i) k \<inter> blk (b + i') k = {}"
    "i' XOR push_bit k 1 = i"
proof -
  show "i' XOR push_bit k 1 = i" by (simp add: i'_def xor.assoc)
  have "2 ^ k dvd i' \<and> i' \<noteq> i \<and> 2 ^ Suc k dvd i AND i' \<and> (i AND i' = i \<or> i AND i' = i')
    \<and> blk (b + (i AND i')) (Suc k) = blk (b + i) k \<union> blk (b + i') k
    \<and> blk (b + i) k \<inter> blk (b + i') k = {}"
  proof (cases "even (i div 2 ^ k)")
    case True
    note e = buddy_even [OF assms(1) True, folded i'_def]
    from e assms(1) blk_upper [OF e(3), of b] show ?thesis by (auto simp: blk_def)
  next
    case False
    note o = buddy_odd [OF assms(1) False, folded i'_def]
    have "2 ^ k dvd i'" using o(1) assms(1) by (simp add: dvd_diff_nat)
    with o blk_upper [OF o(3), of b] show ?thesis by (auto simp: blk_def)
  qed
  then show "2 ^ k dvd i'" "i' \<noteq> i" "2 ^ Suc k dvd i AND i'" "i AND i' = i \<or> i AND i' = i'"
    "blk (b + (i AND i')) (Suc k) = blk (b + i) k \<union> blk (b + i') k"
    "blk (b + i) k \<inter> blk (b + i') k = {}" by blast+
qed

text \<open>The buddy of a pending block is inside the zone as a whole or not at all.\<close>

lemma buddy_in_span:
  assumes "2 ^ k dvd i" "k < 10" "1024 dvd n" "i + 2 ^ k \<le> n" "i XOR push_bit k 1 \<le> (n :: nat)"
  shows "(i XOR push_bit k 1) + 2 ^ k \<le> n"
proof (cases "even (i div 2 ^ k)")
  case True
  note e = buddy_even [OF assms(1) True]
  have "(2 :: nat) ^ Suc k dvd 2 ^ 10" by (rule le_imp_power_dvd) (use assms(2) in simp)
  then have "2 ^ Suc k dvd n" by (rule dvd_trans) (use assms(3) in simp)
  with e(3) obtain a c where a: "i = 2 ^ Suc k * a" "n = 2 ^ Suc k * c" by blast
  have "a < c"
  proof (rule ccontr)
    assume "\<not> a < c"
    then have "n \<le> i" unfolding a by (intro mult_le_mono) auto
    with assms(4) show False using zero_less_power [of "2 :: nat" k] by linarith
  qed
  then have "2 ^ Suc k * Suc a \<le> n" unfolding a(2) by (intro mult_le_mono) auto
  then show ?thesis using e(1) a(1) by simp
next
  case False
  with buddy_odd [OF assms(1) False] assms(4) show ?thesis by simp
qed

lemma aligned_nested:
  assumes "A dvd (m :: nat)" "A dvd g" "A dvd L" "m \<le> x" "x < m + A" "g \<le> x" "x < g + L"
  shows "g \<le> m \<and> m + A \<le> g + L"
proof -
  obtain p q r where e: "m = A * p" "g = A * q" "L = A * r" using assms(1-3) by blast
  have "A * q < A * Suc p" using e assms(5,6) by simp
  then have "q < Suc p" by (simp only: mult_less_cancel1)
  then have "q \<le> p" by simp
  moreover have "A * p < A * (q + r)" using e assms(4,7) by (simp add: add_mult_distrib2)
  then have "Suc p \<le> q + r" by simp
  then have "A * Suc p \<le> A * (q + r)" by (rule mult_le_mono2)
  ultimately show ?thesis using e by (simp add: add_mult_distrib2)
qed

section \<open>Merging\<close>

lemmas buddy_invD = buddy_inv_def [THEN iffD1]

lemma buddy_inv_block_ok:
  "buddy_inv s Z fl P \<Longrightarrow> z \<in> Z \<Longrightarrow> k < MAX_ORDER \<Longrightarrow> p \<in> set (fl z k) \<Longrightarrow> block_ok s z k p"
  unfolding buddy_inv_def by blast

lemma buddy_inv_family:
  "buddy_inv s Z fl P \<Longrightarrow> family ring (flI Z) flH (lists s) (flL fl)"
  unfolding buddy_inv_def by blast

text \<open>
  When the code takes a descriptor for a free buddy of order \<open>k\<close>, it heads a block of the free
  list of order \<open>k\<close>.
\<close>

lemma buddy_found:
  assumes inv: "buddy_inv s Z fl (blk (zone_base s z + i) k)" and z: "z \<in> Z"
    and pen: "pending s fl z i k" and k: "k < MAX_ORDER - 1"
    and here: "\<not> not_in_zone z (zone_base s z + (i XOR push_bit k 1)) s"
    and is_b: "page_is_buddy (zone_base s z + (i XOR push_bit k 1)) k s"
  shows "zone_base s z + (i XOR push_bit k 1) \<in> set (fl z k)"
proof -
  define i' where "i' = i XOR push_bit k 1"
  let ?b = "zone_base s z" and ?n = "zone_span s z"
  from pen have al: "2 ^ k dvd i" and fit: "i + 2 ^ k \<le> ?n"
    and dis: "free_set fl z \<inter> blk (?b + i) k = {}" by (auto simp: pending_def)
  note bc = buddy_cases [OF al, folded i'_def]
  have wf: "zones_wf s Z" and mc: "marks_covered s fl (blk (?b + i) k) z"
    using inv z by (auto simp: buddy_inv_def)
  have "i' + 2 ^ k \<le> ?n" unfolding i'_def
    by (rule buddy_in_span [OF al _ _ fit])
       (use k here wf z in \<open>auto simp: not_in_zone_def zones_wf_def buddy_defs\<close>)
  then have "i' < ?n" by (rule less_le_trans [rotated]) simp
  then have "?b + i' \<in> zone_pages s z" by (simp add: zone_pages_def)
  moreover have "free_mark (mem_map s (?b + i'))"
    using is_b by (simp add: page_is_buddy_def free_mark_def i'_def)
  moreover have "?b + i' \<notin> blk (?b + i) k" using bc(6) [of ?b] blk_start by blast
  ultimately have "?b + i' \<in> free_set fl z" using mc by (auto simp: marks_covered_def)
  then obtain j h where j: "j < MAX_ORDER" "h \<in> set (fl z j)" "?b + i' \<in> blk h j"
    by (auto simp: mem_free_set)
  have ok: "block_ok s z j h" by (rule buddy_inv_block_ok [OF inv z j(1,2)])
  define g where "g = h - ?b"
  have h: "h = ?b + g" and g: "2 ^ j dvd g" using ok by (auto simp: block_ok_def g_def)
  show ?thesis
  proof (cases "j \<le> k")
    case True
    have "2 ^ j dvd i'" by (rule dvd_trans [OF le_imp_power_dvd [OF True] bc(1)])
    then have "i' = g" using g j(3) unfolding h by (intro blk_aligned_meet)
    moreover from this have "(of_nat j :: u32) = of_nat k"
      using ok is_b h by (simp add: block_ok_def page_is_buddy_def page_order_def i'_def)
    then have "j = k" using j(1) k by (intro of_nat_order_inj) auto
    ultimately show ?thesis using j(2) h by (simp add: i'_def)
  next
    case False
    let ?m = "i AND i'"
    have m: "?b + i \<in> blk (?b + ?m) (Suc k)" "?b + i' \<in> blk (?b + ?m) (Suc k)"
      using bc(5) [of ?b] blk_start by blast+
    have "2 ^ Suc k dvd (2 ^ j :: nat)" using False by (intro le_imp_power_dvd) simp
    then have "g \<le> ?m \<and> ?m + 2 ^ Suc k \<le> g + 2 ^ j"
      using m(2) j(3) h g bc(3) dvd_trans by (intro aligned_nested [of _ _ _ _ i']) (auto simp: blk_def)
    with m(1) have "?b + i \<in> blk h j" by (auto simp: blk_def h)
    with j have "?b + i \<in> free_set fl z" by (auto simp: mem_free_set)
    with dis show ?thesis using blk_start by blast
  qed
qed

lemma free_list_distinct:
  assumes "buddy_inv s Z fl P" "z \<in> Z" "k < MAX_ORDER"
  shows "distinct (fl z k)"
  using rings.family_distinct [OF buddy_inv_family [OF assms(1)], of "(z, k)"] assms(2,3)
  by (simp add: flI_def distinct_map)

lemma free_set_remove:
  assumes "blocks_disjoint fl z" "distinct (fl z k)" "k < MAX_ORDER" "b \<in> set (fl z k)"
  defines "fl' \<equiv> set_fl fl z k (remove1 b (fl z k))"
  shows "free_set fl' z \<union> blk b k = free_set fl z" "free_set fl' z \<inter> blk b k = {}"
proof -
  have m: "p \<in> free_set fl' z \<longleftrightarrow>
      (\<exists>j<MAX_ORDER. \<exists>h\<in>set (fl z j). (j, h) \<noteq> (k, b) \<and> p \<in> blk h j)" for p
    using assms(2) by (auto simp: mem_free_set fl'_def)
  show "free_set fl' z \<union> blk b k = free_set fl z"
  proof (rule set_eqI)
    fix p
    show "p \<in> free_set fl' z \<union> blk b k \<longleftrightarrow> p \<in> free_set fl z"
      unfolding Un_iff m mem_free_set [of p fl] using assms(3,4) by auto
  qed
  have "p \<notin> blk b k" if p: "p \<in> free_set fl' z" for p
  proof -
    obtain j h where j: "j < MAX_ORDER" "h \<in> set (fl z j)" "(j, h) \<noteq> (k, b)" "p \<in> blk h j"
      using p m by blast
    then have "blk h j \<inter> blk b k = {}" using assms(1,3,4) unfolding blocks_disjoint_def by blast
    with j(4) show ?thesis by blast
  qed
  then show "free_set fl' z \<inter> blk b k = {}" by blast
qed

lemma buddy_merge_step:
  assumes inv: "buddy_inv s Z fl (blk (zone_base s z + i) k)" and z: "z \<in> Z"
    and pen: "pending s fl z i k" and k: "k < MAX_ORDER - 1"
  defines "i' \<equiv> i XOR push_bit k 1"
  defines "b \<equiv> zone_base s z + i'"
  defines "s' \<equiv> upd_nr_free z (int k) (\<lambda>n. n - 1) (on_lists (list_del (Lru b)) s)"
  defines "fl' \<equiv> set_fl fl z k (remove1 b (fl z k))"
  assumes mem: "b \<in> set (fl z k)"
  shows "buddy_inv s' Z fl' (blk (zone_base s' z + (i AND i')) (Suc k))"
    and "pending s' fl' z (i AND i') (Suc k)"
    and "free_set fl' z \<union> blk (zone_base s z + (i AND i')) (Suc k)
      = free_set fl z \<union> blk (zone_base s z + i) k"
    and "slots s' = slots s"
proof -
  show "slots s' = slots s"
  proof
    fix x
    have "prev (list_del (Lru b) (lists s)) (FreeHead x (- 1)) = prev (lists s) (FreeHead x (- 1))"
      by (rule family_del_frame [OF buddy_inv_family [OF inv] _ _ slot_not_in_family, of "(z, k)"])
        (use z k mem in \<open>auto simp: flI_def\<close>)
    then show "slots s' x = slots s x" by (simp add: s'_def slots_def)
  qed
  from pen have al: "2 ^ k dvd i" and fit: "i + 2 ^ k \<le> zone_span s z"
    and dis: "free_set fl z \<inter> blk (zone_base s z + i) k = {}" by (auto simp: pending_def)
  have k': "k < MAX_ORDER" using k by simp
  note bc = buddy_cases [OF al, folded i'_def]
  note un = bc(5) [of "zone_base s z", folded b_def]
  have base: "zone_base s' x = zone_base s x" "zone_span s' x = zone_span s x"
    "zone_pages s' x = zone_pages s x" "mem_map s' = mem_map s" "zone_table s' = zone_table s" for x
    by (simp_all add: s'_def zone_base_def zone_span_def zone_pages_def)
  note d = free_list_distinct [OF inv z k']
  have bd: "blocks_disjoint fl z" using inv z by (simp add: buddy_inv_def)
  note fs = free_set_remove [OF bd d k' mem, folded fl'_def]
  have sub: "set (fl' x j) \<subseteq> set (fl x j)" for x j
    by (auto simp: fl'_def dest: set_remove1_subset [THEN subsetD])
  have ok: "block_ok s z k b" by (rule buddy_inv_block_ok [OF inv z k' mem])
  have "family ring (flI Z) flH (lists s') ((flL fl)((z, k) := remove1 (Lru b) (flL fl (z, k))))"
    using rings.family_unlink [OF buddy_inv_family [OF inv], of "(z, k)" "Lru b"] z k' mem
    by (simp add: flI_def s'_def)
  moreover have "remove1 (Lru b) (flL fl (z, k)) = map Lru (remove1 b (fl z k))"
    by (simp add: map_remove1_inj inj_def)
  ultimately have fam: "family ring (flI Z) flH (lists s') (flL fl')"
    by (simp add: fl'_def flL_set_fl)
  have "marks_covered s' fl' (blk (zone_base s' z + (i AND i')) (Suc k)) x" if "x \<in> Z" for x
  proof (cases "x = z")
    case True
    have "marks_covered s fl (blk (zone_base s z + i) k) z" using inv z by (simp add: buddy_inv_def)
    with True un fs(1) show ?thesis by (auto simp: marks_covered_def base)
  next
    case False
    from inv that have "marks_covered s fl (blk (zone_base s z + i) k) x" by (simp add: buddy_inv_def)
    moreover have "free_set fl' x = free_set fl x" using False by (simp add: free_set_def fl'_def)
    ultimately show ?thesis using un by (auto simp: marks_covered_def base)
  qed
  moreover have "z_nr_free (zones s' x) (int j) = of_nat (length (fl' x j))"
    if "x \<in> Z" "j < MAX_ORDER" for x j
  proof (cases "x = z \<and> j = k")
    case True
    have "length (fl z k) = Suc (length (fl' z k))"
      using mem by (simp add: fl'_def length_remove1) (metis Suc_pred length_pos_if_in_set)
    moreover have "z_nr_free (zones s z) (int k) = of_nat (length (fl z k))"
      using inv z k' unfolding buddy_inv_def by blast
    ultimately show ?thesis using True by (simp add: s'_def)
  next
    case False
    moreover have "z_nr_free (zones s x) (int j) = of_nat (length (fl x j))"
      using inv that unfolding buddy_inv_def by blast
    ultimately show ?thesis by (auto simp: s'_def fl'_def)
  qed
  moreover have "blocks_disjoint fl' x \<and> coalesced s' fl' x" if "x \<in> Z" for x
    using inv that sub unfolding buddy_inv_def blocks_disjoint_def coalesced_def buddy_page_def base
    by (meson subsetD)
  moreover have "block_ok s' x j p" if "x \<in> Z" "j < MAX_ORDER" "p \<in> set (fl' x j)" for x j p
    using buddy_inv_block_ok [OF inv that(1,2)] sub that(3) by (auto simp: block_ok_def base)
  moreover have "zones_wf s' Z" using inv by (simp add: buddy_inv_def zones_wf_def base)
  ultimately show "buddy_inv s' Z fl' (blk (zone_base s' z + (i AND i')) (Suc k))"
    using fam by (simp add: buddy_inv_def)
  show "free_set fl' z \<union> blk (zone_base s z + (i AND i')) (Suc k)
      = free_set fl z \<union> blk (zone_base s z + i) k"
    using un fs(1) by blast
  have "blk (zone_base s z + (i AND i')) (Suc k) \<subseteq> {..<zone_base s z + zone_span s z}"
    using fit ok un by (auto simp: blk_def b_def block_ok_def)
  then have "zone_base s z + (i AND i') + 2 ^ Suc k \<le> zone_base s z + zone_span s z"
    by (rule blk_bound)
  then have "(i AND i') + 2 ^ Suc k \<le> zone_span s z" by linarith
  moreover have "\<not> PageReserved (mem_map s (zone_base s z + (i AND i')))
      \<and> page_count (mem_map s (zone_base s z + (i AND i'))) = 0"
    using bc(4) pen ok by (auto simp: pending_def block_ok_def free_mark_def b_def)
  ultimately show "pending s' fl' z (i AND i') (Suc k)"
    using k bc(3) un fs(1,2) dis by (auto simp: pending_def base)
qed

text \<open>
  The loop stops with a pending block whose buddy is not free, having moved whole blocks from
  the free lists into it.
\<close>

lemma free_pages_loop_inv:
  assumes "buddy_inv s Z fl (blk (zone_base s z + i) k)" and "z \<in> Z" and "pending s fl z i k"
    and "free_pages_loop z i k s = (i1, k1, s1)"
  shows "\<exists>fl1. buddy_inv s1 Z fl1 (blk (zone_base s1 z + i1) k1) \<and> pending s1 fl1 z i1 k1
     \<and> (k1 < MAX_ORDER - 1 \<longrightarrow> zone_base s1 z + (i1 XOR push_bit k1 1) \<notin> set (fl1 z k1))
     \<and> free_set fl1 z \<union> blk (zone_base s1 z + i1) k1 = free_set fl z \<union> blk (zone_base s z + i) k
     \<and> (\<forall>x. x \<noteq> z \<longrightarrow> fl1 x = fl x)
     \<and> mem_map s1 = mem_map s \<and> (\<forall>x. zone_base s1 x = zone_base s x \<and> zone_span s1 x = zone_span s x)
     \<and> zone_table s1 = zone_table s \<and> slots s1 = slots s"
  using assms
proof (induction z i k s arbitrary: fl rule: free_pages_loop.induct)
  case (1 z i k s)
  define i' where "i' = i XOR push_bit k 1"
  define b where "b = zone_base s z + i'"
  note inv = "1.prems"(1) and z = "1.prems"(2) and pen = "1.prems"(3)
  have bz: "z_mem_map (zones s z) + i' = b" by (simp add: b_def zone_base_def)
  show ?case
  proof (cases "k < MAX_ORDER - 1 \<and> \<not> not_in_zone z b s \<and> page_is_buddy b k s")
    case False
    then have r: "(i1, k1, s1) = (i, k, s)"
      using "1.prems"(4) bz by (subst (asm) free_pages_loop.simps) (auto simp: Let_def i'_def split: if_splits)
    have nf: "b \<notin> set (fl z k)" if "k < MAX_ORDER - 1"
    proof
      assume m: "b \<in> set (fl z k)"
      have "block_ok s z k b" by (rule buddy_inv_block_ok [OF inv z _ m]) (use that in simp)
      moreover have "0 < (2 :: nat) ^ k" by simp
      ultimately have "\<not> not_in_zone z b s \<and> page_is_buddy b k s"
        unfolding block_ok_def not_in_zone_def page_is_buddy_def free_mark_def page_order_def
          zone_base_def zone_span_def by auto
      with False that show False by blast
    qed
    show ?thesis using r inv pen nf by (intro exI [of _ fl]) (auto simp: b_def i'_def)
  next
    case True
    then have k: "k < MAX_ORDER - 1" and here: "\<not> not_in_zone z b s" and isb: "page_is_buddy b k s"
      by auto
    define s' where "s' = upd_nr_free z (int k) (\<lambda>n. n - 1) (on_lists (list_del (Lru b)) s)"
    have "b \<in> set (fl z k)"
      using buddy_found [OF inv z pen k] here isb by (simp add: b_def i'_def)
    note ms = buddy_merge_step [OF inv z pen k, folded i'_def, folded b_def, folded s'_def, OF this]
    have "free_pages_loop z (i AND i') (Suc k) s' = (i1, k1, s1)"
      using "1.prems"(4) k here isb bz
      by (subst (asm) free_pages_loop.simps) (simp add: Let_def i'_def s'_def)
    moreover have base: "zone_base s' x = zone_base s x" "zone_span s' x = zone_span s x"
      "mem_map s' = mem_map s" "zone_table s' = zone_table s" for x
      by (simp_all add: s'_def zone_base_def zone_span_def)
    moreover have ih: "\<And>fl. buddy_inv s' Z fl (blk (zone_base s' z + (i AND i')) (Suc k)) \<Longrightarrow> z \<in> Z \<Longrightarrow>
        pending s' fl z (i AND i') (Suc k) \<Longrightarrow>
        free_pages_loop z (i AND i') (Suc k) s' = (i1, k1, s1) \<Longrightarrow>
        \<exists>fl1. buddy_inv s1 Z fl1 (blk (zone_base s1 z + i1) k1) \<and> pending s1 fl1 z i1 k1
        \<and> (k1 < MAX_ORDER - 1 \<longrightarrow> zone_base s1 z + (i1 XOR push_bit k1 1) \<notin> set (fl1 z k1))
        \<and> free_set fl1 z \<union> blk (zone_base s1 z + i1) k1
           = free_set fl z \<union> blk (zone_base s' z + (i AND i')) (Suc k)
        \<and> (\<forall>x. x \<noteq> z \<longrightarrow> fl1 x = fl x)
        \<and> mem_map s1 = mem_map s' \<and> (\<forall>x. zone_base s1 x = zone_base s' x \<and> zone_span s1 x = zone_span s' x)
        \<and> zone_table s1 = zone_table s' \<and> slots s1 = slots s'"
      using "1.IH" [of i' b "on_lists (list_del (Lru b)) s" s'] k here isb bz
      by (simp add: i'_def s'_def)
    ultimately obtain fl1 where f: "buddy_inv s1 Z fl1 (blk (zone_base s1 z + i1) k1)"
        "pending s1 fl1 z i1 k1"
        "k1 < MAX_ORDER - 1 \<longrightarrow> zone_base s1 z + (i1 XOR push_bit k1 1) \<notin> set (fl1 z k1)"
        "free_set fl1 z \<union> blk (zone_base s1 z + i1) k1
           = free_set (set_fl fl z k (remove1 b (fl z k))) z \<union> blk (zone_base s' z + (i AND i')) (Suc k)"
        "\<forall>x. x \<noteq> z \<longrightarrow> fl1 x = set_fl fl z k (remove1 b (fl z k)) x"
        "mem_map s1 = mem_map s'" "\<forall>x. zone_base s1 x = zone_base s' x \<and> zone_span s1 x = zone_span s' x"
        "zone_table s1 = zone_table s'" "slots s1 = slots s'"
      using ih [OF ms(1) z ms(2)] by blast
    show ?thesis using f ms(3,4) base
      by (intro exI [of _ fl1]) (auto simp: set_fl_def)
  qed
qed

section \<open>Putting the merged block on its list\<close>

lemma drop_bits_bts: "n < m \<Longrightarrow> drop_bit m (bts n w) = drop_bit m (w :: u32)"
  by (rule bit_eqI) (auto simp: bts_def bit_simps)

lemma pending_not_listed:
  assumes "pending s fl z i k" "j < MAX_ORDER"
  shows "zone_base s z + i \<notin> set (fl z j)"
proof
  assume "zone_base s z + i \<in> set (fl z j)"
  then have "zone_base s z + i \<in> free_set fl z"
    unfolding mem_free_set using assms(2) blk_start by blast
  with assms(1) show False using blk_start unfolding pending_def by blast
qed

lemma zone_pages_disjoint:
  "zones_wf s Z \<Longrightarrow> z \<in> Z \<Longrightarrow> x \<in> Z \<Longrightarrow> x \<noteq> z \<Longrightarrow> zone_pages s z \<inter> zone_pages s x = {}"
  unfolding zones_wf_def by (metis disjoint_iff)

lemma listed_block_subset: "k < MAX_ORDER \<Longrightarrow> p \<in> set (fl z k) \<Longrightarrow> blk p k \<subseteq> free_set fl z"
  unfolding free_set_def by blast

lemma block_in_zone: "block_ok s z k p \<Longrightarrow> blk p k \<subseteq> zone_pages s z"
  by (auto simp: block_ok_def blk_def zone_pages_def)

lemma free_insert:
  assumes inv: "buddy_inv s Z fl (blk (zone_base s z + i) k)" and z: "z \<in> Z"
    and pen: "pending s fl z i k"
    and stop: "k < MAX_ORDER - 1 \<longrightarrow> zone_base s z + (i XOR push_bit k 1) \<notin> set (fl z k)"
  defines "c \<equiv> zone_base s z + i"
  defines "s' \<equiv> upd_nr_free z (int k) (\<lambda>n. n + 1)
      (on_lists (list_add (FreeHead z (int k)) (Lru c)) (set_page_order c (of_nat k) s))"
  defines "fl' \<equiv> set_fl fl z k (c # fl z k)"
  shows "buddy_inv s' Z fl' {}" and "free_set fl' z = free_set fl z \<union> blk c k" and "slots s' = slots s"
proof -
  have k: "k < MAX_ORDER" and al: "2 ^ k dvd i" and fit: "i + 2 ^ k \<le> zone_span s z"
    and dis: "free_set fl z \<inter> blk c k = {}" using pen by (auto simp: pending_def c_def)
  have base: "zone_base s' x = zone_base s x" "zone_span s' x = zone_span s x"
    "zone_pages s' x = zone_pages s x" "zone_table s' = zone_table s" for x
    by (simp_all add: s'_def set_page_order_def zone_base_def zone_span_def zone_pages_def)
  have mm: "mem_map s' = (mem_map s)(c := SetPagePrivate ((mem_map s c)\<lparr>pg_private := of_nat k\<rparr>))"
    by (simp add: s'_def set_page_order_def)
  have cz: "blk c k \<subseteq> zone_pages s z" using fit by (auto simp: blk_def zone_pages_def c_def)
  have wf: "zones_wf s Z" using inv by (simp add: buddy_inv_def)
  have notin: "c \<notin> set (fl x j)" if "x \<in> Z" "j < MAX_ORDER" for x j
  proof (cases "x = z")
    case True
    with pending_not_listed [OF pen that(2)] show ?thesis by (simp add: c_def)
  next
    case False
    show ?thesis
    proof
      assume "c \<in> set (fl x j)"
      then have "c \<in> zone_pages s x"
        using block_in_zone [OF buddy_inv_block_ok [OF inv that]] blk_start by blast
      with zone_pages_disjoint [OF wf z that(1) False] cz blk_start show False by blast
    qed
  qed
  have "Lru c \<notin> family_nodes (flI Z) flH (flL fl)"
    using notin by (auto simp: family_nodes_def flI_def)
  from rings.family_put [OF buddy_inv_family [OF inv] _ this, of "(z, k)"] z k
  have fam: "family ring (flI Z) flH (lists s') (flL fl')"
    by (simp add: flI_def s'_def set_page_order_def fl'_def flL_set_fl)
  show "slots s' = slots s"
  proof
    fix x
    have i: "(z, k) \<in> flI Z" using z k by (simp add: flI_def)
    have "prev (list_add (FreeHead z (int k)) (Lru c) (lists s)) (FreeHead x (- 1))
        = prev (lists s) (FreeHead x (- 1))"
      using family_add_frame(2) [OF buddy_inv_family [OF inv] i slot_not_in_family, of x "Lru c"] by simp
    then show "slots s' x = slots s x" by (simp add: s'_def slots_def set_page_order_def)
  qed
  show fs: "free_set fl' z = free_set fl z \<union> blk c k"
    using k by (auto simp: set_eq_iff mem_free_set fl'_def)
  have mk: "free_mark (mem_map s' c)" and pr: "pg_private (mem_map s' c) = of_nat k"
    and nib: "drop_bit 28 (pg_flags (mem_map s' c)) = drop_bit 28 (pg_flags (mem_map s c))"
    using pen by (simp_all add: mm free_mark_def flag_defs page_count_def pending_def c_def drop_bits_bts)
  have "zones_wf s' Z" using wf nib by (auto simp: zones_wf_def base mm)
  moreover have "z_nr_free (zones s' x) (int j) = of_nat (length (fl' x j))"
    if "x \<in> Z" "j < MAX_ORDER" for x j
    using inv that unfolding buddy_inv_def by (auto simp: s'_def set_page_order_def fl'_def)
  moreover have "block_ok s' x j p" if "x \<in> Z" "j < MAX_ORDER" "p \<in> set (fl' x j)" for x j p
  proof (cases "p = c")
    case True
    with notin [OF that(1,2)] that(3) have "x = z \<and> j = k" by (auto simp: fl'_def split: if_splits)
    with True mk pr al fit show ?thesis by (simp add: block_ok_def base c_def)
  next
    case False
    with that(3) have "p \<in> set (fl x j)" by (auto simp: fl'_def split: if_splits)
    from buddy_inv_block_ok [OF inv that(1,2) this] False show ?thesis
      by (simp add: block_ok_def base mm)
  qed
  moreover have "blocks_disjoint fl' x" if "x \<in> Z" for x
  proof -
    have old: "blocks_disjoint fl x" using inv that by (simp add: buddy_inv_def)
    have new: "blk p j \<inter> blk c k = {}" if "j < MAX_ORDER" "p \<in> set (fl z j)" for p j
      using dis listed_block_subset [of j p fl z] that by blast
    have new': "blk c k \<inter> blk p j = {}" if "j < MAX_ORDER" "p \<in> set (fl z j)" for p j
      using new [OF that] by blast
    have mem: "p \<in> set (fl x j) \<or> x = z \<and> j = k \<and> p = c" if "p \<in> set (fl' x j)" for p j
      using that unfolding fl'_def set_fl_simps by (auto split: if_splits)
    show ?thesis unfolding blocks_disjoint_def
    proof (intro allI ballI impI)
      fix j j' p q
      assume "j < MAX_ORDER" "j' < MAX_ORDER" "p \<in> set (fl' x j)" "q \<in> set (fl' x j')" "(j, p) \<noteq> (j', q)"
      then show "blk p j \<inter> blk q j' = {}"
        using mem [of p j] mem [of q j'] new [of j p] new' [of j' q] old
        unfolding blocks_disjoint_def by blast
    qed
  qed
  moreover have "marks_covered s' fl' {} x" if "x \<in> Z" for x
  proof -
    have old: "marks_covered s fl (blk c k) x" using inv that by (simp add: buddy_inv_def c_def)
    show ?thesis
    proof (cases "x = z")
      case True
      with old fs show ?thesis using blk_start [of c k] by (auto simp: marks_covered_def base mm split: if_splits)
    next
      case False
      have e: "blk c k \<inter> zone_pages s x = {}" using zone_pages_disjoint [OF wf z that False] cz by blast
      then have "c \<notin> zone_pages s x" using blk_start by blast
      moreover have "free_set fl' x = free_set fl x" using False by (simp add: free_set_def fl'_def)
      ultimately show ?thesis using old e unfolding marks_covered_def base mm by auto
    qed
  qed
  moreover have "coalesced s' fl' x" if "x \<in> Z" for x
  proof -
    have old: "coalesced s fl x" using inv that by (simp add: buddy_inv_def)
    show ?thesis
    proof (cases "x = z")
      case False
      with old show ?thesis by (auto simp: coalesced_def buddy_page_def base fl'_def)
    next
      case True
      have bc: "buddy_page s z k c = zone_base s z + (i XOR push_bit k 1)"
        by (simp add: buddy_page_def c_def)
      have ne: "buddy_page s z k c \<noteq> c" using buddy_cases(2) [OF al] unfolding bc unfolding c_def by simp
      have inj: "buddy_page s z k p \<noteq> c" if "p \<in> set (fl z k)" "k < MAX_ORDER - 1" for p
      proof
        assume e: "buddy_page s z k p = c"
        have ok: "block_ok s z k p" by (rule buddy_inv_block_ok [OF inv z k that(1)])
        then have a: "2 ^ k dvd p - zone_base s z" "zone_base s z \<le> p" by (auto simp: block_ok_def)
        from e have "i = (p - zone_base s z) XOR push_bit k 1" by (simp add: buddy_page_def c_def)
        then have "i XOR push_bit k 1 = p - zone_base s z" using buddy_cases(7) [OF a(1)] by simp
        with a(2) have "zone_base s z + (i XOR push_bit k 1) = p" by simp
        with stop that show False by simp
      qed
      show ?thesis using old True stop ne inj bc
        unfolding coalesced_def fl'_def set_fl_simps buddy_page_def base by (auto split: if_splits)
    qed
  qed
  ultimately show "buddy_inv s' Z fl' {}" using fam by (simp add: buddy_inv_def)
qed

section \<open>Freeing a block\<close>

text \<open>Only the block returned may carry a free mark outside the lists.\<close>

lemma buddy_inv_mono: "buddy_inv s Z fl P \<Longrightarrow> P \<subseteq> Q \<Longrightarrow> buddy_inv s Z fl Q"
  unfolding buddy_inv_def marks_covered_def by blast

text \<open>
  \<open>returnable s fl z pg k\<close>: what a caller of \<open>__free_pages\<close> owes. The block is an aligned block of
  the zone, no part of it is free, and its first descriptor is neither reserved nor counted.
\<close>

definition returnable :: "mm \<Rightarrow> freelists \<Rightarrow> nat \<Rightarrow> nat \<Rightarrow> nat \<Rightarrow> bool" where
  "returnable s fl z pg k \<longleftrightarrow> k < MAX_ORDER \<and> zone_base s z \<le> pg \<and> 2 ^ k dvd pg - zone_base s z
     \<and> pg + 2 ^ k \<le> zone_base s z + zone_span s z \<and> blk pg k \<inter> free_set fl z = {}
     \<and> \<not> PageReserved (mem_map s pg) \<and> page_count (mem_map s pg) = 0"

lemma returnable_page_zone:
  assumes "zones_wf s Z" "z \<in> Z" "returnable s fl z pg k"
  shows "page_zone pg s = Some z"
proof -
  have "(0 :: nat) < 2 ^ k" by simp
  then have "pg \<in> zone_pages s z"
    using assms(3) unfolding returnable_def zone_pages_def atLeastLessThan_iff by linarith
  with assms(1,2) show ?thesis by (simp add: zones_wf_def page_zone_def)
qed

lemma free_pages_inv:
  assumes inv: "buddy_inv s Z fl {}" and z: "z \<in> Z" and r: "returnable s fl z pg k"
  shows "\<exists>s' fl'. free_pages pg k s = Some s' \<and> buddy_inv s' Z fl' {}
     \<and> free_set fl' z = free_set fl z \<union> blk pg k \<and> (\<forall>x. x \<noteq> z \<longrightarrow> fl' x = fl x)
     \<and> (\<forall>x. zone_base s' x = zone_base s x \<and> zone_span s' x = zone_span s x)
     \<and> zone_table s' = zone_table s \<and> slots s' = slots s
     \<and> (\<forall>p. pg_count (mem_map s' p) = pg_count (mem_map s p)
          \<and> PageReserved (mem_map s' p) = PageReserved (mem_map s p)
          \<and> drop_bit 28 (pg_flags (mem_map s' p)) = drop_bit 28 (pg_flags (mem_map s p)))
     \<and> (\<forall>p. p \<notin> free_set fl z \<union> blk pg k \<longrightarrow> mem_map s' p = mem_map s p)"
proof -
  define i where "i = pg - zone_base s z"
  have pg: "zone_base s z + i = pg" using r by (simp add: i_def returnable_def)
  have inv': "buddy_inv s Z fl (blk (zone_base s z + i) k)"
    by (rule buddy_inv_mono [OF inv]) simp
  have pen: "pending s fl z i k"
    using r pg by (auto simp: pending_def returnable_def i_def)
  obtain i1 k1 s1 where l: "free_pages_loop z i k s = (i1, k1, s1)" by (metis prod_cases3)
  from free_pages_loop_inv [OF inv' z pen l] obtain fl1 where
    f: "buddy_inv s1 Z fl1 (blk (zone_base s1 z + i1) k1)" "pending s1 fl1 z i1 k1"
       "k1 < MAX_ORDER - 1 \<longrightarrow> zone_base s1 z + (i1 XOR push_bit k1 1) \<notin> set (fl1 z k1)"
    and fs: "free_set fl1 z \<union> blk (zone_base s1 z + i1) k1 = free_set fl z \<union> blk pg k"
    and oth: "\<forall>x. x \<noteq> z \<longrightarrow> fl1 x = fl x"
    and fr: "mem_map s1 = mem_map s" "\<forall>x. zone_base s1 x = zone_base s x \<and> zone_span s1 x = zone_span s x"
       "zone_table s1 = zone_table s" "slots s1 = slots s"
    unfolding pg by blast
  define c where "c = zone_base s1 z + i1"
  define s' where "s' = upd_nr_free z (int k1) (\<lambda>n. n + 1)
      (on_lists (list_add (FreeHead z (int k1)) (Lru c)) (set_page_order c (of_nat k1) s1))"
  note ins = free_insert [OF f(1) z f(2,3), folded c_def, folded s'_def]
  have "page_zone pg s = Some z"
    by (rule returnable_page_zone [OF _ z r]) (use inv in \<open>simp add: buddy_inv_def\<close>)
  then have "free_pages pg k s = Some s'"
    using l fr(2) by (simp add: free_pages_def i_def zone_base_def s'_def c_def Let_def)
  moreover have mm: "mem_map s' = (mem_map s)(c := SetPagePrivate ((mem_map s c)\<lparr>pg_private := of_nat k1\<rparr>))"
    by (simp add: s'_def set_page_order_def fr(1))
  moreover have "c \<in> free_set fl z \<union> blk pg k"
    unfolding fs [symmetric] c_def using blk_start by blast
  moreover have "zone_base s' x = zone_base s x \<and> zone_span s' x = zone_span s x" "zone_table s' = zone_table s" for x
    using fr by (simp_all add: s'_def set_page_order_def zone_base_def zone_span_def)
  ultimately show ?thesis using ins fs oth fr(4)
    by (intro exI [of _ s'] exI [of _ "set_fl fl1 z k1 (c # fl1 z k1)"])
       (auto simp: c_def set_fl_def flag_defs drop_bits_bts test_bit_w_def bit_bts)
qed

end
