(* ===== verification/BuddyAlloc.thy ===== *)
theory BuddyAlloc
  imports BuddyInv
begin

text \<open>
  What \<open>__rmqueue\<close> does to the free lists. Its helper \<open>expand\<close> makes one round more than a
  buddy split needs: for an order-0 request the extra round links the page itself into the
  words below \<open>free_area\<close>, for a larger one it puts the upper half of the block it returns
  back on a free list.
\<close>

section \<open>The invariant of allocation\<close>

text \<open>
  The lists are rings of disjoint, aligned blocks inside their zones. The recorded order of a
  block plays no role here (\<open>expand\<close> records the size instead). \<open>slot_ok\<close>: the words below
  \<open>free_area\<close> do not lead into a free list.
\<close>

definition block_at :: "mm \<Rightarrow> nat \<Rightarrow> nat \<Rightarrow> nat \<Rightarrow> bool" where
  "block_at s z k p \<longleftrightarrow> zone_base s z \<le> p \<and> 2 ^ k dvd p - zone_base s z
     \<and> p + 2 ^ k \<le> zone_base s z + zone_span s z"

definition slot_ok :: "mm \<Rightarrow> nat set \<Rightarrow> freelists \<Rightarrow> bool" where
  "slot_ok s Z fl \<longleftrightarrow> (\<forall>z\<in>Z. prev (lists s) (FreeHead z (- 1)) = NullN
     \<or> (\<exists>p. prev (lists s) (FreeHead z (- 1)) = Lru p \<and> (\<forall>x\<in>Z. p \<notin> free_set fl x)))"

definition zones_apart :: "mm \<Rightarrow> nat set \<Rightarrow> bool" where
  "zones_apart s Z \<longleftrightarrow> (\<forall>z\<in>Z. \<forall>x\<in>Z. x \<noteq> z \<longrightarrow> zone_pages s z \<inter> zone_pages s x = {})"

definition alloc_inv :: "mm \<Rightarrow> nat set \<Rightarrow> freelists \<Rightarrow> bool" where
  "alloc_inv s Z fl \<longleftrightarrow> zones_apart s Z \<and> slot_ok s Z fl
     \<and> family ring (flI Z) flH (lists s) (flL fl)
     \<and> (\<forall>z\<in>Z. \<forall>k<MAX_ORDER. z_nr_free (zones s z) (int k) = of_nat (length (fl z k)))
     \<and> (\<forall>z\<in>Z. \<forall>k<MAX_ORDER. \<forall>p\<in>set (fl z k). block_at s z k p)
     \<and> (\<forall>z\<in>Z. blocks_disjoint fl z)"

lemma buddy_inv_alloc_inv:
  assumes "buddy_inv s Z fl {}" "slot_ok s Z fl"
  shows "alloc_inv s Z fl"
  using assms zone_pages_disjoint [of s Z]
  unfolding alloc_inv_def buddy_inv_def block_ok_def block_at_def zones_apart_def
  by simp

lemma lru_in_family:
  "Lru p \<in> family_nodes (flI Z) flH (flL fl) \<longleftrightarrow> (\<exists>z\<in>Z. \<exists>k<MAX_ORDER. p \<in> set (fl z k))"
  by (fastforce simp: family_nodes_def flI_def)

text \<open>
  The lists after \<open>expand\<close> has cut the pieces of orders \<open>j - m\<close> to \<open>j - 1\<close> off a block at
  \<open>p\<close>.
\<close>

definition cut_fl :: "freelists \<Rightarrow> nat \<Rightarrow> nat \<Rightarrow> nat \<Rightarrow> nat \<Rightarrow> freelists" where
  "cut_fl fl z p j m = (\<lambda>x i. if x = z \<and> j - m \<le> i \<and> i < j then fl x i @ [p + 2 ^ i] else fl x i)"

lemma cut_fl_0 [simp]: "cut_fl fl z p 0 m = fl" "cut_fl fl z p j 0 = fl"
  by (auto simp: cut_fl_def fun_eq_iff)

lemma cut_fl_Suc:
  "cut_fl (set_fl fl z j (fl z j @ [p + 2 ^ j])) z p j m = cut_fl fl z p (Suc j) (Suc m)"
  by (auto simp: cut_fl_def set_fl_def fun_eq_iff less_Suc_eq)

text \<open>One round of \<open>expand\<close> above order 0.\<close>

definition expand_round :: "nat \<Rightarrow> nat \<Rightarrow> int \<Rightarrow> u32 \<Rightarrow> mm \<Rightarrow> mm" where
  "expand_round z q fa sz s = set_page_order q sz
     (upd_zone z (\<lambda>zn. zn\<lparr>z_free_pages := z_free_pages zn + sz\<rparr>)
       (upd_nr_free z fa (\<lambda>n. n + 1) (on_lists (list_add_tail (FreeHead z fa) (Lru q)) s)))"

lemma expand_loop_round:
  "expand_loop z pg low high fa sz s =
     (if high \<ge> low then expand_loop z pg (low + 1) high (fa - 1) (drop_bit 1 sz)
        (expand_round z (pg + unat (drop_bit 1 sz)) (fa - 1) (drop_bit 1 sz) s) else s)"
  by (subst expand_loop.simps) (simp add: Let_def expand_round_def)

lemma expand_round_simps [simp]:
  "lists (expand_round z q fa sz s) = list_add_tail (FreeHead z fa) (Lru q) (lists s)"
  "zone_table (expand_round z q fa sz s) = zone_table s"
  "zone_base (expand_round z q fa sz s) x = zone_base s x"
  "zone_span (expand_round z q fa sz s) x = zone_span s x"
  "zone_pages (expand_round z q fa sz s) x = zone_pages s x"
  "z_pcp (zones (expand_round z q fa sz s) x) = z_pcp (zones s x)"
  "z_nr_free (zones (expand_round z q fa sz s) x) i =
     (if x = z \<and> i = fa then z_nr_free (zones s z) fa + 1 else z_nr_free (zones s x) i)"
  "mem_map (expand_round z q fa sz s) =
     (mem_map s)(q := SetPagePrivate ((mem_map s q)\<lparr>pg_private := sz\<rparr>))"
  by (simp_all add: expand_round_def set_page_order_def zone_base_def zone_span_def zone_pages_def)

text \<open>What a change of order and private flag leaves of a descriptor.\<close>

definition desc_kept :: "page \<Rightarrow> page \<Rightarrow> bool" where
  "desc_kept p p' \<longleftrightarrow> pg_count p' = pg_count p \<and> PageReserved p' = PageReserved p
     \<and> drop_bit 28 (pg_flags p') = drop_bit 28 (pg_flags p)"

lemma desc_kept_order [simp]: "desc_kept p (SetPagePrivate (p\<lparr>pg_private := k\<rparr>))"
  by (simp add: desc_kept_def flag_defs drop_bits_bts bit_bts)

lemma desc_kept_refl [simp]: "desc_kept p p"
  by (simp add: desc_kept_def)

lemma desc_kept_trans: "desc_kept p q \<Longrightarrow> desc_kept q r \<Longrightarrow> desc_kept p r"
  by (simp add: desc_kept_def)

text \<open>
  The loop, from free area \<open>j\<close> down \<open>m\<close> times. The last component says what the slot below the
  array holds when the loop went that far.
\<close>

definition expand_post ::
    "nat \<Rightarrow> nat set \<Rightarrow> freelists \<Rightarrow> nat \<Rightarrow> nat \<Rightarrow> nat \<Rightarrow> mm \<Rightarrow> mm \<Rightarrow> bool" where
  "expand_post z Z fl pg j m s s' \<longleftrightarrow>
     family ring (flI Z) flH (lists s') (flL (cut_fl fl z pg j m))
     \<and> (\<forall>x i. i < MAX_ORDER \<longrightarrow> z_nr_free (zones s' x) (int i)
          = z_nr_free (zones s x) (int i) + (if x = z \<and> j - m \<le> i \<and> i < j then 1 else 0))
     \<and> (\<forall>x. zone_base s' x = zone_base s x \<and> zone_span s' x = zone_span s x)
     \<and> (\<forall>x. prev (lists s') (FreeHead x (- 1)) =
          (if m = Suc j \<and> x = z then Lru pg else prev (lists s) (FreeHead x (- 1))))
     \<and> (\<forall>q. q \<notin> blk pg j \<longrightarrow> mem_map s' q = mem_map s q)
     \<and> (\<forall>q. desc_kept (mem_map s q) (mem_map s' q))
     \<and> (m = Suc j \<longrightarrow> mem_map s' pg = SetPagePrivate ((mem_map s pg)\<lparr>pg_private := 0\<rparr>))"

lemma unat_pow_u32: "j < 32 \<Longrightarrow> unat (2 ^ j :: u32) = 2 ^ j"
proof -
  assume "j < 32"
  then have "(2 :: nat) ^ j < 2 ^ 32" by (intro power_strict_increasing) simp_all
  then have "unat (of_nat (2 ^ j) :: u32) = 2 ^ j" by (intro word32_of_nat_unat_id) simp
  then show ?thesis by simp
qed

lemma half_pow_u32: "j < 31 \<Longrightarrow> drop_bit 1 (2 ^ Suc j :: u32) = 2 ^ j"
  using unat_pow_u32 [of j] unat_pow_u32 [of "Suc j"]
  by (simp add: drop_bit_eq_div unat_div_distrib word_unat_eq_iff)

lemma list_add_tail_frame:
  assumes "x \<notin> {new, old, prev h old}"
  shows "nxt (list_add_tail old new h) x = nxt h x" "prev (list_add_tail old new h) x = prev h x"
  using assms by (auto simp: list_add_tail_def intro: frame)

lemma expand_loop_post:
  assumes "family ring (flI Z) flH (lists s) (flL fl)" and "z \<in> Z" and "j < MAX_ORDER"
    and "m \<le> Suc j" and "int m = high + 1 - low"
    and "\<And>q. q \<in> blk pg j \<Longrightarrow> Lru q \<notin> family_nodes (flI Z) flH (flL fl)"
    and "prev (lists s) (FreeHead z (- 1)) \<notin> family_nodes (flI Z) flH (flL fl)"
    and "prev (lists s) (FreeHead z (- 1)) \<notin> Lru ` blk pg j"
  shows "expand_post z Z fl pg j m s (expand_loop z pg low high (int j) (2 ^ j) s)"
  using assms
proof (induction j arbitrary: m low s fl)
  case 0
  note fam = "0.prems"(1)
  show ?case
  proof (cases m)
    case 0
    with "0.prems"(5) have "expand_loop z pg low high 0 1 s = s" by (subst expand_loop_round) simp
    with 0 fam show ?thesis by (simp add: expand_post_def)
  next
    case (Suc n)
    with "0.prems"(4,5) have m: "m = 1" "low = high" by simp_all
    let ?s = "expand_round z pg (- 1) 0 s"
    have "expand_loop z pg (low + 1) high (- 1) 0 ?s = ?s"
      by (subst expand_loop_round) (simp add: m)
    moreover have "drop_bit 1 (1 :: u32) = 0" by (simp add: drop_bit_eq_div)
    ultimately have e: "expand_loop z pg low high 0 1 s = ?s"
      using m(2) by (subst expand_loop_round) simp
    have "Lru pg \<notin> family_nodes (flI Z) flH (flL fl)" by (rule "0.prems"(6)) simp
    then have "family ring (flI Z) flH (lists ?s) (flL fl)"
      using slot_not_in_family [of z Z fl] "0.prems"(7)
      by (intro family_ring_frame [OF fam]) (unfold expand_round_simps, (rule list_add_tail_frame, blast)+)
    then show ?thesis using e m
      by (simp add: expand_post_def list_add_tail_def list_add_between_def set_prev_def set_nxt_def blk_def)
  qed
next
  case (Suc j)
  note fam = Suc.prems(1) and z = Suc.prems(2)
  show ?case
  proof (cases m)
    case 0
    with Suc.prems(5) have "expand_loop z pg low high (int (Suc j)) (2 ^ Suc j) s = s"
      by (subst expand_loop_round) simp
    with 0 fam show ?thesis by (simp add: expand_post_def)
  next
    case (Suc n)
    define q where "q = pg + 2 ^ j"
    define fl' where "fl' = set_fl fl z j (fl z j @ [q])"
    let ?s = "expand_round z q (int j) (2 ^ j) s"
    have half: "drop_bit 1 (2 ^ Suc j :: u32) = 2 ^ j"
      using Suc.prems(3) by (intro half_pow_u32) simp
    have u: "unat (2 ^ j :: u32) = 2 ^ j" using Suc.prems(3) by (intro unat_pow_u32) simp
    have e: "expand_loop z pg low high (int (Suc j)) (2 ^ Suc j) s
        = expand_loop z pg (low + 1) high (int j) (2 ^ j) ?s"
      using Suc Suc.prems(5) half u by (subst expand_loop_round) (simp add: q_def)
    have lt: "j < MAX_ORDER" using Suc.prems(3) by simp
    have sub: "blk pg j \<subseteq> blk pg (Suc j)" "q \<in> blk pg (Suc j)" "q \<notin> blk pg j"
      by (auto simp: blk_def q_def)
    have nodes: "family_nodes (flI Z) flH (flL fl') = insert (Lru q) (family_nodes (flI Z) flH (flL fl))"
      using z lt by (auto simp: family_nodes_def flI_def fl'_def split: if_splits)
    have "Lru q \<notin> family_nodes (flI Z) flH (flL fl)" by (rule Suc.prems(6) [OF sub(2)])
    from rings.family_put_tail [OF fam _ this, of "(z, j)"] z lt
    have fam': "family ring (flI Z) flH (lists ?s) (flL fl')"
      by (simp add: flI_def fl'_def flL_set_fl)
    have slot: "prev (lists ?s) (FreeHead x (- 1)) = prev (lists s) (FreeHead x (- 1))" for x
      by (simp add: list_add_tail_def frame)
    define t where "t = expand_loop z pg (low + 1) high (int j) (2 ^ j) ?s"
    have post: "expand_post z Z fl' pg j n ?s t" unfolding t_def
    proof (rule Suc.IH [OF fam' z lt])
      show "n \<le> Suc j" "int n = high + 1 - (low + 1)" using Suc Suc.prems(4,5) by simp_all
      show "Lru p \<notin> family_nodes (flI Z) flH (flL fl')" if "p \<in> blk pg j" for p
        using Suc.prems(6) [of p] that sub by (auto simp: nodes)
      show "prev (lists ?s) (FreeHead z (- 1)) \<notin> family_nodes (flI Z) flH (flL fl')"
        unfolding nodes slot using Suc.prems(7,8) sub(2) by auto
      show "prev (lists ?s) (FreeHead z (- 1)) \<notin> Lru ` blk pg j"
        unfolding slot using Suc.prems(8) sub(1) by auto
    qed
    have "cut_fl fl' z pg j n = cut_fl fl z pg (Suc j) m"
      by (simp add: fl'_def q_def cut_fl_Suc Suc)
    moreover have "pg \<noteq> q" by (simp add: q_def)
    moreover have kept: "desc_kept (mem_map s x) (mem_map t x)" for x
      by (rule desc_kept_trans [of _ "mem_map ?s x"]) (use post in \<open>simp_all add: expand_post_def\<close>)
    ultimately show ?thesis using post unfolding e expand_post_def slot t_def [symmetric] using sub Suc
      by (auto simp: less_Suc_eq kept)
  qed
qed

section \<open>Finding a block\<close>

lemma rmqueue_from_skip:
  assumes "family ring (flI Z) flH (lists s) (flL fl)" "z \<in> Z" "k \<le> h" "h \<le> MAX_ORDER"
    and "\<And>i. k \<le> i \<Longrightarrow> i < h \<Longrightarrow> fl z i = []"
  shows "rmqueue_from z ord k s = rmqueue_from z ord h s"
  using assms(3,4,5)
proof (induction "h - k" arbitrary: k)
  case (Suc n)
  then have k: "k < h" "k < MAX_ORDER" by simp_all
  with Suc.prems(3) have "list_empty (FreeHead z (int k)) (lists s)"
    using rings.family_is_empty [OF assms(1), of "(z, k)"] assms(2) by (simp add: flI_def)
  with k have "rmqueue_from z ord k s = rmqueue_from z ord (Suc k) s"
    by (subst rmqueue_from.simps) simp
  also have "\<dots> = rmqueue_from z ord h s" using Suc by (intro Suc.hyps) simp_all
  finally show ?case .
qed simp

lemma rmqueue_none:
  assumes "family ring (flI Z) flH (lists s) (flL fl)" "z \<in> Z"
    and "\<And>i. ord \<le> i \<Longrightarrow> i < MAX_ORDER \<Longrightarrow> fl z i = []"
  shows "rmqueue z ord s = (PNull, s)"
proof (cases "ord \<le> MAX_ORDER")
  case True
  have "rmqueue z ord s = rmqueue_from z ord MAX_ORDER s"
    unfolding rmqueue_def by (rule rmqueue_from_skip [OF assms(1,2) True _ assms(3)]) simp_all
  then show ?thesis by (simp add: rmqueue_from.simps)
next
  case False
  then show ?thesis unfolding rmqueue_def by (subst rmqueue_from.simps) simp
qed

text \<open>The state when the first block of order \<open>h\<close> has left its list.\<close>

definition unlinked :: "nat \<Rightarrow> nat \<Rightarrow> nat \<Rightarrow> nat \<Rightarrow> mm \<Rightarrow> mm" where
  "unlinked z ord h p s = upd_zone z (\<lambda>zn. zn\<lparr>z_free_pages := z_free_pages zn - push_bit ord 1\<rparr>)
     (upd_nr_free z (int h) (\<lambda>k. k - 1) (on_lists (list_del (Lru p)) s))"

lemma unlinked_simps [simp]:
  "lists (unlinked z ord h p s) = list_del (Lru p) (lists s)"
  "mem_map (unlinked z ord h p s) = mem_map s" "zone_table (unlinked z ord h p s) = zone_table s"
  "zone_base (unlinked z ord h p s) x = zone_base s x"
  "zone_span (unlinked z ord h p s) x = zone_span s x"
  "z_nr_free (zones (unlinked z ord h p s) x) i =
     (if x = z \<and> i = int h then z_nr_free (zones s z) i - 1 else z_nr_free (zones s x) i)"
  by (simp_all add: unlinked_def zone_base_def zone_span_def)

lemma rmqueue_hit:
  assumes fam: "family ring (flI Z) flH (lists s) (flL fl)" and z: "z \<in> Z"
    and h: "ord \<le> h" "h < MAX_ORDER" "fl z h = p # ps"
    and low: "\<And>i. ord \<le> i \<Longrightarrow> i < h \<Longrightarrow> fl z i = []"
  shows "rmqueue z ord s
    = (PPage p, expand_loop z p (int ord) (int h) (int h) (2 ^ h) (unlinked z ord h p s))"
proof -
  have i: "(z, h) \<in> flI Z" using z h by (simp add: flI_def)
  have "\<not> list_empty (FreeHead z (int h)) (lists s)"
    using rings.family_is_empty [OF fam i] h by simp
  moreover have "nxt (lists s) (FreeHead z (int h)) = Lru p"
    using rings.family_first [OF fam i] h by simp
  moreover have "rmqueue z ord s = rmqueue_from z ord h s"
    unfolding rmqueue_def using h by (intro rmqueue_from_skip [OF fam z _ _ low]) simp_all
  ultimately show ?thesis using h
    by (subst (asm) rmqueue_from.simps) (simp add: expand_def unlinked_def Let_def)
qed

lemma block_at_zone: "block_at s z k p \<Longrightarrow> blk p k \<subseteq> zone_pages s z"
  by (auto simp: block_at_def blk_def zone_pages_def)

lemma alloc_inv_free_zone:
  "alloc_inv s Z fl \<Longrightarrow> x \<in> Z \<Longrightarrow> free_set fl x \<subseteq> zone_pages s x"
  unfolding alloc_inv_def free_set_def using block_at_zone by fastforce

text \<open>No page of a listed block heads another listed block.\<close>

lemma block_pages_unlisted:
  assumes inv: "alloc_inv s Z fl" and z: "z \<in> Z" and h: "h < MAX_ORDER" "fl z h = p # ps"
    and q: "q \<in> blk p h"
  shows "Lru q \<notin> family_nodes (flI Z) flH (flL (set_fl fl z h ps))"
proof
  assume "Lru q \<in> family_nodes (flI Z) flH (flL (set_fl fl z h ps))"
  then obtain x k where x: "x \<in> Z" "k < MAX_ORDER" "q \<in> set (set_fl fl z h ps x k)"
    by (auto simp: lru_in_family simp del: set_fl_simps)
  have sub: "set (set_fl fl z h ps x k) \<subseteq> set (fl x k)" using h by auto
  show False
  proof (cases "x = z")
    case True
    have d: "blocks_disjoint fl z" using inv z by (simp add: alloc_inv_def)
    have "p \<in> set (fl z h)" "q \<in> set (fl z k)" using h x sub True by auto
    then have "(h, p) = (k, q)" using d h(1) x(2) q blk_start unfolding blocks_disjoint_def by blast
    with x(3) True have "p \<in> set ps" by simp
    moreover have "distinct (flL fl (z, h))"
      using rings.family_distinct [of "flI Z" flH "lists s" "flL fl" "(z, h)"] inv z h(1)
      by (simp add: alloc_inv_def flI_def)
    ultimately show False using h(2) by (simp add: distinct_map)
  next
    case False
    have "q \<in> free_set fl x" using x sub blk_start unfolding mem_free_set by blast
    then have "q \<in> zone_pages s x" using alloc_inv_free_zone [OF inv x(1)] by blast
    moreover have "p \<in> set (fl z h)" using h by simp
    then have "q \<in> zone_pages s z"
      using block_at_zone [of s z h p] inv z h q by (auto simp: alloc_inv_def)
    ultimately show False using inv z x(1) False unfolding alloc_inv_def zones_apart_def by blast
  qed
qed

text \<open>\<open>__rmqueue\<close> when a block exists: the first of the smallest nonempty list is taken and cut.\<close>

lemma rmqueue_post:
  assumes inv: "alloc_inv s Z fl" and z: "z \<in> Z"
    and h: "ord \<le> h" "h < MAX_ORDER" "fl z h = p # ps"
    and low: "\<And>i. ord \<le> i \<Longrightarrow> i < h \<Longrightarrow> fl z i = []"
  shows "\<exists>s'. rmqueue z ord s = (PPage p, s')
    \<and> expand_post z Z (set_fl fl z h ps) p h (Suc h - ord) (unlinked z ord h p s) s'"
proof -
  have fam: "family ring (flI Z) flH (lists s) (flL fl)" using inv by (simp add: alloc_inv_def)
  have i: "(z, h) \<in> flI Z" using z h by (simp add: flI_def)
  have fam': "family ring (flI Z) flH (lists (unlinked z ord h p s)) (flL (set_fl fl z h ps))"
    using rings.family_unlink [OF fam i, of "Lru p"] h by (simp add: flL_set_fl)
  have "ring (lists s) (FreeHead z (int h)) (map Lru (p # ps))"
    using family_rep [OF fam i] h by simp
  then have nb: "prev (lists s) (Lru p) = FreeHead z (int h)"
     "nxt (lists s) (Lru p) = hd (map Lru ps @ [FreeHead z (int h)])"
    using ring_split [of "lists s" "FreeHead z (int h)" "[]" "Lru p" "map Lru ps"] by simp_all
  have slot: "prev (list_del (Lru p) (lists s)) (FreeHead x (- 1)) = prev (lists s) (FreeHead x (- 1))" for x
    by (rule list_del_frame) (cases ps; simp add: nb)+
  have p: "p \<in> set (fl z h)" using h by simp
  have sl: "prev (lists s) (FreeHead z (- 1)) = NullN
     \<or> (\<exists>q. prev (lists s) (FreeHead z (- 1)) = Lru q \<and> (\<forall>x\<in>Z. q \<notin> free_set fl x))"
    using inv z by (simp add: alloc_inv_def slot_ok_def)
  have a: "q \<in> free_set fl x" if "x \<in> Z" "k < MAX_ORDER" "q \<in> set (set_fl fl z h ps x k)" for q x k
  proof -
    have "q \<in> set (fl x k)" using that(3) h(3) by (auto split: if_splits)
    then show ?thesis using that(2) blk_start unfolding mem_free_set by blast
  qed
  have "expand_post z Z (set_fl fl z h ps) p h (Suc h - ord) (unlinked z ord h p s)
      (expand_loop z p (int ord) (int h) (int h) (2 ^ h) (unlinked z ord h p s))"
  proof (rule expand_loop_post [OF fam' z h(2)])
    show "prev (lists (unlinked z ord h p s)) (FreeHead z (- 1))
        \<notin> family_nodes (flI Z) flH (flL (set_fl fl z h ps))"
      unfolding unlinked_simps slot
    proof
      assume m: "prev (lists s) (FreeHead z (- 1)) \<in> family_nodes (flI Z) flH (flL (set_fl fl z h ps))"
      have "NullN \<notin> family_nodes (flI Z) flH (flL (set_fl fl z h ps))"
        by (auto simp: family_nodes_def flI_def)
      with m sl obtain q where q: "prev (lists s) (FreeHead z (- 1)) = Lru q" "\<forall>x\<in>Z. q \<notin> free_set fl x"
        by metis
      from m obtain x k where "x \<in> Z" "k < MAX_ORDER" "q \<in> set (set_fl fl z h ps x k)"
        unfolding q(1) lru_in_family by blast
      with a q(2) show False by blast
    qed
    show "prev (lists (unlinked z ord h p s)) (FreeHead z (- 1)) \<notin> Lru ` blk p h"
      unfolding unlinked_simps slot using sl z listed_block_subset [of h p fl z] h(2) p by auto
    show "Lru q \<notin> family_nodes (flI Z) flH (flL (set_fl fl z h ps))" if "q \<in> blk p h" for q
      by (rule block_pages_unlisted [OF inv z h(2,3) that])
  qed (use h in simp_all)
  then show ?thesis using rmqueue_hit [OF fam z h low] by simp
qed

section \<open>Orders 0 and 1: one page leaves the free memory\<close>

text \<open>
  The extra round of \<open>expand\<close> makes an order-1 request do to the lists what an order-0 request from the same
  block does: every page but the first is on a list.
\<close>

lemma blk_pieces: "(\<Union>i<h. blk (p + 2 ^ i) i) = blk p h - {p}"
proof (induction h)
  case (Suc h)
  have "blk p (Suc h) = blk p h \<union> blk (p + 2 ^ h) h"
    unfolding blk_def using ivl_disj_un_two(3) [of p "p + 2 ^ h" "p + 2 ^ h + 2 ^ h"]
    by (simp add: mult_2 add.assoc)
  moreover have "p \<notin> blk (p + 2 ^ h) h" by (simp add: blk_def)
  ultimately show ?case by (simp add: lessThan_Suc Suc.IH Un_Diff Un_commute)
qed (simp add: blk_def)

lemma blk_piece_sub: "i < h \<Longrightarrow> blk (p + 2 ^ i) i \<subseteq> blk p h - {p}"
  unfolding blk_pieces [symmetric] by blast

lemma blk_pieces_disjoint:
  assumes "i \<noteq> j"
  shows "blk (p + 2 ^ i) i \<inter> blk (p + 2 ^ j) j = {}"
proof -
  have *: "blk (p + 2 ^ i) i \<inter> blk (p + 2 ^ j) j = {}" if "i < j" for i j
  proof -
    have "x < p + 2 ^ j" if "x \<in> blk (p + 2 ^ i) i" for x
      using blk_piece_sub [OF \<open>i < j\<close>, of p] that unfolding blk_def [of p j] by auto
    then show ?thesis unfolding blk_def [of "p + 2 ^ j"] by force
  qed
  show ?thesis using assms * [of i j] * [of j i] by (metis Int_commute linorder_neqE_nat)
qed

text \<open>The lists after a request of order 0 or 1 served from order \<open>h\<close>.\<close>

definition taken_fl :: "freelists \<Rightarrow> nat \<Rightarrow> nat \<Rightarrow> nat \<Rightarrow> nat list \<Rightarrow> freelists" where
  "taken_fl fl z h p ps = (\<lambda>x i. if x = z \<and> i < h then fl x i @ [p + 2 ^ i] else if x = z \<and> i = h then ps else fl x i)"

lemma taken_fl_cut: "ord \<le> 1 \<Longrightarrow> cut_fl (set_fl fl z h ps) z p h (Suc h - ord) = taken_fl fl z h p ps"
  by (auto simp: fun_eq_iff cut_fl_def taken_fl_def set_fl_def)

lemma taken_free_set:
  assumes d: "blocks_disjoint fl z" and h: "h < MAX_ORDER" "fl z h = p # ps" "p \<notin> set ps"
  shows "free_set (taken_fl fl z h p ps) z = free_set fl z - {p}"
proof -
  have e: "{..<MAX_ORDER} = {..<h} \<union> ({h} \<union> {h<..<MAX_ORDER})" using h(1) by auto
  define R where "R = (\<Union>k\<in>{..<h}. \<Union>q\<in>set (fl z k). blk q k) \<union> (\<Union>q\<in>set ps. blk q h)
    \<union> (\<Union>k\<in>{h<..<MAX_ORDER}. \<Union>q\<in>set (fl z k). blk q k)"
  have old: "free_set fl z = blk p h \<union> R"
    unfolding free_set_def e UN_Un R_def using h(2) by auto
  have new: "free_set (taken_fl fl z h p ps) z = (\<Union>i<h. blk (p + 2 ^ i) i) \<union> R"
    unfolding free_set_def e UN_Un R_def by (auto simp: taken_fl_def)
  have pm: "p \<in> set (fl z h)" using h(2) by simp
  have "p \<notin> R"
  proof
    assume "p \<in> R"
    moreover have "\<exists>k<MAX_ORDER. \<exists>q\<in>set (fl z k). (k, q) \<noteq> (h, p) \<and> p \<in> blk q k"
      if "q \<in> set ps" "p \<in> blk q h" for q
      using that h by (intro exI [of _ h]) auto
    moreover have "\<exists>k<MAX_ORDER. \<exists>q\<in>set (fl z k). (k, q) \<noteq> (h, p) \<and> p \<in> blk q k"
      if "h < k" "k < MAX_ORDER" "q \<in> set (fl z k)" "p \<in> blk q k" for k q
      using that by blast
    moreover have "\<exists>k<MAX_ORDER. \<exists>q\<in>set (fl z k). (k, q) \<noteq> (h, p) \<and> p \<in> blk q k"
      if "k < h" "q \<in> set (fl z k)" "p \<in> blk q k" for k q
      using that h(1) by (intro exI [of _ k]) auto
    ultimately obtain k q where kq: "k < MAX_ORDER" "q \<in> set (fl z k)" "(k, q) \<noteq> (h, p)" "p \<in> blk q k"
      unfolding R_def by (elim UnE UN_E) (metis greaterThanLessThan_iff lessThan_iff)+
    with d pm h(1) have "blk p h \<inter> blk q k = {}" unfolding blocks_disjoint_def by metis
    with kq(4) blk_start show False by blast
  qed
  then show ?thesis unfolding old new blk_pieces using blk_start by blast
qed

lemma taken_blocks_disjoint:
  assumes d: "blocks_disjoint fl z" and h: "h < MAX_ORDER" "fl z h = p # ps" "p \<notin> set ps"
  shows "blocks_disjoint (taken_fl fl z h p ps) z"
  unfolding blocks_disjoint_def
proof (intro allI ballI impI)
  fix k j a b
  assume kj: "k < MAX_ORDER" "j < MAX_ORDER" and a: "a \<in> set (taken_fl fl z h p ps z k)"
    and b: "b \<in> set (taken_fl fl z h p ps z j)" and ne: "(k, a) \<noteq> (j, b)"
  have cls: "i < h \<and> c = p + 2 ^ i \<or> c \<in> set (fl z i) \<and> (i, c) \<noteq> (h, p)"
    if "c \<in> set (taken_fl fl z h p ps z i)" for c i
    using that h by (auto simp: taken_fl_def split: if_splits)
  have mixed: "blk (p + 2 ^ i) i \<inter> blk c l = {}"
    if "i < h" "c \<in> set (fl z l)" "(l, c) \<noteq> (h, p)" "l < MAX_ORDER" for i c l
  proof -
    have "p \<in> set (fl z h)" using h(2) by simp
    with d that(2-) h(1) have "blk p h \<inter> blk c l = {}" unfolding blocks_disjoint_def by metis
    with blk_piece_sub [OF that(1)] show ?thesis by blast
  qed
  show "blk a k \<inter> blk b j = {}"
    using cls [OF a] cls [OF b] ne mixed [of k b j] mixed [of j a k] kj d
      blk_pieces_disjoint [of k j p] unfolding blocks_disjoint_def
    by (metis Int_commute)
qed

lemma piece_block_at:
  assumes "block_at s z h p" "i < h"
  shows "block_at s z i (p + 2 ^ i)"
proof -
  let ?b = "zone_base s z"
  have p: "?b \<le> p" "2 ^ h dvd p - ?b" "p + 2 ^ h \<le> ?b + zone_span s z"
    using assms(1) by (simp_all add: block_at_def)
  have "2 ^ i dvd p - ?b" by (rule dvd_trans [OF le_imp_power_dvd p(2)]) (use assms(2) in simp)
  then have "2 ^ i dvd (p - ?b) + 2 ^ i" by simp
  moreover have "(2 :: nat) ^ Suc i \<le> 2 ^ h" by (rule power_increasing) (use assms(2) in simp_all)
  ultimately show ?thesis using p by (simp add: block_at_def)
qed

lemma free_set_empty_iff: "free_set fl z = {} \<longleftrightarrow> (\<forall>k<MAX_ORDER. fl z k = [])"
proof
  assume e: "free_set fl z = {}"
  show "\<forall>k<MAX_ORDER. fl z k = []"
  proof (intro allI impI)
    fix k assume k: "k < MAX_ORDER"
    have "hd (fl z k) \<in> free_set fl z" if "fl z k \<noteq> []"
      unfolding mem_free_set using k that hd_in_set blk_start by blast
    with e show "fl z k = []" by blast
  qed
qed (auto simp: free_set_def)

lemma least_nonempty:
  assumes "fl z k \<noteq> []" "ord \<le> k" "k < MAX_ORDER"
  obtains h p ps where "ord \<le> h" "h < MAX_ORDER" "fl z h = p # ps"
    "\<And>i. ord \<le> i \<Longrightarrow> i < h \<Longrightarrow> fl z i = []"
proof -
  define h where "h = (LEAST i. ord \<le> i \<and> fl z i \<noteq> [])"
  have "ord \<le> h \<and> fl z h \<noteq> []" unfolding h_def by (rule LeastI [of _ k]) (use assms in simp)
  moreover have "h \<le> k" unfolding h_def by (rule Least_le) (use assms in simp)
  moreover have "fl z i = []" if "ord \<le> i" "i < h" for i
    using not_less_Least [of i "\<lambda>i. ord \<le> i \<and> fl z i \<noteq> []"] that unfolding h_def by blast
  ultimately show ?thesis
    using that [of h "hd (fl z h)" "tl (fl z h)"] assms(3) by simp
qed

text \<open>The whole effect of an order-0 request on the invariant.\<close>

definition page_taken :: "mm \<Rightarrow> nat set \<Rightarrow> freelists \<Rightarrow> nat \<Rightarrow> nat \<Rightarrow> mm \<Rightarrow> bool" where
  "page_taken s Z fl z p s' \<longleftrightarrow> p \<in> free_set fl z
     \<and> (\<exists>fl'. alloc_inv s' Z fl' \<and> free_set fl' z = free_set fl z - {p} \<and> (\<forall>x. x \<noteq> z \<longrightarrow> fl' x = fl x))
     \<and> (\<forall>x. zone_base s' x = zone_base s x \<and> zone_span s' x = zone_span s x)
     \<and> (\<forall>q. desc_kept (mem_map s q) (mem_map s' q))
     \<and> PagePrivate (mem_map s' p) \<and> pg_private (mem_map s' p) = 0
     \<and> prev (lists s') (FreeHead z (- 1)) = Lru p"

lemma rmqueue_small:
  assumes inv: "alloc_inv s Z fl" and z: "z \<in> Z" and ord: "ord \<le> 1"
    and h: "ord \<le> h" "h < MAX_ORDER" "fl z h = p # ps" and low: "\<And>i. ord \<le> i \<Longrightarrow> i < h \<Longrightarrow> fl z i = []"
  shows "\<exists>s'. rmqueue z ord s = (PPage p, s') \<and> alloc_inv s' Z (taken_fl fl z h p ps)
    \<and> p \<in> free_set fl z \<and> free_set (taken_fl fl z h p ps) z = free_set fl z - {p}
    \<and> (\<forall>x. zone_base s' x = zone_base s x \<and> zone_span s' x = zone_span s x)
    \<and> (\<forall>q. desc_kept (mem_map s q) (mem_map s' q))
    \<and> (ord = 0 \<longrightarrow> PagePrivate (mem_map s' p) \<and> pg_private (mem_map s' p) = 0
         \<and> prev (lists s') (FreeHead z (- 1)) = Lru p)"
proof -
  let ?fl = "taken_fl fl z h p ps"
  obtain s' where s': "rmqueue z ord s = (PPage p, s')"
      "expand_post z Z (set_fl fl z h ps) p h (Suc h - ord) (unlinked z ord h p s) s'"
    using rmqueue_post [of s Z fl z ord h p ps] inv z h low by auto
  note P = s'(2) [unfolded expand_post_def taken_fl_cut [of ord fl z h ps p, OF ord]]
  have bd: "blocks_disjoint fl z" and za: "zones_apart s Z" using inv z by (simp_all add: alloc_inv_def)
  have "distinct (flL fl (z, h))"
    using rings.family_distinct [of "flI Z" flH "lists s" "flL fl" "(z, h)"] inv z h(2)
    by (simp add: alloc_inv_def flI_def)
  then have np: "p \<notin> set ps" using h(3) by (simp add: distinct_map image_iff)
  have fs: "free_set ?fl z = free_set fl z - {p}" by (rule taken_free_set [OF bd h(2,3) np])
  have oth: "?fl x = fl x" if "x \<noteq> z" for x using that by (simp add: taken_fl_def)
  then have fso: "free_set ?fl x = free_set fl x" if "x \<noteq> z" for x using that by (simp add: free_set_def)
  have base: "zone_base s' x = zone_base s x" "zone_span s' x = zone_span s x" for x using P by simp_all
  have zp: "zone_pages s' x = zone_pages s x" for x by (simp add: zone_pages_def base)
  have pm: "p \<in> free_set fl z" unfolding mem_free_set using h blk_start by force
  have ls: "prev (list_del (Lru p) (lists s)) (FreeHead x (- 1)) = prev (lists s) (FreeHead x (- 1))" for x
  proof -
    have "ring (lists s) (FreeHead z (int h)) (map Lru (p # ps))"
      using family_rep [of ring "flI Z" flH "lists s" "flL fl" "(z, h)"] inv z h
      by (simp add: alloc_inv_def flI_def)
    then have "prev (lists s) (Lru p) = FreeHead z (int h)"
      "nxt (lists s) (Lru p) = hd (map Lru ps @ [FreeHead z (int h)])"
      using ring_split [of "lists s" "FreeHead z (int h)" "[]" "Lru p" "map Lru ps"] by simp_all
    then show ?thesis by (intro list_del_frame) (cases ps; simp)+
  qed
  have slot: "prev (lists s') (FreeHead x (- 1)) = (if ord = 0 \<and> x = z then Lru p else prev (lists s) (FreeHead x (- 1)))" for x
    using P ord h(1) by (auto simp: ls)
  have "slot_ok s' Z ?fl"
    unfolding slot_ok_def
  proof
    fix x assume x: "x \<in> Z"
    have out: "p \<notin> free_set ?fl y" if y: "y \<in> Z" for y
    proof (cases "y = z")
      case False
      then show ?thesis using alloc_inv_free_zone [OF inv y] alloc_inv_free_zone [OF inv z] pm za z y fso
        unfolding zones_apart_def by (metis disjoint_iff subsetD)
    qed (simp add: fs)
    have sub: "free_set ?fl y \<subseteq> free_set fl y" for y using fs fso by (cases "y = z") auto
    have "prev (lists s) (FreeHead x (- 1)) = NullN
        \<or> (\<exists>q. prev (lists s) (FreeHead x (- 1)) = Lru q \<and> (\<forall>y\<in>Z. q \<notin> free_set fl y))"
      using inv x unfolding alloc_inv_def slot_ok_def by blast
    then show "prev (lists s') (FreeHead x (- 1)) = NullN
        \<or> (\<exists>q. prev (lists s') (FreeHead x (- 1)) = Lru q \<and> (\<forall>y\<in>Z. q \<notin> free_set ?fl y))"
      using out sub by (cases "ord = 0 \<and> x = z") (simp add: slot, unfold slot, metis subsetD)
  qed
  moreover have "zones_apart s' Z" using za by (simp add: zones_apart_def zp)
  moreover have "family ring (flI Z) flH (lists s') (flL ?fl)" using P by simp
  moreover have "z_nr_free (zones s' x) (int k) = of_nat (length (?fl x k))"
    if "x \<in> Z" "k < MAX_ORDER" for x k
  proof -
    have "z_nr_free (zones s x) (int k) = of_nat (length (fl x k))"
      using inv that unfolding alloc_inv_def by blast
    then show ?thesis using P that h ord by (auto simp: taken_fl_def)
  qed
  moreover have "block_at s' x k q" if "x \<in> Z" "k < MAX_ORDER" "q \<in> set (?fl x k)" for x k q
  proof -
    have old: "block_at s y j r" if "y \<in> Z" "j < MAX_ORDER" "r \<in> set (fl y j)" for y j r
      using inv that unfolding alloc_inv_def by blast
    have "block_at s x k q"
      using that old [of x k q] piece_block_at [OF old [OF z h(2), of p]] h
      by (auto simp: taken_fl_def split: if_splits)
    then show ?thesis by (simp add: block_at_def base)
  qed
  moreover have "blocks_disjoint ?fl x" if "x \<in> Z" for x
  proof (cases "x = z")
    case True
    with taken_blocks_disjoint [OF bd h(2,3) np] show ?thesis by simp
  next
    case False
    have "blocks_disjoint fl x" using inv that by (simp add: alloc_inv_def)
    with oth [OF False] show ?thesis by (simp add: blocks_disjoint_def)
  qed
  ultimately have ai: "alloc_inv s' Z ?fl" by (simp add: alloc_inv_def)
  have "ord = 0 \<Longrightarrow> PagePrivate (mem_map s' p) \<and> pg_private (mem_map s' p) = 0"
    using P by (simp add: flag_defs bit_bts)
  with s'(1) ai fs pm base P slot show ?thesis by (intro exI [of _ s']) auto
qed

lemma rmqueue_order0_some:
  assumes inv: "alloc_inv s Z fl" and z: "z \<in> Z"
    and h: "h < MAX_ORDER" "fl z h = p # ps" and low: "\<And>i. i < h \<Longrightarrow> fl z i = []"
  shows "\<exists>s'. rmqueue z 0 s = (PPage p, s') \<and> page_taken s Z fl z p s'
    \<and> alloc_inv s' Z (taken_fl fl z h p ps)"
proof -
  have "\<forall>x. x \<noteq> z \<longrightarrow> taken_fl fl z h p ps x = fl x" by (simp add: taken_fl_def fun_eq_iff)
  then show ?thesis
    using rmqueue_small [OF inv z, of 0 h p ps] h low unfolding page_taken_def by auto
qed

lemma rmqueue_order0_cases:
  assumes inv: "alloc_inv s Z fl" and z: "z \<in> Z"
  shows "(free_set fl z = {} \<and> rmqueue z 0 s = (PNull, s))
     \<or> (\<exists>p s'. rmqueue z 0 s = (PPage p, s') \<and> page_taken s Z fl z p s')"
proof (cases "free_set fl z = {}")
  case True
  moreover have "rmqueue z 0 s = (PNull, s)"
    by (rule rmqueue_none [of Z s fl, OF _ z]) (use inv True in \<open>auto simp: alloc_inv_def free_set_empty_iff\<close>)
  ultimately show ?thesis by blast
next
  case False
  then obtain k where k: "fl z k \<noteq> []" "0 \<le> k" "k < MAX_ORDER" by (auto simp: free_set_empty_iff)
  obtain h p ps where H: "h < MAX_ORDER" "fl z h = p # ps" "\<And>i. 0 \<le> i \<Longrightarrow> i < h \<Longrightarrow> fl z i = []"
    by (rule least_nonempty [of fl z k 0]) (use k in simp_all)
  have "\<exists>s'. rmqueue z 0 s = (PPage p, s') \<and> page_taken s Z fl z p s' \<and> alloc_inv s' Z (taken_fl fl z h p ps)"
    by (rule rmqueue_order0_some [OF inv z H(1,2)]) (rule H(3), simp_all)
  then show ?thesis by blast
qed

section \<open>Larger orders: the upper half stays on a list\<close>

lemma rmqueue_upper_half_listed:
  assumes inv: "alloc_inv s Z fl" and z: "z \<in> Z"
    and h: "Suc k \<le> h" "h < MAX_ORDER" "fl z h = p # ps"
    and low: "\<And>i. Suc k \<le> i \<Longrightarrow> i < h \<Longrightarrow> fl z i = []"
  shows "\<exists>s' fl'. rmqueue z (Suc k) s = (PPage p, s')
    \<and> family ring (flI Z) flH (lists s') (flL fl') \<and> fl' z k = fl z k @ [p + 2 ^ k]"
proof -
  obtain s' where s': "rmqueue z (Suc k) s = (PPage p, s')"
      "expand_post z Z (set_fl fl z h ps) p h (Suc h - Suc k) (unlinked z (Suc k) h p s) s'"
    using rmqueue_post [OF inv z h low] by blast
  have "cut_fl (set_fl fl z h ps) z p h (Suc h - Suc k) z k = fl z k @ [p + 2 ^ k]"
    using h(1) by (simp add: cut_fl_def)
  with s' show ?thesis unfolding expand_post_def by blast
qed

section \<open>The entry points\<close>

text \<open>
  Nothing in the repository fills the per-cpu buffers, whose records start as zero words: an
  order-0 request then asks for a refill of no pages and falls through to the buddy lists.
\<close>

definition pcp_idle :: "mm \<Rightarrow> bool" where
  "pcp_idle s \<longleftrightarrow> (\<forall>z cold. pcp_count (z_pcp (zones s z) cold) = 0 \<and> pcp_batch (z_pcp (zones s z) cold) = 0)"

lemma buffered_rmqueue_idle:
  assumes "pcp_idle s"
  shows "buffered_rmqueue z ord g s = rmqueue z ord s"
proof -
  have b: "rmqueue_bulk z 0 0 l s = (0, s)" for l by (simp add: rmqueue_bulk_def)
  have u: "upd_pcp z c (\<lambda>x. x) s = s" for c by (simp add: upd_pcp_def upd_zone_def)
  from assms show ?thesis by (simp add: buffered_rmqueue_def pcp_idle_def b u Let_def)
qed

lemma alloc_pages_first:
  assumes "alloc_inv s Z fl" "set (xs @ z # ys) \<subseteq> Z" "pcp_idle s"
    and "\<And>x. x \<in> set xs \<Longrightarrow> free_set fl x = {}" "free_set fl z \<noteq> {}"
  shows "\<exists>p s'. alloc_pages g 0 (xs @ z # ys) s = (PPage p, s') \<and> page_taken s Z fl z p s'"
  using assms
proof (induction xs)
  case Nil
  with rmqueue_order0_cases [of s Z fl z] show ?case by (auto simp: buffered_rmqueue_idle)
next
  case (Cons x xs)
  have "rmqueue x 0 s = (PNull, s)"
    using rmqueue_order0_cases [OF Cons.prems(1), of x] Cons.prems(2,4) unfolding page_taken_def by auto
  moreover have "\<exists>p s'. alloc_pages g 0 (xs @ z # ys) s = (PPage p, s') \<and> page_taken s Z fl z p s'"
    using Cons.prems by (intro Cons.IH) auto
  ultimately show ?case using Cons.prems(3) by (simp add: buffered_rmqueue_idle)
qed

lemma alloc_pages_none:
  assumes "alloc_inv s Z fl" "set zs \<subseteq> Z" "pcp_idle s" "\<And>z. z \<in> set zs \<Longrightarrow> free_set fl z = {}"
  shows "alloc_pages g 0 zs s = (PMinusOne, s)"
  using assms(2,4)
proof (induction zs)
  case (Cons z zs)
  have "rmqueue z 0 s = (PNull, s)"
    using rmqueue_order0_cases [OF assms(1), of z] Cons.prems unfolding page_taken_def by auto
  with Cons show ?case by (simp add: buffered_rmqueue_idle assms(3))
qed simp

end
