(* ===== verification/BuddyProps.thy ===== *)
theory BuddyProps
  imports BuddyAlloc
begin

text \<open>
  The properties of the page allocator, with the states that show that their hypotheses can
  hold: one zone of 1024 pages, empty, or with a free block of eight pages.
\<close>

section \<open>Sequences of requests\<close>

text \<open>Order-0 requests to zones, one after the other; the pages they return.\<close>

fun order0_requests :: "nat list \<Rightarrow> mm \<Rightarrow> pgptr list \<times> mm" where
  "order0_requests [] s = ([], s)"
| "order0_requests (z # zs) s =
     (let (p, s1) = rmqueue z 0 s; (ps, s2) = order0_requests zs s1 in (p # ps, s2))"

definition granted :: "pgptr list \<Rightarrow> nat list" where
  "granted ps = concat (map (\<lambda>p. case p of PPage q \<Rightarrow> [q] | _ \<Rightarrow> []) ps)"

lemma granted_simps [simp]:
  "granted [] = []" "granted (PPage q # ps) = q # granted ps" "granted (PNull # ps) = granted ps"
  by (simp_all add: granted_def)

definition all_free :: "nat set \<Rightarrow> freelists \<Rightarrow> nat set" where
  "all_free Z fl = (\<Union>z\<in>Z. free_set fl z)"

lemma page_taken_all_free:
  assumes inv: "alloc_inv s Z fl" and z: "z \<in> Z" and t: "page_taken s Z fl z p s'"
  obtains fl' where "alloc_inv s' Z fl'" "all_free Z fl' = all_free Z fl - {p}" "p \<in> all_free Z fl"
proof -
  from t obtain fl' where fl': "alloc_inv s' Z fl'" "free_set fl' z = free_set fl z - {p}"
      "\<forall>x. x \<noteq> z \<longrightarrow> fl' x = fl x" and p: "p \<in> free_set fl z"
    unfolding page_taken_def by blast
  have o: "free_set fl' x = free_set fl x" if "x \<noteq> z" for x using fl'(3) that by (simp add: free_set_def)
  have "p \<notin> free_set fl x" if "x \<in> Z" "x \<noteq> z" for x
    using alloc_inv_free_zone [OF inv] z that p inv unfolding alloc_inv_def zones_apart_def by blast
  then have "free_set fl' x = free_set fl x - {p}" if "x \<in> Z" for x
    using that o fl'(2) by (cases "x = z") simp_all
  then have "all_free Z fl' = all_free Z fl - {p}" by (auto simp: all_free_def)
  then show ?thesis using that fl'(1) p z by (auto simp: all_free_def)
qed

lemma order0_requests_step:
  assumes "alloc_inv s Z fl" "set zs \<subseteq> Z" "order0_requests zs s = (ps, s')"
  shows "distinct (granted ps) \<and> set (granted ps) \<subseteq> all_free Z fl \<and> length ps = length zs
     \<and> set ps \<subseteq> insert PNull (range PPage)
     \<and> (\<exists>fl'. alloc_inv s' Z fl' \<and> all_free Z fl' = all_free Z fl - set (granted ps))"
  using assms
proof (induction zs arbitrary: s fl ps)
  case (Cons z zs)
  obtain p s1 where p: "rmqueue z 0 s = (p, s1)" by (metis surj_pair)
  obtain qs s2 where qs: "order0_requests zs s1 = (qs, s2)" by (metis surj_pair)
  have r: "ps = p # qs" "s' = s2" using Cons.prems(3) p qs by (simp_all add: Let_def)
  have z: "z \<in> Z" "set zs \<subseteq> Z" using Cons.prems(2) by simp_all
  from rmqueue_order0_cases [OF Cons.prems(1) z(1)] consider
      (none) "p = PNull" "s1 = s" | (some) q where "p = PPage q" "page_taken s Z fl z q s1"
    using p by auto
  then show ?case
  proof cases
    case none
    with Cons.IH [OF Cons.prems(1) z(2)] qs [folded r(2)] r(1) show ?thesis by auto
  next
    case some
    obtain fl' where f: "alloc_inv s1 Z fl'" "all_free Z fl' = all_free Z fl - {q}" "q \<in> all_free Z fl"
      by (rule page_taken_all_free [OF Cons.prems(1) z(1) some(2)])
    from Cons.IH [OF f(1) z(2) qs [folded r(2)]] f(2,3) r some(1) show ?thesis by auto
  qed
qed (auto simp: granted_def)

section \<open>Merging never drops the starting block\<close>

lemma free_pages_loop_covers:
  assumes "2 ^ k dvd i" "free_pages_loop z i k s = (i1, k1, s1)"
  shows "k \<le> k1 \<and> blk (b + i) k \<subseteq> blk (b + i1) k1"
  using assms
proof (induction z i k s rule: free_pages_loop.induct)
  case (1 z i k s)
  let ?i = "i XOR push_bit k 1" let ?p = "z_mem_map (zones s z) + ?i"
  show ?case
  proof (cases "k < MAX_ORDER - 1 \<and> \<not> not_in_zone z ?p s \<and> page_is_buddy ?p k s")
    case False
    with "1.prems"(2) have "(i1, k1) = (i, k)"
      by (subst (asm) free_pages_loop.simps) (auto simp: Let_def split: if_splits)
    then show ?thesis by simp
  next
    case True
    note bc = buddy_cases [OF "1.prems"(1)]
    let ?s = "upd_nr_free z (int k) (\<lambda>n. n - 1) (on_lists (list_del (Lru ?p)) s)"
    have "free_pages_loop z (i AND ?i) (Suc k) ?s = (i1, k1, s1)"
      using "1.prems"(2) True by (subst (asm) free_pages_loop.simps) (simp add: Let_def)
    with "1.IH" True bc(3) have "Suc k \<le> k1 \<and> blk (b + (i AND ?i)) (Suc k) \<subseteq> blk (b + i1) k1"
      by (simp add: Let_def)
    with bc(5) [of b] show ?thesis by auto
  qed
qed

lemma free_pages_loop_swallows:
  assumes "2 ^ k dvd i" "k < MAX_ORDER - 1" "free_pages_loop z i k s = (i1, k1, s1)"
    and "zone_base s z = b" "\<not> not_in_zone z (b + (i XOR push_bit k 1)) s"
    and "page_is_buddy (b + (i XOR push_bit k 1)) k s"
  shows "blk (b + (i XOR push_bit k 1)) k \<subseteq> blk (b + i1) k1"
proof -
  let ?i = "i XOR push_bit k 1" let ?p = "b + ?i"
  let ?s = "upd_nr_free z (int k) (\<lambda>n. n - 1) (on_lists (list_del (Lru ?p)) s)"
  note bc = buddy_cases [OF assms(1)]
  have "free_pages_loop z (i AND ?i) (Suc k) ?s = (i1, k1, s1)"
    using assms by (subst (asm) free_pages_loop.simps) (simp add: Let_def zone_base_def)
  from free_pages_loop_covers [OF bc(3) this, of b] bc(5) [of b] show ?thesis by blast
qed

section \<open>Example states\<close>

text \<open>
  One zone, number 1, of 1024 descriptors from index 0, each with the zone's number in its flags
  and count -1, as \<open>node_alloc_mem_map\<close> leaves the pages it frees; all free lists empty, and
  zero words below \<open>free_area\<close>.
\<close>

definition empty_fl :: freelists where
  "empty_fl = (\<lambda>z k. [])"

definition demo_empty :: mm where
  "demo_empty = \<lparr>mem_map = (\<lambda>p. page_zero\<lparr>pg_flags := push_bit 28 1, pg_count := - 1\<rparr>),
     lists = (let f = (\<lambda>n. case n of FreeHead z i \<Rightarrow> if i < 0 then NullN else n | _ \<Rightarrow> n)
              in \<lparr>prev = f, nxt = f\<rparr>),
     zones = (\<lambda>z. \<lparr>z_free_pages = 0, z_nr_free = (\<lambda>k. 0),
       z_pcp = (\<lambda>c. \<lparr>pcp_count = 0, pcp_low = 0, pcp_high = 0, pcp_batch = 0\<rparr>),
       z_mem_map = 0, z_spanned = 1024\<rparr>),
     zone_table = (\<lambda>z. if z = 1 then Some 1 else None)\<rparr>"

text \<open>The same with a free block of order 3 at page 8.\<close>

definition demo_eight :: mm where
  "demo_eight = upd_nr_free 1 3 (\<lambda>n. 1) (on_lists (list_add (FreeHead 1 3) (Lru 8)) demo_empty)"

definition eight_fl :: freelists where
  "eight_fl = set_fl empty_fl 1 3 [8]"

lemma demo_empty_rings: "family ring (flI {1}) flH (lists demo_empty) (flL empty_fl)"
  by (auto simp: family_def flI_def demo_empty_def empty_fl_def ring_Nil Let_def)

lemma demo_empty_inv: "buddy_inv demo_empty {1} empty_fl {}"
  unfolding buddy_inv_def
proof (intro conjI)
  show "zones_wf demo_empty {1}"
    by (simp add: zones_wf_def demo_empty_def zone_span_def)
  show "\<forall>z\<in>{1}. blocks_disjoint empty_fl z \<and> marks_covered demo_empty empty_fl {} z
      \<and> coalesced demo_empty empty_fl z"
    by (simp add: blocks_disjoint_def marks_covered_def coalesced_def empty_fl_def demo_empty_def
        free_mark_def flag_defs test_bit_w_def bit_simps)
qed (use demo_empty_rings in \<open>simp_all add: demo_empty_def empty_fl_def\<close>)

lemma demo_eight_inv: "alloc_inv demo_eight {1} eight_fl"
  unfolding alloc_inv_def
proof (intro conjI)
  have "Lru 8 \<notin> family_nodes (flI {1}) flH (flL empty_fl)"
    by (auto simp: family_nodes_def flI_def empty_fl_def)
  from rings.family_put [OF demo_empty_rings _ this, of "(1, 3)"]
  show "family ring (flI {1}) flH (lists demo_eight) (flL eight_fl)"
    by (simp add: demo_eight_def eight_fl_def flL_set_fl flI_def empty_fl_def)
  show "slot_ok demo_eight {1} eight_fl"
    by (simp add: slot_ok_def demo_eight_def demo_empty_def list_add_def list_add_between_def
        set_prev_def set_nxt_def Let_def)
  show "zones_apart demo_eight {1}" by (simp add: zones_apart_def)
  show "\<forall>z\<in>{1}. \<forall>k<MAX_ORDER. z_nr_free (zones demo_eight z) (int k) = of_nat (length (eight_fl z k))"
    by (simp add: demo_eight_def demo_empty_def eight_fl_def empty_fl_def)
  show "\<forall>z\<in>{1}. \<forall>k<MAX_ORDER. \<forall>p\<in>set (eight_fl z k). block_at demo_eight z k p"
    by (simp add: eight_fl_def empty_fl_def block_at_def zone_base_def zone_span_def demo_eight_def demo_empty_def)
  show "\<forall>z\<in>{1}. blocks_disjoint eight_fl z"
    by (simp add: blocks_disjoint_def eight_fl_def empty_fl_def)
qed

lemma demo_eight_free: "free_set eight_fl 1 = {8..<16}"
  by (auto simp: free_set_def eight_fl_def empty_fl_def blk_def split: if_splits)

lemma demo_eight_idle: "pcp_idle demo_eight"
  by (simp add: pcp_idle_def demo_eight_def demo_empty_def)

section \<open>The properties\<close>

text \<open>
  C1: \<open>__free_pages\<close> returns a block correctly. From a state whose free lists satisfy the buddy
  invariant (rings of disjoint, aligned, fully merged blocks, counted by \<open>nr_free\<close>), giving
  back a block that is not free succeeds, keeps the invariant, makes exactly the pages of the
  block free and leaves the other zones alone.
\<close>

theorem free_pages_correct:
  assumes "buddy_inv s Z fl {}" and "z \<in> Z" and "returnable s fl z pg k"
  shows "\<exists>s' fl'. free_pages pg k s = Some s' \<and> buddy_inv s' Z fl' {}
     \<and> free_set fl' z = free_set fl z \<union> blk pg k \<and> (\<forall>x. x \<noteq> z \<longrightarrow> fl' x = fl x)"
  using free_pages_inv [OF assms] by blast

theorem free_pages_correct_witness:
  "\<exists>s' fl'. free_pages 8 3 demo_empty = Some s' \<and> buddy_inv s' {1} fl' {}
     \<and> free_set fl' 1 = free_set empty_fl 1 \<union> blk 8 3 \<and> (\<forall>x. x \<noteq> 1 \<longrightarrow> fl' x = empty_fl x)"
proof (rule free_pages_correct [OF demo_empty_inv])
  show "returnable demo_empty empty_fl 1 8 3"
    by (simp add: returnable_def demo_empty_def zone_base_def zone_span_def free_set_def empty_fl_def
        flag_defs test_bit_w_def bit_simps page_count_def)
qed simp

text \<open>
  C2: \<open>__rmqueue\<close> at order 0. When the zone has no free page it returns null and changes
  nothing; otherwise it returns a page that was free, and afterwards exactly this page is no
  longer free, the lists still being rings of disjoint aligned blocks.
\<close>

theorem rmqueue_order0_correct:
  assumes "alloc_inv s Z fl" and "z \<in> Z"
  shows "(free_set fl z = {} \<and> rmqueue z 0 s = (PNull, s))
     \<or> (\<exists>p s' fl'. rmqueue z 0 s = (PPage p, s') \<and> p \<in> free_set fl z \<and> alloc_inv s' Z fl'
          \<and> free_set fl' z = free_set fl z - {p} \<and> (\<forall>x. x \<noteq> z \<longrightarrow> fl' x = fl x))"
  using rmqueue_order0_cases [OF assms] unfolding page_taken_def by blast

theorem rmqueue_order0_correct_witness:
  "\<exists>p s' fl'. rmqueue 1 0 demo_eight = (PPage p, s') \<and> p \<in> {8..<16} \<and> alloc_inv s' {1} fl'
     \<and> free_set fl' 1 = {8..<16} - {p}"
  using rmqueue_order0_correct [OF demo_eight_inv, of 1] demo_eight_free by auto

text \<open>
  C3: no page is handed out twice by any sequence of order-0 requests, to whatever zones, and
  the pages granted are exactly those that stop being free.
\<close>

theorem order0_requests_distinct:
  assumes "alloc_inv s Z fl" and "set zs \<subseteq> Z" and "order0_requests zs s = (ps, s')"
  shows "distinct (granted ps) \<and> set (granted ps) \<subseteq> all_free Z fl
     \<and> (\<exists>fl'. alloc_inv s' Z fl' \<and> all_free Z fl' = all_free Z fl - set (granted ps))"
  using order0_requests_step [OF assms] by blast

theorem order0_requests_distinct_witness:
  "distinct (granted (fst (order0_requests [1, 1, 1] demo_eight)))
     \<and> set (granted (fst (order0_requests [1, 1, 1] demo_eight))) \<subseteq> {8..<16}"
proof -
  obtain ps s' where e: "order0_requests [1, 1, 1] demo_eight = (ps, s')" by (metis surj_pair)
  have "all_free {1} eight_fl = {8..<16}" unfolding all_free_def using demo_eight_free by simp
  with order0_requests_distinct [OF demo_eight_inv _ e] show ?thesis unfolding e by simp
qed

text \<open>
  A request of order \<open>k + 1\<close> hands out a block whose upper half \<open>expand\<close> has put back on
  the list of order \<open>k\<close>: the next request of order \<open>k\<close> is granted memory the first caller owns.
\<close>

theorem rmqueue_hands_out_twice:
  assumes "alloc_inv s Z fl" and "z \<in> Z" and "Suc k \<le> h" and "h < MAX_ORDER" and "fl z h = p # ps"
    and "\<forall>i. k \<le> i \<and> i < h \<longrightarrow> fl z i = []"
  shows "\<exists>s1 s2. rmqueue z (Suc k) s = (PPage p, s1) \<and> rmqueue z k s1 = (PPage (p + 2 ^ k), s2)
     \<and> blk (p + 2 ^ k) k \<subseteq> blk p (Suc k)"
proof -
  obtain s1 fl' where s1: "rmqueue z (Suc k) s = (PPage p, s1)"
      "family ring (flI Z) flH (lists s1) (flL fl')" "fl' z k = fl z k @ [p + 2 ^ k]"
    using rmqueue_upper_half_listed [of s Z fl z k h p ps] assms by auto
  then have "fl' z k = [p + 2 ^ k]" using assms(3,6) by simp
  then have "rmqueue z k s1 = (PPage (p + 2 ^ k), snd (rmqueue z k s1))"
    using rmqueue_hit [OF s1(2) assms(2), of k k] assms(3,4) by simp
  with s1(1) show ?thesis by (intro exI [of _ s1] exI) (auto simp: blk_def)
qed

theorem rmqueue_hands_out_twice_witness:
  "\<exists>s1 s2. rmqueue 1 (Suc 1) demo_eight = (PPage 8, s1) \<and> rmqueue 1 1 s1 = (PPage (8 + 2 ^ 1), s2)
     \<and> blk (8 + 2 ^ 1) 1 \<subseteq> blk 8 (Suc 1)"
  by (rule rmqueue_hands_out_twice [OF demo_eight_inv, where h = 3 and ps = "[]"])
     (auto simp: eight_fl_def empty_fl_def)

text \<open>
  C19: a page that \<open>__rmqueue\<close> grants keeps its private flag and order 0, so when the other page of
  its pair is freed the merging loop takes the granted page for a free buddy and the block it
  builds contains it.
\<close>

theorem freeing_buddy_swallows_granted_page:
  assumes "alloc_inv s Z fl" and "z \<in> Z" and "rmqueue z 0 s = (PPage p, s')"
    and "pg_count (mem_map s p) = - 1" and "\<not> PageReserved (mem_map s p)"
    and "q = buddy_page s z 0 p" and "free_pages_loop z (q - zone_base s z) 0 s' = (i1, k1, s1)"
  shows "p \<in> blk (zone_base s z + i1) k1"
proof -
  have t: "page_taken s Z fl z p s'" using rmqueue_order0_cases [OF assms(1,2)] assms(3) by auto
  then have p: "p \<in> zone_pages s z"
    using alloc_inv_free_zone [OF assms(1,2)] unfolding page_taken_def by blast
  define i where "i = (p - zone_base s z) XOR push_bit 0 1"
  have q: "q - zone_base s z = i" using assms(6) by (simp add: buddy_page_def i_def)
  have "i XOR push_bit 0 1 = p - zone_base s z"
    using buddy_cases(7) [of 0 "p - zone_base s z"] by (simp add: i_def)
  then have ret: "zone_base s z + (i XOR push_bit 0 1) = p" using p by (simp add: zone_pages_def)
  have k: "desc_kept (mem_map s p) (mem_map s' p)" using t by (simp add: page_taken_def)
  have b: "page_is_buddy p 0 s'"
    using t k assms(4,5)
    by (simp add: page_is_buddy_def page_order_def page_count_def page_taken_def desc_kept_def)
  have n: "\<not> not_in_zone z p s'"
    using t p unfolding not_in_zone_def page_taken_def zone_pages_def zone_base_def zone_span_def by auto
  have base: "zone_base s' z = zone_base s z" using t by (simp add: page_taken_def)
  have "blk (zone_base s z + (i XOR push_bit 0 1)) 0 \<subseteq> blk (zone_base s z + i1) k1"
    by (rule free_pages_loop_swallows [OF _ _ assms(7) [unfolded q] base])
       (simp_all only: ret b n, simp_all)
  then show ?thesis using ret by (simp add: blk_def)
qed

theorem freeing_buddy_swallows_granted_page_witness:
  "8 \<in> blk (fst (free_pages_loop 1 9 0 (snd (rmqueue 1 0 demo_eight))))
     (fst (snd (free_pages_loop 1 9 0 (snd (rmqueue 1 0 demo_eight)))))"
proof -
  obtain i1 k1 s1 where l: "free_pages_loop 1 9 0 (snd (rmqueue 1 0 demo_eight)) = (i1, k1, s1)"
    by (metis prod_cases3)
  have r: "rmqueue 1 0 demo_eight = (PPage 8, snd (rmqueue 1 0 demo_eight))"
    using rmqueue_order0_some [OF demo_eight_inv, of 1 3 8 "[]"] by (auto simp: eight_fl_def empty_fl_def)
  have b: "zone_base demo_eight 1 = 0" by (simp add: demo_eight_def demo_empty_def zone_base_def)
  have q: "9 = buddy_page demo_eight 1 0 8" unfolding buddy_page_def b by simp
  have d: "pg_count (mem_map demo_eight 8) = - 1" "\<not> PageReserved (mem_map demo_eight 8)"
    by (simp_all add: demo_eight_def demo_empty_def flag_defs test_bit_w_def bit_simps)
  have l': "free_pages_loop 1 (9 - zone_base demo_eight 1) 0 (snd (rmqueue 1 0 demo_eight)) = (i1, k1, s1)"
    unfolding b using l by simp
  have "8 \<in> blk (zone_base demo_eight 1 + i1) k1"
    by (rule freeing_buddy_swallows_granted_page [OF demo_eight_inv _ r d q l']) simp
  then show ?thesis using l b by simp
qed

text \<open>
  \<open>__alloc_pages\<close> for one page with idle per-cpu buffers: the first zone of the zonelist that
  has a free page serves it, and exactly that page stops being free.
\<close>

theorem alloc_pages_serves_first_zone:
  assumes "alloc_inv s Z fl" and "set (xs @ z # ys) \<subseteq> Z" and "pcp_idle s"
    and "\<forall>x\<in>set xs. free_set fl x = {}" and "free_set fl z \<noteq> {}"
  shows "\<exists>p s' fl'. alloc_pages g 0 (xs @ z # ys) s = (PPage p, s') \<and> p \<in> free_set fl z
     \<and> alloc_inv s' Z fl' \<and> free_set fl' z = free_set fl z - {p} \<and> (\<forall>x. x \<noteq> z \<longrightarrow> fl' x = fl x)"
  using alloc_pages_first [of s Z fl xs z ys g] assms unfolding page_taken_def by blast

theorem alloc_pages_serves_first_zone_witness:
  "\<exists>p s' fl'. alloc_pages 0 0 ([] @ 1 # []) demo_eight = (PPage p, s') \<and> p \<in> free_set eight_fl 1
     \<and> alloc_inv s' {1} fl' \<and> free_set fl' 1 = free_set eight_fl 1 - {p} \<and> (\<forall>x. x \<noteq> 1 \<longrightarrow> fl' x = eight_fl x)"
  by (rule alloc_pages_serves_first_zone [OF demo_eight_inv _ demo_eight_idle])
     (simp_all add: demo_eight_free [unfolded One_nat_def])

text \<open>
  When no zone of the zonelist has a free page, \<open>__alloc_pages\<close> returns
  \<open>(struct page *)-1\<close>, which is not the null pointer its callers test for.
\<close>

theorem alloc_pages_exhausted:
  assumes "alloc_inv s Z fl" and "set zs \<subseteq> Z" and "pcp_idle s" and "\<forall>z\<in>set zs. free_set fl z = {}"
  shows "alloc_pages g 0 zs s = (PMinusOne, s) \<and> fst (alloc_pages g 0 zs s) \<noteq> PNull"
  using alloc_pages_none [of s Z fl zs g] assms by simp

lemma demo_empty_alloc: "alloc_inv demo_empty {1} empty_fl"
  by (rule buddy_inv_alloc_inv [OF demo_empty_inv]) (simp add: slot_ok_def demo_empty_def Let_def)

theorem alloc_pages_exhausted_witness:
  "alloc_pages 0 0 [1] demo_empty = (PMinusOne, demo_empty) \<and> fst (alloc_pages 0 0 [1] demo_empty) \<noteq> PNull"
  by (rule alloc_pages_exhausted [OF demo_empty_alloc])
     (simp_all add: pcp_idle_def demo_empty_def free_set_def empty_fl_def)

end
