(* ===== verification/MmInit.thy ===== *)
theory MmInit
  imports BuddyAlloc
begin

text \<open>
  Setting up memory management: \<open>kernel/kernel/mm_init.c\<close> and \<open>kernel/arch/i386/mm.c\<close>. The
  kernel's page tables, the memory map of the boot loader, the descriptors and zones, and the
  zonelists. Linker symbols (the end of the kernel image) are arguments.
\<close>

section \<open>The page tables\<close>

definition PGDIR_SHIFT :: nat where "PGDIR_SHIFT = 22"
definition PTRS_PER_PGD :: nat where "PTRS_PER_PGD = 2 ^ 10"
definition PTRS_PER_PTE :: nat where "PTRS_PER_PTE = 2 ^ 10"

definition pgd_index :: "u32 \<Rightarrow> u32" where
  "pgd_index address = drop_bit PGDIR_SHIFT address AND (of_nat PTRS_PER_PGD - 1)"

definition PAGE_PRESENT :: u32 where "PAGE_PRESENT = 0x001"
definition PAGE_RW :: u32 where "PAGE_RW = 0x002"
definition PAGE_ACCESSED :: u32 where "PAGE_ACCESSED = 0x020"
definition PAGE_DIRTY :: u32 where "PAGE_DIRTY = 0x040"
definition PAGE_NX :: u32 where "PAGE_NX = 0"

definition PAGE_KERNEL :: u32 where
  "PAGE_KERNEL = PAGE_PRESENT OR PAGE_RW OR PAGE_DIRTY OR PAGE_ACCESSED OR PAGE_NX"

definition PAGE_KERNEL_EXEC :: u32 where
  "PAGE_KERNEL_EXEC = PAGE_PRESENT OR PAGE_RW OR PAGE_DIRTY OR PAGE_ACCESSED"

definition pfn_pte :: "u32 \<Rightarrow> u32 \<Rightarrow> u32" where
  "pfn_pte pfn v = push_bit PAGE_SHIFT pfn OR v"

definition is_kernel_text :: "u32 \<Rightarrow> u32 \<Rightarrow> u32 \<Rightarrow> bool" where
  "is_kernel_text phys_start virt_end address \<longleftrightarrow>
     address > PAGE_OFFSET + phys_start \<and> address < virt_end"

text \<open>
  Memory is a map from the addresses of words to their values: every access here is to an
  aligned word. \<open>set_ptes\<close> is the inner loop with \<open>n\<close> rounds to go; its address argument is
  not recomputed inside the loop.
\<close>

type_synonym words = "u32 \<Rightarrow> u32"

definition set_pte :: "u32 \<Rightarrow> u32 \<Rightarrow> words \<Rightarrow> words" where
  [simp]: "set_pte a b m = m(a := b)"

definition set_pgd :: "u32 \<Rightarrow> u32 \<Rightarrow> words \<Rightarrow> words" where
  [simp]: "set_pgd a b m = m(a := b)"

fun set_ptes :: "bool \<Rightarrow> nat \<Rightarrow> u32 \<Rightarrow> u32 \<Rightarrow> words \<Rightarrow> u32 \<times> u32 \<times> words" where
  "set_ptes text 0 pte pfn m = (pte, pfn, m)"
| "set_ptes text (Suc n) pte pfn m =
     set_ptes text n (pte + 4) (pfn + 1)
       (set_pte pte (pfn_pte pfn (if text then PAGE_KERNEL_EXEC else PAGE_KERNEL)) m)"

definition pgd_entry :: "u32 \<Rightarrow> u32" where
  "pgd_entry pte_base = (pte_base AND PAGE_MASK OR PAGE_RW OR PAGE_PRESENT) - PAGE_OFFSET"

fun init_pgds :: "u32 \<Rightarrow> u32 \<Rightarrow> nat \<Rightarrow> u32 \<Rightarrow> u32 \<Rightarrow> u32 \<Rightarrow> words \<Rightarrow> u32 \<times> words" where
  "init_pgds ks ke 0 pgd pte pfn m = (pte, m)"
| "init_pgds ks ke (Suc n) pgd pte pfn m =
     (let address = pfn * PAGE_SIZE + PAGE_OFFSET;
          (pte', pfn', m1) = set_ptes (is_kernel_text ks ke address) PTRS_PER_PTE pte pfn m
      in init_pgds ks ke n (pgd + 4) pte' pfn' (set_pgd pgd (pgd_entry pte) m1))"

text \<open>\<open>init_page_table\<close>: the value of \<open>page_desc_start\<close> and memory.\<close>

definition init_page_table :: "u32 \<Rightarrow> u32 \<Rightarrow> u32 \<Rightarrow> u32 \<Rightarrow> words \<Rightarrow> u32 \<times> words" where
  "init_page_table ks ke pgd_base pte_base m =
     (let i = unat (pgd_index PAGE_OFFSET)
      in init_pgds ks ke (PTRS_PER_PGD - i) (pgd_base + 4 * of_nat i) pte_base 0 m)"

text \<open>\<open>page_start = ((unsigned long)&page_start + (~PAGE_MASK)) & PAGE_MASK\<close>\<close>

definition page_start_of :: "u32 \<Rightarrow> u32" where
  "page_start_of end = (end + NOT PAGE_MASK) AND PAGE_MASK"

section \<open>The boot loader's memory map\<close>

text \<open>
  An entry, packed: \<open>size\<close> at 0, \<open>addr\<close> at 4, \<open>len\<close> at 12, \<open>type\<close> at 20. The loop reads it
  through \<open>rd\<close>. It stops when the remaining length is exactly zero, so on a map whose sizes do
  not add up it goes on for ever, or until the length wraps.
\<close>

record mmap_entry =
  mm_size :: u32
  mm_addr :: u64
  mm_len :: u64
  mm_type :: u32

definition MULTIBOOT_MEMORY_AVAILABLE :: u32 where "MULTIBOOT_MEMORY_AVAILABLE = 1"

definition pfn_layout_step :: "mmap_entry \<Rightarrow> u32 \<Rightarrow> u32" where
  "pfn_layout_step e max_pfn =
     (if mm_type e = MULTIBOOT_MEMORY_AVAILABLE
         \<and> scast max_pfn < PFN_DOWN (mm_addr e + ucast (mm_size e))
      then ucast (PFN_DOWN (mm_addr e + mm_len e)) else max_pfn)"

partial_function (option) find_pfn_loop ::
    "(u32 \<Rightarrow> mmap_entry) \<Rightarrow> u32 \<Rightarrow> u32 \<Rightarrow> u32 \<Rightarrow> u32 option" where
  "find_pfn_loop rd ptr len max_pfn =
     (if len = 0 then Some max_pfn
      else let e = rd ptr
           in find_pfn_loop rd (ptr + mm_size e + 4) (len - (mm_size e + 4)) (pfn_layout_step e max_pfn))"

text \<open>The pair \<open>max_pfn\<close>, \<open>max_low_pfn\<close>; \<open>max_pfn\<close> is a global that starts at 0.\<close>

definition find_pfn_layout :: "(u32 \<Rightarrow> mmap_entry) \<Rightarrow> u32 \<Rightarrow> u32 \<Rightarrow> (u32 \<times> u32) option" where
  "find_pfn_layout rd mmap_addr mmap_length =
     map_option (\<lambda>p. (p, PFN_DOWN MAX_LOW_MEM)) (find_pfn_loop rd mmap_addr mmap_length 0)"

section \<open>Zones and descriptors\<close>

text \<open>\<open>zone_init_free_lists\<close>: in the code's order, zones outside, orders inside.\<close>

definition init_free_list :: "nat \<Rightarrow> nat \<Rightarrow> mm \<Rightarrow> mm" where
  "init_free_list z k s = upd_nr_free z (int k) (\<lambda>n. 0) (on_lists (init_list (FreeHead z (int k))) s)"

definition zone_init_free_lists :: "mm \<Rightarrow> mm" where
  "zone_init_free_lists s =
     fold (\<lambda>z s. fold (init_free_list z) [0..<MAX_ORDER] s) [0..<MAX_NR_ZONES] s"

definition zones_size_of :: "u32 \<Rightarrow> u32 \<Rightarrow> nat \<Rightarrow> u32" where
  "zones_size_of max_pfn max_low_pfn =
     (let max_dma_pfn = drop_bit PAGE_SHIFT (virt_to_phys MAX_DMA_ADDRESS);
          low = max_low_pfn; high = max_pfn
      in if low < max_dma_pfn then (\<lambda>z. 0)(DMA_ZONE := low)
         else (\<lambda>z. 0)(DMA_ZONE := max_dma_pfn, NORMAL_ZONE := low - max_dma_pfn,
                      HIGH_ZONE := high - low))"

text \<open>The \<open>while\<close> loop that clears the descriptors of one zone; \<open>count\<close> cannot wrap.\<close>

function init_zone_pages :: "nat \<Rightarrow> u32 \<Rightarrow> u32 \<Rightarrow> mm \<Rightarrow> u32 \<times> mm" where
  "init_zone_pages z cnt limit s =
     (if cnt < limit then
        init_zone_pages z (cnt + 1) limit
          (upd_page (unat cnt) (\<lambda>p. page_zero\<lparr>pg_flags := pg_flags page_zero OR push_bit NODEZONE_SHIFT (of_nat z)\<rparr>) s)
      else (cnt, s))"
  by pat_completeness auto
termination
proof (relation "measure (\<lambda>(z, cnt, limit, s). unat limit - unat cnt)", goal_cases)
  case (2 z cnt limit s)
  then have l: "unat cnt < unat limit" by (simp add: word_less_nat_alt)
  then have "unat (cnt + 1) = Suc (unat cnt)"
    using 2 by (intro unat_add_one_less)
  with l show ?case by simp
qed simp

declare init_zone_pages.simps [simp del]

fun init_zones :: "nat list \<Rightarrow> (nat \<Rightarrow> u32) \<Rightarrow> u32 \<Rightarrow> u32 \<Rightarrow> mm \<Rightarrow> mm" where
  "init_zones [] zone_size cnt limit s = s"
| "init_zones (i # is) zone_size cnt limit s =
     (let s1 = upd_zone i (\<lambda>zn. zn\<lparr>z_mem_map := unat cnt, z_spanned := zone_size i\<rparr>) s;
          limit' = limit + zone_size i;
          (cnt', s2) = init_zone_pages i cnt limit' s1
      in init_zones is zone_size cnt' limit' s2)"

definition SIZEOF_PAGE :: u32 where "SIZEOF_PAGE = 48"

text \<open>Which frames stay reserved, by the two bounds that \<open>node_alloc_mem_map\<close> computes.\<close>

definition reserved_frame :: "u32 \<Rightarrow> u32 \<Rightarrow> u32 \<Rightarrow> bool" where
  "reserved_frame rev_page_end rev_kernel_end i \<longleftrightarrow>
     (i \<le> rev_page_end \<and> i > drop_bit PAGE_SHIFT 0x01000000) \<or> i < rev_kernel_end"

definition release_frame :: "u32 \<Rightarrow> u32 \<Rightarrow> nat \<Rightarrow> mm \<Rightarrow> mm option" where
  "release_frame pe ke i s =
     (let s1 = upd_page i (\<lambda>p. p\<lparr>pg_private := 0\<rparr>) s
      in if reserved_frame pe ke (of_nat i) then
           Some (upd_page i (\<lambda>p. (SetPageReserved p)\<lparr>pg_count := 0\<rparr>) s1)
         else free_page i (upd_page i (\<lambda>p. p\<lparr>pg_count := - 1\<rparr>) s1))"

fun release_frames :: "u32 \<Rightarrow> u32 \<Rightarrow> nat list \<Rightarrow> mm \<Rightarrow> mm option" where
  "release_frames pe ke [] s = Some s"
| "release_frames pe ke (i # is) s =
     (case release_frame pe ke i s of None \<Rightarrow> None | Some s1 \<Rightarrow> release_frames pe ke is s1)"

text \<open>
  \<open>node_alloc_mem_map\<close>. \<open>desc\<close> is \<open>page_desc_start\<close>, where the descriptors lie; \<open>kend\<close> is the
  end of the kernel image.
\<close>

definition node_alloc_mem_map :: "u32 \<Rightarrow> u32 \<Rightarrow> u32 \<Rightarrow> (nat \<Rightarrow> u32) \<Rightarrow> mm \<Rightarrow> mm option" where
  "node_alloc_mem_map desc kend max_pfn zone_size s =
     (let page_desc_size = max_pfn * SIZEOF_PAGE;
          rev_kernel_end = drop_bit PAGE_SHIFT (pa kend);
          rev_page_end = kaddr_to_pfn (desc + page_desc_size);
          s1 = init_zones [0..<MAX_NR_ZONES] zone_size 0 0 s;
          s2 = s1\<lparr>zone_table := (\<lambda>z. if z < MAX_NR_ZONES then Some z else zone_table s1 z)\<rparr>
      in release_frames rev_page_end rev_kernel_end [0..<nat (sint max_pfn)] s2)"

definition zone_sizes_init :: "u32 \<Rightarrow> u32 \<Rightarrow> u32 \<Rightarrow> u32 \<Rightarrow> mm \<Rightarrow> mm option" where
  "zone_sizes_init desc kend max_pfn max_low_pfn s =
     node_alloc_mem_map desc kend max_pfn (zones_size_of max_pfn max_low_pfn) s"

section \<open>Zonelists\<close>

definition GFP_DMA :: u32 where "GFP_DMA = 0x01"
definition GFP_HIGH :: u32 where "GFP_HIGH = 0x20"

type_synonym zonelist = "nat \<Rightarrow> nat option"

text \<open>The \<open>while (DMA|HIGH)\<close> loop; every round clears one of the two.\<close>

function zonelist_loop :: "u32 \<Rightarrow> u32 \<Rightarrow> nat \<Rightarrow> zonelist \<Rightarrow> nat \<times> zonelist" where
  "zonelist_loop dma high p zl =
     (if dma OR high \<noteq> 0 then
        if dma \<noteq> 0 then zonelist_loop 0 high (Suc p) (zl(p := Some DMA_ZONE))
        else if high \<noteq> 0 then zonelist_loop dma 0 (Suc p) (zl(p := Some HIGH_ZONE))
        else zonelist_loop dma high (Suc p) zl
      else (p, zl))"
  by pat_completeness auto
termination
  by (relation "measure (\<lambda>(dma, high, p, zl). (if dma = 0 then 0 else 1) + (if high = 0 then 0 else 1))") auto

declare zonelist_loop.simps [simp del]

definition build_zonelist :: "nat \<Rightarrow> zonelist \<Rightarrow> zonelist" where
  "build_zonelist i zl =
     (let (p, zl') = zonelist_loop (GFP_DMA AND of_nat i) (GFP_HIGH AND of_nat i) 0 zl
      in zl'(p := Some NORMAL_ZONE))"

definition init_build_zonelist :: "(nat \<Rightarrow> zonelist) \<Rightarrow> nat \<Rightarrow> zonelist" where
  "init_build_zonelist zls = (\<lambda>i. if i < GFP_ZONETYPES then build_zonelist i (zls i) else zls i)"

section \<open>The whole start\<close>

text \<open>
  \<open>mm_page_init\<close>, less the loading of \<open>cr3\<close> and the message. \<open>ps\<close> is the address of the variable
  \<open>page_start\<close>, \<open>pgd\<close> that of \<open>global_page_dir\<close>, \<open>kend\<close> that of \<open>__kernel_virtual_address_end\<close>.
  \<open>is_kernel_text\<close> reads the linker symbols as variables: \<open>ks\<close> and \<open>ke\<close> are the words stored
  at their addresses. A memory map on which the scan does not end
  gives \<^const>\<open>None\<close>.
\<close>

definition mm_page_init ::
    "(u32 \<Rightarrow> mmap_entry) \<Rightarrow> u32 \<Rightarrow> u32 \<Rightarrow> u32 \<Rightarrow> u32 \<Rightarrow> u32 \<Rightarrow> u32 \<Rightarrow> u32
     \<Rightarrow> words \<times> mm \<times> (nat \<Rightarrow> zonelist) \<Rightarrow> (words \<times> mm \<times> (nat \<Rightarrow> zonelist)) option" where
  "mm_page_init rd mmap_addr mmap_length ps pgd ks ke kend st =
     (case st of (m, s, zls) \<Rightarrow>
        case find_pfn_layout rd mmap_addr mmap_length of
          None \<Rightarrow> None
        | Some (max_pfn, max_low_pfn) \<Rightarrow>
            let (desc, m') = init_page_table ks ke pgd (page_start_of ps) m
            in case zone_sizes_init desc kend max_pfn max_low_pfn (zone_init_free_lists s) of
                 None \<Rightarrow> None
               | Some s' \<Rightarrow> Some (m', s', init_build_zonelist zls))"

section \<open>The page tables map the kernel\<close>

lemma step4_inj:
  assumes "(pte :: u32) + 4 * of_nat j = pte + 4 * of_nat i" "j < 2 ^ 30" "i < 2 ^ 30"
  shows "j = i"
proof -
  have e: "unat (4 * of_nat n :: u32) = 4 * n" if "n < 2 ^ 30" for n
  proof -
    have "(4 * of_nat n :: u32) = of_nat (4 * n)" by simp
    moreover have "unat (of_nat (4 * n) :: u32) = 4 * n"
      by (rule word32_of_nat_unat_id) (use that in simp)
    ultimately show ?thesis by simp
  qed
  from assms(1) have "(4 * of_nat j :: u32) = 4 * of_nat i" by simp
  then have "unat (4 * of_nat j :: u32) = unat (4 * of_nat i :: u32)" by simp
  then show ?thesis using e [OF assms(2)] e [OF assms(3)] by simp
qed

lemma kernel_prot: "(if t then PAGE_KERNEL_EXEC else PAGE_KERNEL) = 0x63"
  by (simp add: PAGE_KERNEL_def PAGE_KERNEL_EXEC_def PAGE_PRESENT_def PAGE_RW_def PAGE_DIRTY_def
      PAGE_ACCESSED_def PAGE_NX_def)

lemma set_ptes_spec:
  assumes "set_ptes t n pte pfn m = (pte', pfn', m')" "n < 2 ^ 30"
  shows "pte' = pte + 4 * of_nat n \<and> pfn' = pfn + of_nat n
     \<and> (\<forall>j<n. m' (pte + 4 * of_nat j) = pfn_pte (pfn + of_nat j) 0x63)
     \<and> (\<forall>a. (\<forall>j<n. a \<noteq> pte + 4 * of_nat j) \<longrightarrow> m' a = m a)"
  using assms
proof (induction n arbitrary: pte pfn m)
  case (Suc n)
  define m1 where "m1 = m(pte := pfn_pte pfn 0x63)"
  have r: "set_ptes t n (pte + 4) (pfn + 1) m1 = (pte', pfn', m')"
    using Suc.prems(1) by (simp add: m1_def kernel_prot)
  have ih: "pte' = pte + 4 + 4 * of_nat n" "pfn' = pfn + 1 + of_nat n"
     "\<forall>j<n. m' (pte + 4 + 4 * of_nat j) = pfn_pte (pfn + 1 + of_nat j) 0x63"
     "\<forall>a. (\<forall>j<n. a \<noteq> pte + 4 + 4 * of_nat j) \<longrightarrow> m' a = m1 a"
    using Suc.IH [OF r] Suc.prems(2) by simp_all
  have s: "pte + 4 + 4 * of_nat j = pte + 4 * of_nat (Suc j)" for j by simp
  have z: "pte \<noteq> pte + 4 * of_nat (Suc j)" if "j < n" for j
    using step4_inj [of pte 0 "Suc j"] that Suc.prems(2) by auto
  have "m' (pte + 4 * of_nat j) = pfn_pte (pfn + of_nat j) 0x63" if "j < Suc n" for j
  proof (cases j)
    case 0
    have "m' pte = m1 pte" using ih(4) z unfolding s by blast
    with 0 show ?thesis by (simp add: m1_def)
  next
    case (Suc i)
    with ih(3) that show ?thesis unfolding s by (simp add: algebra_simps)
  qed
  moreover have "m' a = m a" if "\<forall>j<Suc n. a \<noteq> pte + 4 * of_nat j" for a
  proof -
    have "a \<noteq> pte" using that by force
    moreover have "m' a = m1 a"
      using ih(4) that unfolding s by (metis Suc_less_eq)
    ultimately show ?thesis by (simp add: m1_def)
  qed
  ultimately show ?case using ih(1,2) by (simp add: algebra_simps)
qed simp

text \<open>All rounds of the outer loop; the page directory and the page tables are apart.\<close>

lemma init_pgds_spec:
  assumes "init_pgds ks ke n pgd pte pfn m = (pte', m')" "n \<le> 1024"
    and "\<And>k j. k < n \<Longrightarrow> j < 1024 * n \<Longrightarrow> pgd + 4 * of_nat k \<noteq> pte + 4 * of_nat j"
  shows "pte' = pte + 4 * of_nat (1024 * n)
     \<and> (\<forall>j<1024 * n. m' (pte + 4 * of_nat j) = pfn_pte (pfn + of_nat j) 0x63)
     \<and> (\<forall>k<n. m' (pgd + 4 * of_nat k) = pgd_entry (pte + 4096 * of_nat k))
     \<and> (\<forall>a. (\<forall>j<1024 * n. a \<noteq> pte + 4 * of_nat j) \<longrightarrow> (\<forall>k<n. a \<noteq> pgd + 4 * of_nat k) \<longrightarrow> m' a = m a)"
  using assms
proof (induction n arbitrary: pgd pte pfn m)
  case (Suc n)
  define t where "t = is_kernel_text ks ke (pfn * PAGE_SIZE + PAGE_OFFSET)"
  obtain pte1 pfn1 m1 where l: "set_ptes t 1024 pte pfn m = (pte1, pfn1, m1)" by (metis prod_cases3)
  note L = set_ptes_spec [OF l, simplified]
  define m2 where "m2 = m1(pgd := pgd_entry pte)"
  have r: "init_pgds ks ke n (pgd + 4) pte1 pfn1 m2 = (pte', m')"
    using Suc.prems(1) l by (simp add: t_def m2_def PTRS_PER_PTE_def)
  have p1: "pte1 + 4 * of_nat j = pte + 4 * of_nat (1024 + j)" for j
    using L by (simp add: algebra_simps)
  have g1: "pgd + 4 + 4 * of_nat k = pgd + 4 * of_nat (Suc k)" for k by simp
  have ap: "pgd + 4 * of_nat k \<noteq> pte + 4 * of_nat j" if "k < Suc n" "j < 1024 * Suc n" for k j
    by (rule Suc.prems(3) [OF that])
  have ih: "pte' = pte1 + 4 * of_nat (1024 * n)"
     "\<forall>j<1024 * n. m' (pte1 + 4 * of_nat j) = pfn_pte (pfn1 + of_nat j) 0x63"
     "\<forall>k<n. m' (pgd + 4 + 4 * of_nat k) = pgd_entry (pte1 + 4096 * of_nat k)"
     "\<forall>a. (\<forall>j<1024 * n. a \<noteq> pte1 + 4 * of_nat j) \<longrightarrow> (\<forall>k<n. a \<noteq> pgd + 4 + 4 * of_nat k) \<longrightarrow> m' a = m2 a"
  proof -
    have "pgd + 4 + 4 * of_nat k \<noteq> pte1 + 4 * of_nat j" if "k < n" "j < 1024 * n" for k j
      unfolding p1 g1 by (rule ap) (use that in simp_all)
    from Suc.IH [OF r _ this] Suc.prems(2)
    show "pte' = pte1 + 4 * of_nat (1024 * n)"
     "\<forall>j<1024 * n. m' (pte1 + 4 * of_nat j) = pfn_pte (pfn1 + of_nat j) 0x63"
     "\<forall>k<n. m' (pgd + 4 + 4 * of_nat k) = pgd_entry (pte1 + 4096 * of_nat k)"
     "\<forall>a. (\<forall>j<1024 * n. a \<noteq> pte1 + 4 * of_nat j) \<longrightarrow> (\<forall>k<n. a \<noteq> pgd + 4 + 4 * of_nat k) \<longrightarrow> m' a = m2 a"
      by simp_all
  qed
  have early: "m' (pte + 4 * of_nat j) = pfn_pte (pfn + of_nat j) 0x63" if j: "j < 1024" for j
  proof -
    have "pte + 4 * of_nat j \<noteq> pte1 + 4 * of_nat i" if "i < 1024 * n" for i
      unfolding p1 using step4_inj [of pte j "1024 + i"] j that Suc.prems(2) by auto
    moreover have "pte + 4 * of_nat j \<noteq> pgd + 4 + 4 * of_nat k" if "k < n" for k
      unfolding g1 using ap [of "Suc k" j] that j by simp
    ultimately have "m' (pte + 4 * of_nat j) = m2 (pte + 4 * of_nat j)" using ih(4) by blast
    moreover have "pgd \<noteq> pte + 4 * of_nat j" using ap [of 0 j] j by simp
    ultimately show ?thesis using L j by (simp add: m2_def)
  qed
  have "m' (pte + 4 * of_nat j) = pfn_pte (pfn + of_nat j) 0x63" if "j < 1024 * Suc n" for j
  proof (cases "j < 1024")
    case False
    then obtain i where i: "j = 1024 + i" using le_Suc_ex [of 1024 j] by auto
    have "m' (pte1 + 4 * of_nat i) = pfn_pte (pfn1 + of_nat i) 0x63" using ih(2) that i by simp
    then show ?thesis unfolding p1 i using L by (simp add: algebra_simps)
  qed (rule early)
  moreover have "m' (pgd + 4 * of_nat k) = pgd_entry (pte + 4096 * of_nat k)" if "k < Suc n" for k
  proof (cases k)
    case 0
    have "pgd \<noteq> pte1 + 4 * of_nat j" if "j < 1024 * n" for j
      unfolding p1 using ap [of 0 "1024 + j"] that by simp
    moreover have "pgd \<noteq> pgd + 4 + 4 * of_nat i" if "i < n" for i
      unfolding g1 using step4_inj [of pgd 0 "Suc i"] that Suc.prems(2) by auto
    ultimately have "m' pgd = m2 pgd" using ih(4) by blast
    with 0 show ?thesis by (simp add: m2_def)
  next
    case (Suc i)
    with ih(3) that have "m' (pgd + 4 + 4 * of_nat i) = pgd_entry (pte1 + 4096 * of_nat i)" by simp
    then show ?thesis unfolding g1 Suc using L by (simp add: algebra_simps)
  qed
  moreover have "m' a = m a"
    if "\<forall>j<1024 * Suc n. a \<noteq> pte + 4 * of_nat j" "\<forall>k<Suc n. a \<noteq> pgd + 4 * of_nat k" for a
  proof -
    have "a \<noteq> pte1 + 4 * of_nat j" if "j < 1024 * n" for j
      unfolding p1 by (rule \<open>\<forall>j<1024 * Suc n. a \<noteq> pte + 4 * of_nat j\<close> [rule_format]) (use that in simp)
    moreover have "a \<noteq> pgd + 4 + 4 * of_nat k" if "k < n" for k
      unfolding g1 using \<open>\<forall>k<Suc n. a \<noteq> pgd + 4 * of_nat k\<close> that by (simp del: of_nat_Suc)
    ultimately have "m' a = m2 a" using ih(4) by blast
    moreover have "a \<noteq> pgd" using that(2) [rule_format, of 0] by simp
    moreover have "m1 a = m a" using L that(1) by simp
    ultimately show ?thesis by (simp add: m2_def)
  qed
  moreover have "pte' = pte + 4 * of_nat (1024 * Suc n)" using ih(1) L by (simp add: algebra_simps)
  ultimately show ?case by blast
qed simp

text \<open>
  The processor's translation of a linear address through the directory at kernel address
  \<open>pgd\<close>: two levels of 4-byte entries, bit 0 present, the upper 20 bits a frame. It reads
  physical memory, which the kernel sees at \<open>PAGE_OFFSET\<close>.
\<close>

definition mmu_walk :: "words \<Rightarrow> u32 \<Rightarrow> u32 \<Rightarrow> u32 option" where
  "mmu_walk m pgd a =
     (let pde = m (pgd + 4 * drop_bit 22 a)
      in if \<not> bit pde 0 then None
         else let pte = m (va (pde AND NOT (mask 12)) + 4 * (drop_bit 12 a AND mask 10))
              in if \<not> bit pte 0 then None
                 else Some ((pte AND NOT (mask 12)) OR (a AND mask 12)))"

lemma frame_low:
  assumes "take_bit 12 c = (c :: u32)"
  shows "(push_bit 12 q OR c) AND NOT (mask 12) = push_bit 12 q"
proof -
  have c: "\<not> bit c n" if "12 \<le> n" for n
    using that assms by (metis bit_take_bit_iff not_le)
  show ?thesis by (rule bit_eqI) (use c in \<open>auto simp: bit_simps\<close>)
qed

lemma pgd_entry_frame:
  assumes "pte = push_bit 12 (q :: u32)"
  shows "va (pgd_entry pte AND NOT (mask 12)) = pte" and "bit (pgd_entry pte) 0"
proof -
  have off: "PAGE_OFFSET = push_bit 12 0xc0000" by (simp add: PAGE_OFFSET_def)
  have m: "PAGE_MASK = NOT (mask 12)" by (simp add: PAGE_MASK_def PAGE_SIZE_def PAGE_SHIFT_def mask_eq_exp_minus_1)
  have three: "PAGE_RW OR PAGE_PRESENT = 3" by (simp add: PAGE_RW_def PAGE_PRESENT_def)
  have t: "take_bit 12 (3 :: u32) = 3" by simp
  have t': "\<not> bit (3 :: u32) n" if "12 \<le> n" for n using that t by (metis bit_take_bit_iff not_le)
  have "pte AND PAGE_MASK = pte"
    unfolding assms m by (rule bit_eqI) (auto simp: bit_simps)
  then have "pgd_entry pte = (pte OR 3) - PAGE_OFFSET"
    unfolding pgd_entry_def by (metis or.assoc three)
  also have "pte OR 3 = pte + 3"
    unfolding assms by (rule disjunctive_add [symmetric]) (use t' in \<open>auto simp: bit_push_bit_iff\<close>)
  also have "pte + 3 - PAGE_OFFSET = (pte - PAGE_OFFSET) + 3" by simp
  also have "pte - PAGE_OFFSET = push_bit 12 (q - 0xc0000)"
    unfolding assms off by (simp add: push_bit_eq_mult algebra_simps)
  also have "\<dots> + 3 = push_bit 12 (q - 0xc0000) OR 3"
    by (rule disjunctive_add) (use t' in \<open>auto simp: bit_push_bit_iff\<close>)
  finally have e: "pgd_entry pte = push_bit 12 (q - 0xc0000) OR 3" .
  show "bit (pgd_entry pte) 0" unfolding e by (simp add: bit_simps)
  have "va (pgd_entry pte AND NOT (mask 12)) = push_bit 12 (q - 0xc0000) + PAGE_OFFSET"
    unfolding e frame_low [OF t] by (simp add: va_def)
  then show "va (pgd_entry pte AND NOT (mask 12)) = pte"
    unfolding assms off by (simp add: push_bit_eq_mult algebra_simps)
qed

lemma kernel_indices:
  assumes "x < 2 ^ 30"
  shows "drop_bit 22 (PAGE_OFFSET + x) = 768 + of_nat (unat x div 2 ^ 22)"
    and "drop_bit 12 (PAGE_OFFSET + x) AND mask 10 = of_nat (unat x div 2 ^ 12 mod 2 ^ 10)"
    and "(PAGE_OFFSET + x) AND mask 12 = x AND mask 12"
proof -
  have x: "unat x < 2 ^ 30" using assms by (simp add: word_less_nat_alt)
  have u: "unat (PAGE_OFFSET + x) = 3221225472 + unat x"
    using x by (subst unat_add_small) (simp_all add: PAGE_OFFSET_def)
  have "unat (drop_bit 22 (PAGE_OFFSET + x)) = 768 + unat x div 2 ^ 22"
    by (simp add: drop_bit_eq_div unat_div_distrib u)
  then show "drop_bit 22 (PAGE_OFFSET + x) = 768 + of_nat (unat x div 2 ^ 22)"
    by (drule_tac word_of_unat_eq) simp
  have "(786432 * 4096 + unat x) div 4096 = 786432 + unat x div 4096"
    by (rule div_mult_self3) simp
  moreover have "(768 * 1024 + unat x div 4096) mod 1024 = unat x div 4096 mod 1024"
    by (rule mod_mult_self3)
  ultimately have q: "(3221225472 + unat x) div 4096 mod 1024 = unat x div 4096 mod 1024" by simp
  have "unat (drop_bit 12 (PAGE_OFFSET + x) AND mask 10) = unat x div 2 ^ 12 mod 2 ^ 10"
    using x by (simp add: drop_bit_eq_div unat_div_distrib u unsigned_and_eq flip: take_bit_eq_mask)
      (simp add: take_bit_eq_mod unat_mod_distrib unat_div_distrib u q)
  then show "drop_bit 12 (PAGE_OFFSET + x) AND mask 10 = of_nat (unat x div 2 ^ 12 mod 2 ^ 10)"
    by (rule word_of_unat_eq)
  have "(786432 * 4096 + unat x) mod 4096 = unat x mod 4096" by (rule mod_mult_self3)
  then have "unat (take_bit 12 (PAGE_OFFSET + x)) = unat (take_bit 12 x)"
    by (simp add: take_bit_eq_mod unat_mod_distrib u)
  then show "(PAGE_OFFSET + x) AND mask 12 = x AND mask 12"
    by (simp add: take_bit_eq_mask word_unat_eq_iff)
qed

lemma init_page_table_walk:
  assumes r: "init_page_table ks ke pgd pte m = (pte', m')" and al: "pte = push_bit 12 q"
    and ap: "\<And>k j. k < 1024 \<Longrightarrow> j < 2 ^ 18 \<Longrightarrow> pgd + 4 * of_nat k \<noteq> pte + 4 * of_nat j"
    and x: "x < 2 ^ 30"
  shows "mmu_walk m' pgd (PAGE_OFFSET + x) = Some x" and "pte' = pte + 0x100000"
proof -
  let ?X = "unat x"
  have X: "?X < 2 ^ 30" using x by (simp add: word_less_nat_alt)
  have i: "unat (pgd_index PAGE_OFFSET) = 768"
    by (simp add: pgd_index_def PAGE_OFFSET_def PGDIR_SHIFT_def PTRS_PER_PGD_def)
  then have r': "init_pgds ks ke 256 (pgd + 4 * of_nat 768) pte 0 m = (pte', m')"
    using r unfolding init_page_table_def by (simp add: Let_def PTRS_PER_PGD_def)
  have g: "pgd + 4 * of_nat 768 + 4 * of_nat k = pgd + 4 * of_nat (768 + k)" for k by (simp add: algebra_simps)
  have "pgd + 4 * of_nat 768 + 4 * of_nat k \<noteq> pte + 4 * of_nat j" if "k < 256" "j < 1024 * 256" for k j
    unfolding g by (rule ap) (use that in simp_all)
  note S = init_pgds_spec [OF r' _ this, simplified]
  from S show "pte' = pte + 0x100000" by simp
  let ?k = "?X div 2 ^ 22" and ?j = "?X div 2 ^ 12"
  have k: "?k < 256" and j: "?j < 262144" using X by (simp_all add: less_mult_imp_div_less)
  have jk: "?j = 1024 * ?k + ?j mod 1024"
  proof -
    have "?k = ?j div 1024" by (simp add: div_mult2_eq [symmetric])
    then show ?thesis by simp
  qed
  have pde: "m' (pgd + 4 * drop_bit 22 (PAGE_OFFSET + x)) = pgd_entry (pte + 4096 * of_nat ?k)"
  proof -
    have "m' (pgd + 3072 + 4 * of_nat ?k) = pgd_entry (pte + 4096 * of_nat ?k)" using S k by simp
    moreover have "pgd + 4 * (768 + of_nat ?k) = pgd + 3072 + 4 * of_nat ?k"
      by (simp add: distrib_left add.assoc)
    ultimately show ?thesis unfolding kernel_indices(1) [OF x] by (simp only:)
  qed
  have al': "pte + 4096 * of_nat ?k = push_bit 12 (q + of_nat ?k)"
    unfolding al by (simp add: push_bit_eq_mult algebra_simps)
  note E = pgd_entry_frame [OF al']
  have "pte + 4096 * of_nat ?k + 4 * of_nat (?j mod 1024) = pte + 4 * of_nat (1024 * ?k + ?j mod 1024)"
    by (simp add: algebra_simps)
  also have "\<dots> = pte + 4 * of_nat ?j" by (simp only: jk [symmetric])
  finally have e: "pte + 4096 * of_nat ?k + 4 * of_nat (?j mod 1024) = pte + 4 * of_nat ?j" .
  have "m' (pte + 4096 * of_nat ?k + 4 * of_nat (?j mod 1024)) = pfn_pte (of_nat ?j) 0x63"
    unfolding e using S j by simp
  moreover have "of_nat ?j = drop_bit 12 x"
    by (rule word_of_unat_eq [symmetric]) (simp add: drop_bit_eq_div unat_div_distrib)
  ultimately have pte: "m' (va (pgd_entry (pte + 4096 * of_nat ?k) AND NOT (mask 12))
      + 4 * (drop_bit 12 (PAGE_OFFSET + x) AND mask 10)) = push_bit 12 (drop_bit 12 x) OR 0x63"
    unfolding E(1) kernel_indices(2) [OF x] pfn_pte_def PAGE_SHIFT_def by simp
  have "bit (push_bit 12 (drop_bit 12 x) OR (0x63 :: u32)) 0" by (simp add: bit_simps)
  moreover have "(push_bit 12 (drop_bit 12 x) OR 0x63) AND NOT (mask 12) = push_bit 12 (drop_bit 12 x)"
    by (rule frame_low) simp
  moreover have "push_bit 12 (drop_bit 12 x) OR x AND mask 12 = x"
    by (rule bit_eqI) (auto simp: bit_simps)
  ultimately show "mmu_walk m' pgd (PAGE_OFFSET + x) = Some x"
    unfolding mmu_walk_def Let_def pde pte kernel_indices(3) [OF x] using E(2) by simp
qed

end
