(* ===== verification/MmInitProps.thy ===== *)
theory MmInitProps
  imports MmInit
begin

text \<open>
  What the start-up code establishes: the free memory the buddy allocator starts with, the
  zonelists and the number of page frames read from the boot loader's memory map.
\<close>

section \<open>Descriptors and zones\<close>

definition fresh_page :: "nat \<Rightarrow> page" where
  "fresh_page z = page_zero\<lparr>pg_flags := push_bit 28 (of_nat z)\<rparr>"

lemma init_zone_pages_map:
  assumes "init_zone_pages z cnt limit s = (cnt', s')"
  shows "cnt' = (if cnt < limit then limit else cnt)
    \<and> s' = s\<lparr>mem_map := (\<lambda>p. if unat cnt \<le> p \<and> p < unat limit then fresh_page z else mem_map s p)\<rparr>"
  using assms
proof (induction z cnt limit s rule: init_zone_pages.induct)
  case (1 z cnt limit s)
  define s1 where "s1 = upd_page (unat cnt) (\<lambda>p. fresh_page z) s"
  have f: "upd_page (unat cnt) (\<lambda>p. page_zero\<lparr>pg_flags := pg_flags page_zero OR push_bit NODEZONE_SHIFT (of_nat z)\<rparr>) s = s1"
    by (simp add: s1_def fresh_page_def page_zero_def)
  show ?case
  proof (cases "cnt < limit")
    case False
    with 1 have "cnt' = cnt" "s' = s" by (simp_all add: init_zone_pages.simps)
    moreover have "\<not> unat cnt < unat limit" using False by (simp add: word_less_nat_alt)
    then have "(\<lambda>p. if unat cnt \<le> p \<and> p < unat limit then fresh_page z else mem_map s p) = mem_map s"
      by (intro ext) auto
    ultimately show ?thesis using False by simp
  next
    case True
    have r: "init_zone_pages z (cnt + 1) limit s1 = (cnt', s')"
      using "1.prems" True f by (subst (asm) init_zone_pages.simps) simp
    have u: "unat (cnt + 1) = Suc (unat cnt)" using True by (rule unat_add_one_less)
    have l: "unat cnt < unat limit" using True by (simp add: word_less_nat_alt)
    have c: "\<not> cnt + 1 < limit \<Longrightarrow> cnt + 1 = limit"
      using u l by (simp add: word_less_nat_alt word_unat_eq_iff)
    have ih: "cnt' = (if cnt + 1 < limit then limit else cnt + 1)"
      "s' = s1\<lparr>mem_map := (\<lambda>p. if unat (cnt + 1) \<le> p \<and> p < unat limit then fresh_page z else mem_map s1 p)\<rparr>"
      using "1.IH" [OF True] r unfolding f by simp_all
    have m: "(\<lambda>p. if Suc (unat cnt) \<le> p \<and> p < unat limit then fresh_page z else mem_map s1 p)
       = (\<lambda>p. if unat cnt \<le> p \<and> p < unat limit then fresh_page z else mem_map s p)"
      using l by (auto simp: fun_eq_iff s1_def)
    have "s' = s\<lparr>mem_map := (\<lambda>p. if unat cnt \<le> p \<and> p < unat limit then fresh_page z else mem_map s p)\<rparr>"
      using ih(2) unfolding u m by (simp add: s1_def upd_page_def)
    moreover have "cnt' = limit" using ih(1) c by (auto split: if_splits)
    ultimately show ?thesis using True by simp
  qed
qed

section \<open>Releasing the frames\<close>

text \<open>Writing a descriptor outside free memory.\<close>

lemma buddy_inv_upd_page:
  assumes inv: "buddy_inv s Z fl P" and p: "\<And>z. z \<in> Z \<Longrightarrow> p \<notin> free_set fl z"
    and n: "drop_bit 28 (pg_flags (f (mem_map s p))) = drop_bit 28 (pg_flags (mem_map s p))"
    and m: "\<not> free_mark (f (mem_map s p))"
  shows "buddy_inv (upd_page p f s) Z fl P"
proof -
  have base: "zone_base (upd_page p f s) = zone_base s" "zone_span (upd_page p f s) = zone_span s"
    "zone_pages (upd_page p f s) = zone_pages s"
    by (simp_all add: zone_base_def zone_span_def zone_pages_def fun_eq_iff)
  have "zones_wf (upd_page p f s) Z" using inv n by (auto simp: buddy_inv_def zones_wf_def base)
  moreover have "block_ok (upd_page p f s) z k q" if "z \<in> Z" "k < MAX_ORDER" "q \<in> set (fl z k)" for z k q
  proof -
    have "q \<in> free_set fl z" using that blk_start unfolding mem_free_set by blast
    with p [OF that(1)] have "q \<noteq> p" by blast
    with buddy_inv_block_ok [OF inv that] show ?thesis by (simp add: block_ok_def base)
  qed
  moreover have "marks_covered (upd_page p f s) fl P z" if "z \<in> Z" for z
    using inv that m by (auto simp: buddy_inv_def marks_covered_def base)
  moreover have "coalesced (upd_page p f s) fl z" if "z \<in> Z" for z
    using inv that by (simp add: buddy_inv_def coalesced_def buddy_page_def base)
  ultimately show ?thesis using inv by (simp add: buddy_inv_def)
qed

text \<open>
  The state when the frames below \<open>i\<close> have been dealt with: the zones' free memory is their
  unreserved part below \<open>i\<close>, and the descriptors from \<open>i\<close> on are as cleared.
\<close>

definition released :: "u32 \<Rightarrow> u32 \<Rightarrow> nat set \<Rightarrow> nat \<Rightarrow> (nat \<Rightarrow> nat set) \<Rightarrow> (nat \<Rightarrow> lnode) \<Rightarrow> mm \<Rightarrow> freelists \<Rightarrow> bool" where
  "released pe ke Z i zp sl s fl \<longleftrightarrow> buddy_inv s Z fl {} \<and> zone_pages s = zp \<and> slots s = sl
     \<and> (\<forall>z\<in>Z. free_set fl z = {p \<in> zp z. p < i \<and> \<not> reserved_frame pe ke (of_nat p)})
     \<and> (\<forall>z\<in>Z. \<forall>p\<in>zp z. i \<le> p \<longrightarrow> mem_map s p = fresh_page z)"

lemma fresh_facts [simp]:
  "\<not> PagePrivate (fresh_page z)" "\<not> PageReserved (fresh_page z)" "pg_flags (fresh_page z) = push_bit 28 (of_nat z)"
  by (simp_all add: fresh_page_def flag_defs test_bit_w_def bit_simps page_zero_def)

lemma zone_pages_alt: "p \<in> zone_pages s z \<longleftrightarrow> zone_base s z \<le> p \<and> p < zone_base s z + zone_span s z"
  by (simp add: zone_pages_def)

lemma zone_pages_cong:
  "(\<And>x. zone_base s' x = zone_base s x \<and> zone_span s' x = zone_span s x) \<Longrightarrow> zone_pages s' = zone_pages s"
  by (simp add: zone_pages_def fun_eq_iff)

lemma release_frame_step:
  assumes inv: "released pe ke Z i zp sl s fl" and z: "z \<in> Z" "i \<in> zp z"
  shows "\<exists>s' fl'. release_frame pe ke i s = Some s' \<and> released pe ke Z (Suc i) zp sl s' fl'"
proof -
  have bi: "buddy_inv s Z fl {}" and zp: "zone_pages s = zp" and sl: "slots s = sl"
    and fs: "\<And>x. x \<in> Z \<Longrightarrow> free_set fl x = {p \<in> zp x. p < i \<and> \<not> reserved_frame pe ke (of_nat p)}"
    and fresh: "\<And>x p. x \<in> Z \<Longrightarrow> p \<in> zp x \<Longrightarrow> i \<le> p \<Longrightarrow> mem_map s p = fresh_page x"
    using inv by (simp_all add: released_def)
  have wf: "zones_wf s Z" using bi by (simp add: buddy_inv_def)
  have apart: "i \<notin> zp x" if "x \<in> Z" "x \<noteq> z" for x
    using zone_pages_disjoint [OF wf z(1) that] z(2) unfolding zp by blast
  have ni: "i \<notin> free_set fl x" if "x \<in> Z" for x using fs [OF that] by simp
  define f where "f = (if reserved_frame pe ke (of_nat i)
     then (\<lambda>p. (SetPageReserved (p\<lparr>pg_private := 0\<rparr>))\<lparr>pg_count := 0\<rparr>)
     else (\<lambda>p. p\<lparr>pg_private := 0, pg_count := - 1\<rparr>))"
  let ?t = "upd_page i f s"
  have up: "upd_page i g (upd_page i h s) = upd_page i (\<lambda>p. g (h p)) s" for g h
    by (simp add: upd_page_def)
  have mi: "mem_map s i = fresh_page z" using fresh [OF z] by simp
  have priv: "\<not> PagePrivate (f (fresh_page z))"
    unfolding f_def by (simp add: flag_defs test_bit_w_def bit_simps bit_bts)
  have top: "drop_bit 28 (pg_flags (f (fresh_page z))) = drop_bit 28 (pg_flags (fresh_page z))"
    unfolding f_def by (simp add: flag_defs drop_bits_bts)
  have bt: "buddy_inv ?t Z fl {}"
    by (rule buddy_inv_upd_page [OF bi ni]) (use mi priv top in \<open>simp_all add: free_mark_def\<close>)
  have zt: "zone_pages ?t = zp" "slots ?t = sl"
    using zp sl by (simp_all add: zone_pages_def zone_base_def zone_span_def slots_def fun_eq_iff)
  have mo: "mem_map ?t p = mem_map s p" if "p \<noteq> i" for p using that by simp
  show ?thesis
  proof (cases "reserved_frame pe ke (of_nat i)")
    case True
    have "release_frame pe ke i s = Some ?t"
      using True by (simp add: release_frame_def up f_def)
    moreover have "released pe ke Z (Suc i) zp sl ?t fl"
      unfolding released_def using bt zt fs fresh True mo by (auto simp: less_Suc_eq)
    ultimately show ?thesis by blast
  next
    case False
    have "returnable ?t fl z i 0"
      using z ni [OF z(1)] zt(1) mi priv False unfolding returnable_def f_def
      by (auto simp: zone_pages_alt [symmetric] blk_def page_count_def fresh_page_def flag_defs
          test_bit_w_def bit_simps page_zero_def Suc_le_eq)
    from free_pages_inv [OF bt z(1) this] obtain s' fl' where
      r: "free_pages i 0 ?t = Some s'" "buddy_inv s' Z fl' {}" "free_set fl' z = free_set fl z \<union> blk i 0"
        "\<forall>x. x \<noteq> z \<longrightarrow> fl' x = fl x" "\<And>x. zone_base s' x = zone_base ?t x \<and> zone_span s' x = zone_span ?t x"
        "slots s' = slots ?t" "\<And>p. p \<notin> free_set fl z \<union> blk i 0 \<Longrightarrow> mem_map s' p = mem_map ?t p"
      by blast
    have "release_frame pe ke i s = Some s'"
      using False r(1) by (simp add: release_frame_def up f_def free_page_def)
    moreover have "free_set fl' x = {p \<in> zp x. p < Suc i \<and> \<not> reserved_frame pe ke (of_nat p)}"
      if x: "x \<in> Z" for x
    proof (cases "x = z")
      case True
      with r(3) fs [OF x] z(2) False show ?thesis by (auto simp: blk_def less_Suc_eq)
    next
      case False
      then have "free_set fl' x = free_set fl x" using r(4) by (simp add: free_set_def)
      with fs [OF x] apart [OF x False] show ?thesis by (auto simp: less_Suc_eq)
    qed
    moreover have "mem_map s' p = fresh_page x" if "x \<in> Z" "p \<in> zp x" "Suc i \<le> p" for x p
      using r(7) [of p] fs [OF z(1)] fresh [OF that(1,2)] that(3) by (simp add: blk_def)
    moreover have "zone_pages s' = zp" using zone_pages_cong [of s' ?t] r(5) zt by simp
    ultimately show ?thesis using r(2,6) zt(2) unfolding released_def by blast
  qed
qed

lemma release_frames_all:
  assumes "released pe ke Z i zp sl s fl" and "\<And>p. i \<le> p \<Longrightarrow> p < n \<Longrightarrow> \<exists>z\<in>Z. p \<in> zp z" and "i \<le> n"
  shows "\<exists>s' fl'. release_frames pe ke [i..<n] s = Some s' \<and> released pe ke Z n zp sl s' fl'"
  using assms
proof (induction "n - i" arbitrary: i s fl)
  case (Suc d)
  then have i: "i < n" by simp
  with Suc.prems(2) [of i] obtain z where z: "z \<in> Z" "i \<in> zp z" by auto
  obtain s1 fl1 where s1: "release_frame pe ke i s = Some s1" "released pe ke Z (Suc i) zp sl s1 fl1"
    using release_frame_step [OF Suc.prems(1) z] by blast
  have "\<exists>s' fl'. release_frames pe ke [Suc i..<n] s1 = Some s' \<and> released pe ke Z n zp sl s' fl'"
    using Suc.hyps(2) Suc.prems(2) i by (intro Suc.hyps(1) [OF _ s1(2)]) auto
  moreover have "release_frames pe ke [i..<n] s = release_frames pe ke [Suc i..<n] s1"
    using i s1(1) by (simp add: upt_conv_Cons)
  ultimately show ?case by simp
qed auto

section \<open>The empty lists\<close>

definition heads_of :: "nat \<Rightarrow> nat set \<Rightarrow> lnode set" where
  "heads_of z K = (\<lambda>k. FreeHead z (int k)) ` K"

lemma init_free_lists_zone:
  defines "r \<equiv> \<lambda>z ks s. fold (init_free_list z) ks s"
  shows "nxt (lists (r z ks s)) x = (if x \<in> heads_of z (set ks) then x else nxt (lists s) x)"
    and "prev (lists (r z ks s)) x = (if x \<in> heads_of z (set ks) then x else prev (lists s) x)"
    and "z_nr_free (zones (r z ks s) y) i
      = (if y = z \<and> i \<in> int ` set ks then 0 else z_nr_free (zones s y) i)"
    and "mem_map (r z ks s) = mem_map s" and "zone_table (r z ks s) = zone_table s"
    and "z_pcp (zones (r z ks s) y) = z_pcp (zones s y)"
  unfolding r_def
  by (induction ks arbitrary: s)
     (auto simp: init_free_list_def heads_of_def init_list_def set_prev_def set_nxt_def)

lemma zone_init_free_lists_facts:
  assumes "z < MAX_NR_ZONES" "k < MAX_ORDER"
  shows "nxt (lists (zone_init_free_lists s)) (FreeHead z (int k)) = FreeHead z (int k)"
    and "prev (lists (zone_init_free_lists s)) (FreeHead z (int k)) = FreeHead z (int k)"
    and "z_nr_free (zones (zone_init_free_lists s) z) (int k) = 0"
proof -
  have z: "z = 0 \<or> z = 1 \<or> z = 2" using assms(1) by auto
  have e: "[0..<MAX_NR_ZONES] = [0, 1, 2]" by (simp add: upt_rec)
  note F = init_free_lists_zone
  show "nxt (lists (zone_init_free_lists s)) (FreeHead z (int k)) = FreeHead z (int k)"
    "prev (lists (zone_init_free_lists s)) (FreeHead z (int k)) = FreeHead z (int k)"
    "z_nr_free (zones (zone_init_free_lists s) z) (int k) = 0"
    using z assms(2) unfolding zone_init_free_lists_def e
    by (elim disjE; simp add: F heads_of_def image_iff)+
qed

lemma zone_init_free_lists_slots: "slots (zone_init_free_lists s) = slots s"
  "z_pcp (zones (zone_init_free_lists s) y) = z_pcp (zones s y)"
proof -
  have e: "[0..<MAX_NR_ZONES] = [0, 1, 2]" by (simp add: upt_rec)
  note F = init_free_lists_zone
  show "slots (zone_init_free_lists s) = slots s"
    unfolding zone_init_free_lists_def e by (rule ext) (auto simp: slots_def F heads_of_def)
  show "z_pcp (zones (zone_init_free_lists s) y) = z_pcp (zones s y)"
    unfolding zone_init_free_lists_def e by (simp add: F)
qed

section \<open>The zones of a machine with no high memory\<close>

lemma low_pfns: "PFN_DOWN MAX_LOW_MEM = 229376"
  by (simp add: PFN_DOWN_def MAX_LOW_MEM_def PAGE_OFFSET_def PAGE_SHIFT_def push_bit_eq_mult)

lemma dma_pfns: "drop_bit PAGE_SHIFT (virt_to_phys MAX_DMA_ADDRESS) = 4096"
  by (simp add: virt_to_phys_def pa_def MAX_DMA_ADDRESS_def PAGE_SHIFT_def)

lemma low_zone_sizes:
  "zones_size_of n 229376 = (\<lambda>z. 0)(0 := 4096, 1 := 225280, 2 := n - 229376)"
  unfolding zones_size_of_def dma_pfns by (simp add: Let_def)

definition low_zones :: "nat \<Rightarrow> nat set" where
  "low_zones z = (if z = 0 then {..<4096} else if z = 1 then {4096..<229376} else {})"

text \<open>
  The state that the three rounds over the zones leave: only the zones' extents and the
  descriptors change.
\<close>

definition zone_extents :: "u32 \<Rightarrow> (nat \<Rightarrow> zone) \<Rightarrow> nat \<Rightarrow> zone" where
  "zone_extents n zs = zs(0 := (zs 0)\<lparr>z_mem_map := 0, z_spanned := 4096\<rparr>,
     1 := (zs 1)\<lparr>z_mem_map := 4096, z_spanned := 225280\<rparr>,
     2 := (zs 2)\<lparr>z_mem_map := 229376, z_spanned := n - 229376\<rparr>)"

lemma init_zones_low:
  assumes "n \<le> 229376"
  shows "\<exists>m. init_zones [0..<MAX_NR_ZONES] (zones_size_of n 229376) 0 0 s
      = s\<lparr>zones := zone_extents n (zones s), mem_map := m\<rparr>
    \<and> (\<forall>p < 4096. m p = fresh_page 0) \<and> (\<forall>p. 4096 \<le> p \<and> p < 229376 \<longrightarrow> m p = fresh_page 1)"
proof -
  have e: "[0..<MAX_NR_ZONES] = [0, 1, 2]" by (simp add: upt_rec)
  let ?f = "zones_size_of n 229376"
  have f: "?f 0 = 4096" "?f 1 = 225280" "?f 2 = n - 229376" unfolding low_zone_sizes by simp_all
  define s0 where "s0 = upd_zone 0 (\<lambda>zn. zn\<lparr>z_mem_map := 0, z_spanned := 4096\<rparr>) s"
  obtain c0 t0 where t0: "init_zone_pages 0 0 4096 s0 = (c0, t0)" by (metis surj_pair)
  note T0 = init_zone_pages_map [OF t0]
  define s1 where "s1 = upd_zone 1 (\<lambda>zn. zn\<lparr>z_mem_map := 4096, z_spanned := 225280\<rparr>) t0"
  obtain c1 t1 where t1: "init_zone_pages 1 4096 229376 s1 = (c1, t1)" by (metis surj_pair)
  note T1 = init_zone_pages_map [OF t1]
  define s2 where "s2 = upd_zone 2 (\<lambda>zn. zn\<lparr>z_mem_map := 229376, z_spanned := n - 229376\<rparr>) t1"
  have nl: "\<not> 229376 < n" using assms by simp
  have t2: "init_zone_pages 2 229376 n s2 = (229376, s2)"
    using nl by (simp add: init_zone_pages.simps)
  have c: "c0 = 4096" "c1 = 229376" using T0 T1 by simp_all
  have r: "init_zones [0, 1, 2] ?f 0 0 s = s2"
    using t0 t1 t2 c by (simp add: f s0_def [symmetric] s1_def [symmetric] s2_def [symmetric] del: One_nat_def)
  have z: "zones s2 = zone_extents n (zones s)"
    using T0 T1 by (simp add: s2_def s1_def s0_def zone_extents_def fun_eq_iff)
  have m: "mem_map s2 = mem_map t1" by (simp add: s2_def)
  have "s2 = s\<lparr>zones := zone_extents n (zones s), mem_map := mem_map t1\<rparr>"
    using z T0 T1 by (cases s) (simp add: s2_def s1_def s0_def upd_zone_def)
  moreover have "mem_map t1 p = (if p < 4096 then fresh_page 0 else if p < 229376 then fresh_page 1 else mem_map s p)" for p
    using T0 T1 by (simp add: s1_def s0_def)
  ultimately show ?thesis unfolding e r by (intro exI [of _ "mem_map t1"]) simp
qed

definition no_fl :: freelists where
  "no_fl = (\<lambda>z k. [])"

lemma low_boot_released:
  fixes m :: "nat \<Rightarrow> page" and s0 :: mm and n :: u32
  defines "s \<equiv> zone_init_free_lists s0"
  defines "t \<equiv> s\<lparr>zones := zone_extents n (zones s), mem_map := m,
     zone_table := (\<lambda>z. if z < MAX_NR_ZONES then Some z else zone_table s z)\<rparr>"
  assumes m: "\<And>p. p < 4096 \<Longrightarrow> m p = fresh_page 0" "\<And>p. 4096 \<le> p \<and> p < 229376 \<Longrightarrow> m p = fresh_page 1"
  shows "released pe ke {0, 1} 0 (zone_pages t) (slots s0) t no_fl"
    and "zone_pages t 0 = {..<4096}" and "zone_pages t 1 = {4096..<229376}"
proof -
  have lists: "lists t = lists s" by (simp add: t_def)
  have zp: "zone_pages t 0 = {..<4096}" "zone_pages t 1 = {4096..<229376}"
    by (auto simp: t_def zone_pages_def zone_base_def zone_span_def zone_extents_def)
  then show "zone_pages t 0 = {..<4096}" "zone_pages t 1 = {4096..<229376}" .
  have span: "zone_span t 0 = 4096" "zone_span t 1 = 225280"
    by (simp_all add: t_def zone_span_def zone_extents_def)
  have mm: "mem_map t = m" by (simp add: t_def)
  have fresh: "mem_map t p = fresh_page z" if "z \<in> {0, 1}" "p \<in> zone_pages t z" for z p
    using that m [of p] by (auto simp: mm zp [simplified])
  have wf: "zones_wf t {0, 1}"
    unfolding zones_wf_def
  proof
    fix z :: nat assume z: "z \<in> {0, 1}"
    have "zone_table t z = Some z" using z by (auto simp: t_def)
    moreover have "1024 dvd zone_span t z" using z span by auto
    moreover have "unat (drop_bit 28 (pg_flags (mem_map t p))) = z" if "p \<in> zone_pages t z" for p
      using fresh [OF z that] z by auto
    ultimately show "zone_table t z = Some z \<and> 1024 dvd zone_span t z
        \<and> (\<forall>p\<in>zone_pages t z. unat (drop_bit 28 (pg_flags (mem_map t p))) = z)" by blast
  qed
  have rings: "family ring (flI {0, 1}) flH (lists t) (flL no_fl)"
    unfolding lists s_def
    by (auto simp: family_def flI_def no_fl_def ring_Nil
        zone_init_free_lists_facts [of 0, simplified] zone_init_free_lists_facts [of 1, simplified])
  have nr: "z_nr_free (zones t z) (int k) = 0" if "z \<in> {0, 1}" "k < MAX_ORDER" for z k
    using that zone_init_free_lists_facts(3) [of z k s0] by (auto simp: t_def s_def zone_extents_def)
  have "buddy_inv t {0, 1} no_fl {}"
    unfolding buddy_inv_def
  proof (intro conjI)
    show "\<forall>z\<in>{0, 1}. \<forall>k<MAX_ORDER. z_nr_free (zones t z) (int k) = of_nat (length (no_fl z k))"
      using nr by (simp add: no_fl_def)
    show "\<forall>z\<in>{0, 1}. blocks_disjoint no_fl z \<and> marks_covered t no_fl {} z \<and> coalesced t no_fl z"
      using fresh by (auto simp: blocks_disjoint_def marks_covered_def coalesced_def no_fl_def free_mark_def)
  qed (use wf rings in \<open>simp_all add: no_fl_def\<close>)
  moreover have "slots t = slots s0"
    using zone_init_free_lists_slots(1) [of s0] by (simp add: slots_def lists s_def fun_eq_iff)
  moreover have "free_set no_fl z = {}" for z by (simp add: free_set_def no_fl_def)
  ultimately show "released pe ke {0, 1} 0 (zone_pages t) (slots s0) t no_fl"
    using fresh by (simp add: released_def)
qed

text \<open>The frames that stay reserved, from the addresses the linker and the boot map give.\<close>

definition boot_reserved :: "u32 \<Rightarrow> u32 \<Rightarrow> u32 \<Rightarrow> nat \<Rightarrow> bool" where
  "boot_reserved desc kend n p =
     reserved_frame (kaddr_to_pfn (desc + n * SIZEOF_PAGE)) (drop_bit PAGE_SHIFT (pa kend)) (of_nat p)"

lemma zone_sizes_init_low:
  assumes n: "n \<le> 229376"
  shows "\<exists>s' fl. zone_sizes_init desc kend n (PFN_DOWN MAX_LOW_MEM) (zone_init_free_lists s0) = Some s'
    \<and> buddy_inv s' {0, 1} fl {} \<and> slots s' = slots s0
    \<and> (\<forall>z\<in>{0, 1}. free_set fl z = {p \<in> low_zones z. p < unat n \<and> \<not> boot_reserved desc kend n p})"
proof -
  define s where "s = zone_init_free_lists s0"
  obtain m where m: "init_zones [0..<MAX_NR_ZONES] (zones_size_of n 229376) 0 0 s
      = s\<lparr>zones := zone_extents n (zones s), mem_map := m\<rparr>"
    "\<And>p. p < 4096 \<Longrightarrow> m p = fresh_page 0" "\<And>p. 4096 \<le> p \<and> p < 229376 \<Longrightarrow> m p = fresh_page 1"
    using init_zones_low [OF n, of s] by blast
  define t where "t = s\<lparr>zones := zone_extents n (zones s), mem_map := m,
     zone_table := (\<lambda>z. if z < MAX_NR_ZONES then Some z else zone_table s z)\<rparr>"
  define pe where "pe = kaddr_to_pfn (desc + n * SIZEOF_PAGE)"
  define ke where "ke = drop_bit PAGE_SHIFT (pa kend)"
  note B = low_boot_released [where n = n and m = m and ?s0.0 = s0, folded s_def, folded t_def, OF m(2,3)]
  have un: "unat n \<le> 229376" using n by (simp add: word_le_nat_alt)
  then have "sint n = int (unat n)" by (intro sint_small) simp
  then have e: "zone_sizes_init desc kend n 229376 s = release_frames pe ke [0..<unat n] t"
    unfolding zone_sizes_init_def node_alloc_mem_map_def m(1)
    by (simp add: Let_def pe_def ke_def t_def cong: if_cong)
  have "\<exists>z\<in>{0, 1}. p \<in> zone_pages t z" if "p < unat n" for p
    using that un B(2,3) by (cases "p < 4096") auto
  then obtain s' fl where r: "release_frames pe ke [0..<unat n] t = Some s'"
      "released pe ke {0, 1} (unat n) (zone_pages t) (slots s0) s' fl"
    using release_frames_all [OF B(1), of "unat n" pe ke] by auto
  have "zone_pages t z = low_zones z" if "z \<in> {0, 1}" for z
    using that B(2,3) by (auto simp: low_zones_def)
  with r show ?thesis unfolding low_pfns s_def [symmetric] e
    by (intro exI [of _ s'] exI [of _ fl]) (simp add: released_def boot_reserved_def pe_def ke_def)
qed

section \<open>The memory map\<close>

text \<open>Entries one after the other from \<open>ptr\<close>, and the length the boot loader reports for them.\<close>

fun mmap_at :: "(u32 \<Rightarrow> mmap_entry) \<Rightarrow> u32 \<Rightarrow> mmap_entry list \<Rightarrow> bool" where
  "mmap_at rd ptr [] \<longleftrightarrow> True"
| "mmap_at rd ptr (e # es) \<longleftrightarrow> rd ptr = e \<and> mmap_at rd (ptr + mm_size e + 4) es"

definition mmap_bytes :: "mmap_entry list \<Rightarrow> nat" where
  "mmap_bytes es = (\<Sum>e\<leftarrow>es. unat (mm_size e) + 4)"

text \<open>What is left of the length behind the first entry.\<close>

lemma mmap_left:
  assumes "mmap_bytes (e # es) < 2 ^ 32"
  shows "(of_nat (mmap_bytes (e # es)) :: u32) \<noteq> 0"
    and "(of_nat (mmap_bytes (e # es)) :: u32) - (mm_size e + 4) = of_nat (mmap_bytes es)"
    and "mmap_bytes es < 2 ^ 32"
proof -
  have b: "mmap_bytes (e # es) = unat (mm_size e) + 4 + mmap_bytes es" by (simp add: mmap_bytes_def)
  have "unat (of_nat (mmap_bytes (e # es)) :: u32) = mmap_bytes (e # es)"
    using assms by (intro word32_of_nat_unat_id) simp
  then show "(of_nat (mmap_bytes (e # es)) :: u32) \<noteq> 0" using b by auto
  show "(of_nat (mmap_bytes (e # es)) :: u32) - (mm_size e + 4) = of_nat (mmap_bytes es)" unfolding b by simp
  show "mmap_bytes es < 2 ^ 32" using assms b by simp
qed

lemma find_pfn_loop_entries:
  assumes "mmap_at rd ptr es" "mmap_bytes es < 2 ^ 32"
  shows "find_pfn_loop rd ptr (of_nat (mmap_bytes es)) p = Some (fold pfn_layout_step es p)"
  using assms
proof (induction es arbitrary: ptr p)
  case Nil
  then show ?case by (simp add: mmap_bytes_def find_pfn_loop.simps)
next
  case (Cons e es)
  note left = mmap_left [OF Cons.prems(2)]
  have "find_pfn_loop rd (ptr + mm_size e + 4) (of_nat (mmap_bytes es)) (pfn_layout_step e p)
      = Some (fold pfn_layout_step es (pfn_layout_step e p))"
    using Cons.prems left(3) by (intro Cons.IH) simp_all
  then show ?case using Cons.prems(1) left(1,2) by (subst find_pfn_loop.simps) (simp add: Let_def)
qed

section \<open>The properties\<close>

lemma page_start_aligned: "page_start_of e = push_bit 12 (drop_bit 12 (e + NOT PAGE_MASK))"
proof -
  have m: "PAGE_MASK = NOT (mask 12)" by (simp add: PAGE_MASK_def PAGE_SIZE_def PAGE_SHIFT_def mask_eq_exp_minus_1)
  show ?thesis unfolding page_start_of_def m by (rule bit_eqI) (auto simp: bit_simps)
qed

text \<open>
  C9: after \<open>init_page_table\<close> the processor translates every kernel address \<open>PAGE_OFFSET + x\<close>,
  \<open>x\<close> below 1 GiB, to the physical address \<open>x\<close>, and the page descriptors start right after the
  256 page tables.
\<close>

theorem init_page_table_maps_kernel:
  assumes "init_page_table ks ke pgd (page_start_of e) m = (desc, m')"
    and "\<And>k j. k < 1024 \<Longrightarrow> j < 2 ^ 18 \<Longrightarrow> pgd + 4 * of_nat k \<noteq> page_start_of e + 4 * of_nat j"
  shows "desc = page_start_of e + 0x100000 \<and> (\<forall>x < 2 ^ 30. mmu_walk m' pgd (PAGE_OFFSET + x) = Some x)"
  using init_page_table_walk [OF assms(1) page_start_aligned assms(2)]
    init_page_table_walk(2) [OF assms(1) page_start_aligned assms(2), of 0] by simp

theorem init_page_table_maps_kernel_witness:
  "fst (init_page_table 0x100000 0xc0180000 0xc0101000 (page_start_of 0xc01ff123) (\<lambda>a. 0)) = 0xc0300000"
proof -
  obtain desc m' where r: "init_page_table 0x100000 0xc0180000 0xc0101000 (page_start_of 0xc01ff123) (\<lambda>a. 0) = (desc, m')"
    by (metis surj_pair)
  have p: "page_start_of 0xc01ff123 = 0xc0200000"
    by (simp add: page_start_of_def PAGE_MASK_def PAGE_SIZE_def PAGE_SHIFT_def)
  have ap: "0xc0101000 + 4 * of_nat k \<noteq> page_start_of 0xc01ff123 + 4 * (of_nat j :: u32)"
    if "k < 1024" "j < 2 ^ 18" for k j
  proof
    assume e: "0xc0101000 + 4 * of_nat k = page_start_of 0xc01ff123 + 4 * (of_nat j :: u32)"
    have "unat (of_nat (0xc0101000 + 4 * k) :: u32) = 0xc0101000 + 4 * k"
      using that by (intro word32_of_nat_unat_id) simp
    moreover have "unat (of_nat (0xc0200000 + 4 * j) :: u32) = 0xc0200000 + 4 * j"
      using that by (intro word32_of_nat_unat_id) simp
    moreover have "(of_nat (0xc0101000 + 4 * k) :: u32) = of_nat (0xc0200000 + 4 * j)"
      using e unfolding p by simp
    ultimately have "0xc0101000 + 4 * k = 0xc0200000 + 4 * j" by metis
    then show False using that by simp
  qed
  show ?thesis using init_page_table_maps_kernel [OF r ap] r p by simp
qed


definition zeroed_mm :: mm where
  "zeroed_mm = \<lparr>mem_map = (\<lambda>p. page_zero), lists = \<lparr>prev = (\<lambda>n. NullN), nxt = (\<lambda>n. NullN)\<rparr>,
     zones = (\<lambda>z. \<lparr>z_free_pages = 0, z_nr_free = (\<lambda>k. 0),
       z_pcp = (\<lambda>c. \<lparr>pcp_count = 0, pcp_low = 0, pcp_high = 0, pcp_batch = 0\<rparr>),
       z_mem_map = 0, z_spanned = 0\<rparr>),
     zone_table = (\<lambda>z. None)\<rparr>"


text \<open>
  The zonelists. Lists 1 and 3 offer the DMA zone and then the normal zone, lists 0 and 2 only
  the normal zone. No list offers the high zone, since the code tests \<open>__GFP_HIGH\<close> (0x20) where
  the two zone bits of a request hold \<open>__GFP_HIGHMEM\<close> (0x02).
\<close>

theorem zonelists_built:
  "init_build_zonelist (\<lambda>i p. None) i
     = (if i = 1 \<or> i = 3 then [0 \<mapsto> DMA_ZONE, 1 \<mapsto> NORMAL_ZONE]
        else if i = 0 \<or> i = 2 then [0 \<mapsto> NORMAL_ZONE] else (\<lambda>p. None))
   \<and> init_build_zonelist (\<lambda>i p. None) i p \<noteq> Some HIGH_ZONE"
proof -
  have r: "(i < 4) = (i = 0 \<or> i = 1 \<or> i = 2 \<or> i = 3)" by arith
  have a: "(1 AND 3 :: u32) = 1" "(1 AND 2 :: u32) = 0" by simp_all
  have "init_build_zonelist (\<lambda>i p. None) i
     = (if i = 1 \<or> i = 3 then [0 \<mapsto> DMA_ZONE, 1 \<mapsto> NORMAL_ZONE]
        else if i = 0 \<or> i = 2 then [0 \<mapsto> NORMAL_ZONE] else (\<lambda>p. None))"
    unfolding init_build_zonelist_def
    by (auto simp: r build_zonelist_def GFP_DMA_def GFP_HIGH_def zonelist_loop.simps)
  then show ?thesis by simp
qed

text \<open>
  \<open>find_pfn_layout\<close> on a well-formed map (entries end to end, sizes adding up to the reported
  length) ends and folds the entries in order.
\<close>

theorem find_pfn_layout_folds:
  assumes "mmap_at rd ptr es" and "mmap_bytes es < 2 ^ 32"
  shows "find_pfn_layout rd ptr (of_nat (mmap_bytes es)) = Some (fold pfn_layout_step es 0, 229376)"
  using find_pfn_loop_entries [OF assms] low_pfns by (simp add: find_pfn_layout_def)

definition demo_entry :: mmap_entry where
  "demo_entry = \<lparr>mm_size = 20, mm_addr = 0x100000, mm_len = 0x7ee0000, mm_type = 1\<rparr>"

theorem find_pfn_layout_folds_witness:
  "find_pfn_layout (\<lambda>a. demo_entry) 0x9000 (of_nat (mmap_bytes [demo_entry])) = Some (fold pfn_layout_step [demo_entry] 0, 229376)"
  by (rule find_pfn_layout_folds) (simp_all add: mmap_bytes_def demo_entry_def)

lemma pfn_down_bytes:
  assumes "n < 2 ^ 31" "c < 4096"
  shows "PFN_DOWN (of_nat (4096 * n + c) :: u64) = of_nat n"
proof -
  have u: "unat (of_nat (4096 * n + c) :: u64) = 4096 * n + c"
    using assms by (intro word64_of_nat_unat_id) simp
  have "unat (PFN_DOWN (of_nat (4096 * n + c) :: u64)) = (4096 * n + c) div 4096"
    by (simp only: PFN_DOWN_def PAGE_SHIFT_def drop_bit_eq_div unat_div_distrib u) simp
  also have "\<dots> = n" using assms(2) by simp
  finally show ?thesis by (rule word_of_unat_eq)
qed

lemma scast_pfn:
  assumes "n < 2 ^ 31"
  shows "(scast (of_nat n :: u32) :: u64) = of_nat n"
proof -
  have u: "unat (of_nat n :: u32) = n" using assms by (intro word32_of_nat_unat_id) simp
  have s: "sint (of_nat n :: u32) = int n" using sint_small [of "of_nat n"] u assms by simp
  have "(scast (of_nat n :: u32) :: u64) = of_int (sint (of_nat n :: u32))" by simp
  then show ?thesis unfolding s by simp
qed

lemma ucast_pfn:
  assumes "n < 2 ^ 31"
  shows "(ucast (of_nat n :: u64) :: u32) = of_nat n"
proof -
  have "unat (ucast (of_nat n :: u64) :: u32) = n" using assms word64_of_nat_unat_id [of n]
    by (simp add: unsigned_ucast_eq take_bit_nat_eq_self)
  then show ?thesis by (rule word_of_unat_eq)
qed

text \<open>
  The comparison in \<open>find_pfn_layout\<close> uses the size of the entry, not the length of the region:
  an available region that starts where the one before it ended is ignored, however long it is.
\<close>

theorem adjacent_region_ignored:
  assumes "0 < b" and "b < e" and "e < 2 ^ 31"
    and "rd ptr = \<lparr>mm_size = 20, mm_addr = of_nat (4096 * b), mm_len = of_nat (4096 * (e - b)), mm_type = 1\<rparr>"
    and "rd (ptr + 24) = \<lparr>mm_size = 20, mm_addr = of_nat (4096 * e), mm_len = l, mm_type = 1\<rparr>"
  shows "find_pfn_layout rd ptr 48 = Some (of_nat e, 229376)"
proof -
  let ?e1 = "rd ptr" and ?e2 = "rd (ptr + 24)"
  have "find_pfn_loop rd ptr (of_nat (mmap_bytes [?e1, ?e2])) 0 = Some (fold pfn_layout_step [?e1, ?e2] 0)"
  proof (rule find_pfn_loop_entries)
    have p: "ptr + mm_size ?e1 + 4 = ptr + 24" by (simp add: assms(4))
    show "mmap_at rd ptr [?e1, ?e2]" by (simp only: mmap_at.simps p simp_thms)
  qed (simp add: assms(4,5) mmap_bytes_def)
  moreover have "mmap_bytes [?e1, ?e2] = 48" by (simp add: assms(4,5) mmap_bytes_def)
  ultimately have l: "find_pfn_loop rd ptr 48 0 = Some (pfn_layout_step ?e2 (pfn_layout_step ?e1 0))" by simp
  have "4096 * b + 4096 * (e - b) = 4096 * e" using assms(2) by simp
  then have s1: "(of_nat (4096 * b) :: u64) + 20 = of_nat (4096 * b + 20)"
    "(of_nat (4096 * b) :: u64) + of_nat (4096 * (e - b)) = of_nat (4096 * e)"
    by (simp, metis of_nat_add)
  have pos: "(0 :: u64) < of_nat b"
    using assms word64_of_nat_unat_id [of b] by (simp add: word_less_nat_alt)
  have c: "(ucast (of_nat e :: u64) :: u32) = of_nat e" by (rule ucast_pfn [OF assms(3)])
  have "mm_addr ?e1 + ucast (mm_size ?e1) = of_nat (4096 * b + 20)"
    "mm_addr ?e1 + mm_len ?e1 = of_nat (4096 * e + 0)" "mm_addr ?e2 + ucast (mm_size ?e2) = of_nat (4096 * e + 20)"
    using s1 by (simp_all add: assms(4,5))
  then have p: "PFN_DOWN (mm_addr ?e1 + ucast (mm_size ?e1)) = of_nat b" "PFN_DOWN (mm_addr ?e1 + mm_len ?e1) = of_nat e"
    "PFN_DOWN (mm_addr ?e2 + ucast (mm_size ?e2)) = of_nat e"
    using assms(1-3) by (simp_all only: pfn_down_bytes)
  have "pfn_layout_step ?e1 0 = of_nat e"
    unfolding pfn_layout_step_def p c using pos by (simp add: assms(4) MULTIBOOT_MEMORY_AVAILABLE_def)
  moreover have "pfn_layout_step ?e2 (of_nat e) = of_nat e"
    unfolding pfn_layout_step_def p scast_pfn [OF assms(3)] by simp
  ultimately show ?thesis using l low_pfns by (simp add: find_pfn_layout_def)
qed

theorem adjacent_region_ignored_witness:
  "find_pfn_layout (\<lambda>a. if a = 0x9000
       then \<lparr>mm_size = 20, mm_addr = of_nat (4096 * 256), mm_len = of_nat (4096 * (4096 - 256)), mm_type = 1\<rparr>
       else \<lparr>mm_size = 20, mm_addr = of_nat (4096 * 4096), mm_len = 0x10000000, mm_type = 1\<rparr>) 0x9000 48
   = Some (of_nat 4096, 229376)"
  by (rule adjacent_region_ignored [of 256]) simp_all

end
