(* ===== verification/Sync.thy ===== *)
theory Sync
  imports Prelude
begin

text \<open>
  Port input and output (\<open>kernel/include/i386/io.h\<close>), atomic counters
  (\<open>kernel/include/i386/atomic.h\<close>) and the spinlock of \<open>kernel/include/kernel/sync.h\<close>: its
  operations on one processor, and as a state machine of several.
\<close>

section \<open>Port I/O\<close>

text \<open>
  What the kernel does to the ports is a log, oldest first. What it reads is up to the hardware:
  a device answers from the whole log.
\<close>

datatype io_event =
    Out u16 u8 | In u16 u8
  | Out_word u16 u16 | In_word u16 u16
  | Out_long u16 u32 | In_long u16 u32

type_synonym iolog = "io_event list"
type_synonym device = "iolog \<Rightarrow> u16 \<Rightarrow> u8"

definition outb :: "u8 \<Rightarrow> u16 \<Rightarrow> iolog \<Rightarrow> iolog" where
  "outb v port l = l @ [Out port v]"

definition inb :: "device \<Rightarrow> u16 \<Rightarrow> iolog \<Rightarrow> u8 \<times> iolog" where
  "inb dev port l = (dev l port, l @ [In port (dev l port)])"

text \<open>The wider accesses, with what the device answers to them.\<close>

definition outw :: "u16 \<Rightarrow> u16 \<Rightarrow> iolog \<Rightarrow> iolog" where
  "outw v port l = l @ [Out_word port v]"

definition inw :: "(iolog \<Rightarrow> u16 \<Rightarrow> u16) \<Rightarrow> u16 \<Rightarrow> iolog \<Rightarrow> u16 \<times> iolog" where
  "inw dev port l = (dev l port, l @ [In_word port (dev l port)])"

definition outl :: "u32 \<Rightarrow> u16 \<Rightarrow> iolog \<Rightarrow> iolog" where
  "outl v port l = l @ [Out_long port v]"

definition inl :: "(iolog \<Rightarrow> u16 \<Rightarrow> u32) \<Rightarrow> u16 \<Rightarrow> iolog \<Rightarrow> u32 \<times> iolog" where
  "inl dev port l = (dev l port, l @ [In_long port (dev l port)])"

text \<open>Two jumps to the next instruction.\<close>

definition io_wait :: "iolog \<Rightarrow> iolog" where
  "io_wait l = l"

definition outb_p :: "u8 \<Rightarrow> u16 \<Rightarrow> iolog \<Rightarrow> iolog" where
  "outb_p v port l = outb v port l"

definition inb_p :: "device \<Rightarrow> u16 \<Rightarrow> iolog \<Rightarrow> u8 \<times> iolog" where
  "inb_p dev port l = inb dev port l"

text \<open>The last byte written to a port by \<open>outb\<close>.\<close>

fun written :: "u16 \<Rightarrow> io_event \<Rightarrow> u8 option \<Rightarrow> u8 option" where
  "written port (Out p v) w = (if p = port then Some v else w)"
| "written port _ w = w"

definition last_out :: "u16 \<Rightarrow> iolog \<Rightarrow> u8 option" where
  "last_out port l = fold (written port) l None"

lemma last_out_Out [simp]: "last_out p (l @ [Out q v]) = (if q = p then Some v else last_out p l)"
  by (simp add: last_out_def)

lemma last_out_In [simp]: "last_out p (l @ [In q v]) = last_out p l"
  by (simp add: last_out_def)

lemma last_out_wide [simp]:
  "last_out p (l @ [Out_word q w]) = last_out p l" "last_out p (l @ [In_word q w]) = last_out p l"
  "last_out p (l @ [Out_long q x]) = last_out p l" "last_out p (l @ [In_long q x]) = last_out p l"
  by (simp_all add: last_out_def)

lemma last_out_outb [simp]: "last_out p (outb v q l) = (if q = p then Some v else last_out p l)"
  by (simp add: outb_def)

section \<open>Atomic counters\<close>

definition atomic_add :: "u32 \<Rightarrow> u32 \<Rightarrow> u32" where "atomic_add i v = v + i"
definition atomic_sub :: "u32 \<Rightarrow> u32 \<Rightarrow> u32" where "atomic_sub i v = v - i"
definition atomic_inc :: "u32 \<Rightarrow> u32" where "atomic_inc v = v + 1"
definition atomic_dec :: "u32 \<Rightarrow> u32" where "atomic_dec v = v - 1"

text \<open>\<open>subl; sete\<close>: the result is 1 when the difference is zero.\<close>

definition atomic_sub_and_test :: "u32 \<Rightarrow> u32 \<Rightarrow> u8 \<times> u32" where
  "atomic_sub_and_test i v = ((if v - i = 0 then 1 else 0), v - i)"

section \<open>Spinlocks on one processor\<close>

record spinlock =
  slock :: u32
  magic :: u32

definition SPINLOCK_MAGIC :: u32 where "SPINLOCK_MAGIC = 0xdead4ead"

definition SPIN_LOCK_UNLOCKED :: spinlock where
  "SPIN_LOCK_UNLOCKED = \<lparr>slock = 1, magic = SPINLOCK_MAGIC\<rparr>"

text \<open>The instructions address the low byte of \<open>slock\<close>.\<close>

definition lock_byte :: "spinlock \<Rightarrow> 8 word" where
  "lock_byte l = ucast (slock l)"

definition set_lock_byte :: "8 word \<Rightarrow> spinlock \<Rightarrow> spinlock" where
  "set_lock_byte b l = l\<lparr>slock := (slock l AND NOT (mask 8)) OR ucast b\<rparr>"

definition spin_is_locked :: "spinlock \<Rightarrow> bool" where
  "spin_is_locked l \<longleftrightarrow> lock_byte l \<le>s 0"

text \<open>
  \<open>_raw_spin_lock\<close>: \<open>lock; decb\<close>, and the lock is taken when the result is not negative.
  Otherwise the processor waits for the byte to become positive. With one processor and no
  preemption nobody else can release it: \<^const>\<open>None\<close>.
\<close>

definition raw_spin_lock :: "spinlock \<Rightarrow> spinlock option" where
  "raw_spin_lock l = (let b = lock_byte l - 1 in if 0 \<le>s b then Some (set_lock_byte b l) else None)"

definition raw_spin_unlock :: "spinlock \<Rightarrow> spinlock" where
  "raw_spin_unlock l = set_lock_byte 1 l"

text \<open>Without \<open>CONFIG_PREEMPT\<close> the preemption counters are no code: \<open>spin_lock\<close> is the raw lock.\<close>

definition spin_lock :: "spinlock \<Rightarrow> spinlock option" where
  "spin_lock l = raw_spin_lock l"

definition spin_unlock :: "spinlock \<Rightarrow> spinlock" where
  "spin_unlock l = raw_spin_unlock l"

text \<open>\<open>unlocked l\<close>: the state the initialiser and every release leave.\<close>

definition unlocked :: "spinlock \<Rightarrow> bool" where
  "unlocked l \<longleftrightarrow> lock_byte l = 1"

lemma lock_byte_set [simp]: "lock_byte (set_lock_byte b l) = b"
  unfolding lock_byte_def set_lock_byte_def by (rule bit_eqI) (auto simp: bit_simps)

lemma set_lock_byte_twice [simp]: "set_lock_byte b (set_lock_byte c l) = set_lock_byte b l"
proof -
  have "(x AND NOT (mask 8) OR ucast c) AND NOT (mask 8) OR ucast b = x AND NOT (mask 8) OR ucast b"
    for x :: u32 and b c :: "8 word"
    by (rule bit_eqI) (auto simp: bit_simps dest: bit_imp_le_length)
  then show ?thesis by (simp add: set_lock_byte_def)
qed

lemma set_lock_byte_same: "lock_byte l = b \<Longrightarrow> set_lock_byte b l = l"
proof -
  assume "lock_byte l = b"
  then have "slock l AND NOT (mask 8) OR ucast b = slock l"
    unfolding lock_byte_def by (intro bit_eqI) (auto simp: bit_simps)
  then show ?thesis by (simp add: set_lock_byte_def)
qed

lemma unlocked_init [simp]: "unlocked SPIN_LOCK_UNLOCKED"
  by (simp add: unlocked_def lock_byte_def SPIN_LOCK_UNLOCKED_def)

lemma spin_lock_unlocked [simp]: "unlocked l \<Longrightarrow> spin_lock l = Some (set_lock_byte 0 l)"
  by (simp add: unlocked_def spin_lock_def raw_spin_lock_def)

lemma spin_unlock_unlocked [simp]: "unlocked (spin_unlock l)"
  by (simp add: unlocked_def spin_unlock_def raw_spin_unlock_def)

lemma spin_lock_unlock: "unlocked l \<Longrightarrow> spin_unlock (set_lock_byte 0 l) = l"
  by (simp add: unlocked_def spin_unlock_def raw_spin_unlock_def set_lock_byte_same)

lemma spin_lock_held: "spin_lock l = Some l' \<Longrightarrow> unlocked l \<Longrightarrow> spin_lock l' = None"
  by (auto simp: spin_lock_def raw_spin_lock_def unlocked_def Let_def)

section \<open>Spinlocks on several processors\<close>

text \<open>
  A processor is outside, waiting at label 2 of \<open>spin_lock_string\<close>, or inside. The steps are the
  instructions that touch the byte: the locked decrement, the comparison that ends the wait, and
  the store of the release.
\<close>

datatype cpu_pc = Outside | Waiting | Inside

record smp =
  byte :: "8 word"
  pc :: "nat \<Rightarrow> cpu_pc"

inductive smp_step :: "nat \<Rightarrow> smp \<Rightarrow> smp \<Rightarrow> bool" for n where
  take: "c < n \<Longrightarrow> pc s c = Outside \<Longrightarrow> 0 \<le>s byte s - 1 \<Longrightarrow>
    smp_step n s (s\<lparr>byte := byte s - 1, pc := (pc s)(c := Inside)\<rparr>)"
| fail: "c < n \<Longrightarrow> pc s c = Outside \<Longrightarrow> byte s - 1 <s 0 \<Longrightarrow>
    smp_step n s (s\<lparr>byte := byte s - 1, pc := (pc s)(c := Waiting)\<rparr>)"
| retry: "c < n \<Longrightarrow> pc s c = Waiting \<Longrightarrow> 0 <s byte s \<Longrightarrow>
    smp_step n s (s\<lparr>pc := (pc s)(c := Outside)\<rparr>)"
| release: "c < n \<Longrightarrow> pc s c = Inside \<Longrightarrow>
    smp_step n s (s\<lparr>byte := 1, pc := (pc s)(c := Outside)\<rparr>)"

definition smp_init :: smp where
  "smp_init = \<lparr>byte = 1, pc = (\<lambda>c. Outside)\<rparr>"

inductive smp_reach :: "nat \<Rightarrow> smp \<Rightarrow> bool" for n where
  init: "smp_reach n smp_init"
| step: "smp_reach n s \<Longrightarrow> smp_step n s s' \<Longrightarrow> smp_reach n s'"

inductive_cases smp_stepE: "smp_step n s s'"

text \<open>
  While the lock is held the byte has been decremented at most once by every waiting processor,
  so that with fewer than 129 of them it does not wrap round to a positive value.
\<close>

definition waiting :: "nat \<Rightarrow> smp \<Rightarrow> nat set" where
  "waiting n s = {c. c < n \<and> pc s c = Waiting}"

definition smp_inv :: "nat \<Rightarrow> smp \<Rightarrow> bool" where
  "smp_inv n s \<longleftrightarrow> (\<forall>c\<ge>n. pc s c = Outside) \<and>
     (((\<forall>c. pc s c \<noteq> Inside) \<and> sint (byte s) = 1)
      \<or> (\<exists>h<n. pc s h = Inside \<and> (\<forall>c. c \<noteq> h \<longrightarrow> pc s c \<noteq> Inside)
           \<and> - int (card (waiting n s)) \<le> sint (byte s) \<and> sint (byte s) \<le> 0))"

lemma waiting_finite [simp]: "finite (waiting n s)"
  by (simp add: waiting_def)

lemma byte_dec:
  assumes "- 128 < sint (b :: 8 word)"
  shows "sint (b - 1) = sint b - 1"
proof -
  have "sint b < 128" using sint_lt [of b] by simp
  then have "signed_take_bit 7 (sint b - 1) = sint b - 1"
    using assms by (intro signed_take_bit_int_eq_self) simp_all
  then show ?thesis by (simp add: sint_word_ariths)
qed

lemma smp_inv_step:
  assumes "smp_inv n s" "smp_step n s s'" "n \<le> 128"
  shows "smp_inv n s'"
  using assms(2)
proof cases
  case (take c)
  have b: "sint (byte s) = 1 \<and> (\<forall>c. pc s c \<noteq> Inside)"
  proof (rule ccontr)
    assume "\<not> (sint (byte s) = 1 \<and> (\<forall>c. pc s c \<noteq> Inside))"
    with assms(1) obtain h where h: "h < n" "pc s h = Inside" "- int (card (waiting n s)) \<le> sint (byte s)"
      "sint (byte s) \<le> 0" by (auto simp: smp_inv_def)
    have "waiting n s \<subseteq> {..<n} - {h, c}" using h take by (auto simp: waiting_def)
    then have "card (waiting n s) \<le> card ({..<n} - {h, c})" by (intro card_mono) auto
    also have "\<dots> = n - 2"
  proof -
    have "h \<noteq> c" using h take by auto
    then show ?thesis using h take by (subst card_Diff_subset) auto
  qed
    finally have "- 128 < sint (byte s)" using h(3) assms(3) by linarith
    then have "sint (byte s - 1) = sint (byte s) - 1" by (rule byte_dec)
    with take h(4) show False by (simp add: word_sle_eq)
  qed
  then have "sint (byte s - 1) = 0" by (subst byte_dec) auto
  with take b assms(1) show ?thesis
    by (auto simp: smp_inv_def intro!: exI [of _ c])
next
  case (fail c)
  have nb: "sint (byte s) \<noteq> 1"
  proof
    assume e: "sint (byte s) = 1"
    then have "sint (byte s - 1) = 0" by (subst byte_dec) auto
    with fail show False by (simp add: word_sless_alt)
  qed
  with assms(1) obtain h where h: "h < n" "pc s h = Inside" "\<forall>c. c \<noteq> h \<longrightarrow> pc s c \<noteq> Inside"
    "- int (card (waiting n s)) \<le> sint (byte s)" "sint (byte s) \<le> 0" by (auto simp: smp_inv_def)
  have "waiting n s \<subseteq> {..<n} - {h, c}" using h fail by (auto simp: waiting_def)
  then have "card (waiting n s) \<le> card ({..<n} - {h, c})" by (intro card_mono) auto
  also have "\<dots> = n - 2"
  proof -
    have "h \<noteq> c" using h fail by auto
  then show ?thesis using h fail by (subst card_Diff_subset) auto
  qed
  finally have "- 128 < sint (byte s)" using h(4) assms(3) by linarith
  then have d: "sint (byte s - 1) = sint (byte s) - 1" by (rule byte_dec)
  have "waiting n s' = insert c (waiting n s)" "c \<notin> waiting n s" using fail by (auto simp: waiting_def)
  then have "int (card (waiting n s')) = int (card (waiting n s)) + 1" by simp
  with d fail h assms(1) show ?thesis
    by (auto simp: smp_inv_def intro!: exI [of _ h])
next
  case (retry c)
  then have "0 < sint (byte s)" by (simp add: word_sless_alt)
  with assms(1) have "sint (byte s) = 1 \<and> (\<forall>c. pc s c \<noteq> Inside)" by (auto simp: smp_inv_def)
  with retry assms(1) show ?thesis by (auto simp: smp_inv_def)
next
  case (release c)
  with assms(1) have "\<forall>d. d \<noteq> c \<longrightarrow> pc s d \<noteq> Inside" unfolding smp_inv_def by metis
  with release assms(1) show ?thesis by (auto simp: smp_inv_def)
qed

lemma smp_reach_inv: "smp_reach n s \<Longrightarrow> n \<le> 128 \<Longrightarrow> smp_inv n s"
proof (induction rule: smp_reach.induct)
  case init
  then show ?case by (simp add: smp_inv_def smp_init_def)
next
  case (step s s')
  then show ?case using smp_inv_step by blast
qed

end
