(* ===== verification/Irq.thy ===== *)
theory Irq
  imports Sync "HOL-Library.Monad_Syntax"
begin

text \<open>
  Interrupt handling: \<open>kernel/arch/i386/i8259.c\<close> (the two interrupt controllers),
  \<open>kernel/kernel/manage.c\<close> (registering a handler), \<open>kernel/kernel/handle.c\<close> (running the
  handlers) and \<open>kernel/arch/i386/irq.c\<close> (the entry from the stubs). An operation that would wait
  for a lock nobody can release, or read through a null pointer, is \<^const>\<open>None\<close>.
\<close>

section \<open>State\<close>

text \<open>
  A \<open>struct irqaction\<close> is named by a number; its handler is the argument of the functions that
  run it. \<open>irq_desc[i].handler\<close> points to one of the two controller tables.
\<close>

datatype hw_irq_controller = no_irq_type | i8259A_irq_type

record irqaction =
  a_flags :: u32
  a_next :: "nat option"
  a_irq :: u32

record irq_desc =
  d_handler :: hw_irq_controller
  d_action :: "nat option"
  d_status :: u32
  d_depth :: u32
  d_lock :: spinlock

text \<open>\<open>AckMask\<close> and \<open>AckDisable\<close>: the function \<open>init_8259A\<close> has put into \<open>i8259A_irq_type.ack\<close>.\<close>

datatype ack_fun = AckMask | AckDisable

record irqs =
  cached_irq_mask :: u32
  i8259A_lock :: spinlock
  irq_desc :: "nat \<Rightarrow> irq_desc"
  actions :: "nat \<Rightarrow> irqaction"
  ack_8259A :: ack_fun
  spurious_irq_mask :: u32
  irq_err_count :: u32
  cpu_if :: bool
  io :: iolog

definition PIC_MASTER_CMD :: u16 where "PIC_MASTER_CMD = 0x20"
definition PIC_MASTER_IMR :: u16 where "PIC_MASTER_IMR = 0x21"
definition PIC_SLAVE_CMD :: u16 where "PIC_SLAVE_CMD = 0xa0"
definition PIC_SLAVE_IMR :: u16 where "PIC_SLAVE_IMR = 0xa1"
definition PIC_CASCADE_IR :: nat where "PIC_CASCADE_IR = 2"
definition MASTER_ICW4_DEFAULT :: u8 where "MASTER_ICW4_DEFAULT = 0x01"
definition SLAVE_ICW4_DEFAULT :: u8 where "SLAVE_ICW4_DEFAULT = 0x01"
definition PIC_ICW4_AEOI :: u8 where "PIC_ICW4_AEOI = 2"

definition NR_VECTORS :: nat where "NR_VECTORS = 256"
definition FIRST_EXTERNAL_VECTOR :: nat where "FIRST_EXTERNAL_VECTOR = 0x20"
definition SYSCALL_VECTOR :: nat where "SYSCALL_VECTOR = 0x80"
definition NR_IRQS :: nat where "NR_IRQS = 16"

definition IRQ_INPROGRESS :: u32 where "IRQ_INPROGRESS = 1"
definition IRQ_DISABLED :: u32 where "IRQ_DISABLED = 2"
definition IRQ_AUTODETECT :: u32 where "IRQ_AUTODETECT = 16"
definition IRQ_WAITING :: u32 where "IRQ_WAITING = 32"
definition IRQ_PER_CPU :: u32 where "IRQ_PER_CPU = 256"

definition SA_INTERRUPT :: u32 where "SA_INTERRUPT = 0x20000000"
definition SA_SHIRQ :: u32 where "SA_SHIRQ = 0x04000000"
definition EBUSY :: int where "EBUSY = 16"
definition ENOSYS :: int where "ENOSYS = 38"
definition IRQ_HANDLED :: u32 where "IRQ_HANDLED = 1"

lemmas pic_ports = PIC_MASTER_CMD_def PIC_MASTER_IMR_def PIC_SLAVE_CMD_def PIC_SLAVE_IMR_def

definition cached_master_mask :: "irqs \<Rightarrow> u8" where
  "cached_master_mask s = ucast (cached_irq_mask s)"

definition cached_slave_mask :: "irqs \<Rightarrow> u8" where
  "cached_slave_mask s = ucast (drop_bit 8 (cached_irq_mask s))"

definition upd_desc :: "nat \<Rightarrow> (irq_desc \<Rightarrow> irq_desc) \<Rightarrow> irqs \<Rightarrow> irqs" where
  "upd_desc i f s = s\<lparr>irq_desc := (irq_desc s)(i := f (irq_desc s i))\<rparr>"

definition upd_action :: "nat \<Rightarrow> (irqaction \<Rightarrow> irqaction) \<Rightarrow> irqs \<Rightarrow> irqs" where
  "upd_action a f s = s\<lparr>actions := (actions s)(a := f (actions s a))\<rparr>"

definition do_outb :: "u8 \<Rightarrow> u16 \<Rightarrow> irqs \<Rightarrow> irqs" where
  "do_outb v port s = s\<lparr>io := outb v port (io s)\<rparr>"

definition do_inb :: "device \<Rightarrow> u16 \<Rightarrow> irqs \<Rightarrow> u8 \<times> irqs" where
  "do_inb dev port s = (let (v, l) = inb dev port (io s) in (v, s\<lparr>io := l\<rparr>))"

text \<open>
  \<open>spin_lock_irqsave\<close> and \<open>spin_unlock_irqrestore\<close> of the controller lock; the saved flags are
  the interrupt flag.
\<close>

definition lock_8259A :: "irqs \<Rightarrow> (bool \<times> irqs) option" where
  "lock_8259A s = map_option (\<lambda>l. (cpu_if s, s\<lparr>cpu_if := False, i8259A_lock := l\<rparr>)) (spin_lock (i8259A_lock s))"

definition unlock_8259A :: "bool \<Rightarrow> irqs \<Rightarrow> irqs" where
  "unlock_8259A flags s = s\<lparr>i8259A_lock := spin_unlock (i8259A_lock s), cpu_if := flags\<rparr>"

section \<open>The interrupt controllers\<close>

definition bit_of :: "nat \<Rightarrow> u32" where
  "bit_of i = push_bit i 1"

text \<open>The write of the mask that \<open>irq\<close> belongs to.\<close>

definition out_mask :: "nat \<Rightarrow> irqs \<Rightarrow> irqs" where
  "out_mask i s = (if i AND 8 \<noteq> 0 then do_outb (cached_slave_mask s) PIC_SLAVE_IMR s
     else do_outb (cached_master_mask s) PIC_MASTER_IMR s)"

definition disable_8259A_irq :: "nat \<Rightarrow> irqs \<Rightarrow> irqs option" where
  "disable_8259A_irq i s = do {
     (flags, s1) \<leftarrow> lock_8259A s;
     let s2 = s1\<lparr>cached_irq_mask := cached_irq_mask s1 OR bit_of i\<rparr>;
     Some (unlock_8259A flags (out_mask i s2)) }"

definition enable_8259A_irq :: "nat \<Rightarrow> irqs \<Rightarrow> irqs option" where
  "enable_8259A_irq i s = do {
     (flags, s1) \<leftarrow> lock_8259A s;
     let s2 = s1\<lparr>cached_irq_mask := cached_irq_mask s1 AND NOT (bit_of i)\<rparr>;
     let s3 = out_mask i s2;
     let s4 = upd_desc i (\<lambda>d. d\<lparr>d_status := IRQ_PER_CPU\<rparr>) s3;
     Some (unlock_8259A flags s4) }"

definition startup_8259A_irq :: "nat \<Rightarrow> irqs \<Rightarrow> (u32 \<times> irqs) option" where
  "startup_8259A_irq i s = map_option (\<lambda>t. (0, t)) (enable_8259A_irq i s)"

definition end_8259A_irq :: "nat \<Rightarrow> irqs \<Rightarrow> irqs option" where
  "end_8259A_irq i s =
     (if d_status (irq_desc s i) AND (IRQ_DISABLED OR IRQ_INPROGRESS) = 0 \<and> d_action (irq_desc s i) \<noteq> None
      then enable_8259A_irq i s else Some s)"

text \<open>Reads the in-service register of the controller that \<open>irq\<close> belongs to.\<close>

definition i8259A_irq_real :: "device \<Rightarrow> nat \<Rightarrow> irqs \<Rightarrow> u32 \<times> irqs" where
  "i8259A_irq_real dev i s =
     (if i < 8 then
        let (v, s1) = do_inb dev PIC_MASTER_CMD (do_outb 0x0B PIC_MASTER_CMD s)
        in (ucast v AND bit_of i, do_outb 0x0A PIC_MASTER_CMD s1)
      else
        let (v, s1) = do_inb dev PIC_SLAVE_CMD (do_outb 0x0B PIC_SLAVE_CMD s)
        in (ucast v AND signed_drop_bit 8 (bit_of i), do_outb 0x0A PIC_SLAVE_CMD s1))"

text \<open>The label \<open>handle_real_irq\<close> up to the release of the lock.\<close>

definition handle_real_irq :: "device \<Rightarrow> nat \<Rightarrow> irqs \<Rightarrow> irqs" where
  "handle_real_irq dev i s =
     (if i AND 8 \<noteq> 0 then
        let (_, s1) = do_inb dev PIC_SLAVE_IMR s;
            s2 = do_outb (cached_slave_mask s1) PIC_SLAVE_IMR s1;
            s3 = do_outb (0x60 + of_nat (i AND 7)) PIC_SLAVE_CMD s2
        in do_outb (0x60 + of_nat PIC_CASCADE_IR) PIC_MASTER_CMD s3
      else
        let (_, s1) = do_inb dev PIC_MASTER_IMR s;
            s2 = do_outb (cached_master_mask s1) PIC_MASTER_IMR s1
        in do_outb (0x60 + of_nat i) PIC_MASTER_CMD s2)"

definition spurious_8259A_irq :: "device \<Rightarrow> nat \<Rightarrow> irqs \<Rightarrow> irqs" where
  "spurious_8259A_irq dev i s =
     (let (real, s1) = i8259A_irq_real dev i s
      in if real \<noteq> 0 then s1
         else s1\<lparr>spurious_irq_mask := (if spurious_irq_mask s1 AND bit_of i = 0
                     then spurious_irq_mask s1 OR bit_of i else spurious_irq_mask s1),
                 irq_err_count := atomic_inc (irq_err_count s1)\<rparr>)"

definition mask_and_ack_8259A :: "device \<Rightarrow> nat \<Rightarrow> irqs \<Rightarrow> irqs option" where
  "mask_and_ack_8259A dev i s = do {
     (flags, s1) \<leftarrow> lock_8259A s;
     let s2 = (if cached_irq_mask s1 AND bit_of i \<noteq> 0 then spurious_8259A_irq dev i s1
               else s1\<lparr>cached_irq_mask := cached_irq_mask s1 OR bit_of i\<rparr>);
     Some (unlock_8259A flags (handle_real_irq dev i s2)) }"

definition init_8259A :: "bool \<Rightarrow> irqs \<Rightarrow> irqs option" where
  "init_8259A auto_eoi s = do {
     (flags, s1) \<leftarrow> lock_8259A s;
     let s2 = do_outb 0xff PIC_SLAVE_IMR (do_outb 0xff PIC_MASTER_IMR s1);
     let s3 = do_outb 0x11 PIC_MASTER_CMD s2;
     let s4 = do_outb (0x20 + 0) PIC_MASTER_IMR s3;
     let s5 = do_outb (push_bit PIC_CASCADE_IR 1) PIC_MASTER_IMR s4;
     let s6 = do_outb (if auto_eoi then MASTER_ICW4_DEFAULT OR PIC_ICW4_AEOI else MASTER_ICW4_DEFAULT) PIC_MASTER_IMR s5;
     let s7 = do_outb 0x11 PIC_SLAVE_CMD s6;
     let s8 = do_outb (0x20 + 8) PIC_SLAVE_IMR s7;
     let s9 = do_outb (of_nat PIC_CASCADE_IR) PIC_SLAVE_IMR s8;
     let s10 = do_outb SLAVE_ICW4_DEFAULT PIC_SLAVE_IMR s9;
     let s11 = s10\<lparr>ack_8259A := (if auto_eoi then AckDisable else AckMask)\<rparr>;
     let s12 = do_outb (cached_master_mask s11) PIC_MASTER_IMR s11;
     let s13 = do_outb (cached_slave_mask s12) PIC_SLAVE_IMR s12;
     Some (unlock_8259A flags s13) }"

section \<open>The controller tables\<close>

text \<open>The members of \<open>no_irq_type\<close> do nothing.\<close>

definition hw_startup :: "hw_irq_controller \<Rightarrow> nat \<Rightarrow> irqs \<Rightarrow> irqs option" where
  "hw_startup h i s = (case h of no_irq_type \<Rightarrow> Some s
     | i8259A_irq_type \<Rightarrow> map_option snd (startup_8259A_irq i s))"

definition hw_ack :: "device \<Rightarrow> hw_irq_controller \<Rightarrow> nat \<Rightarrow> irqs \<Rightarrow> irqs option" where
  "hw_ack dev h i s = (case h of no_irq_type \<Rightarrow> Some s
     | i8259A_irq_type \<Rightarrow> (case ack_8259A s of AckMask \<Rightarrow> mask_and_ack_8259A dev i s
                            | AckDisable \<Rightarrow> disable_8259A_irq i s))"

definition hw_end :: "hw_irq_controller \<Rightarrow> nat \<Rightarrow> irqs \<Rightarrow> irqs option" where
  "hw_end h i s = (case h of no_irq_type \<Rightarrow> Some s | i8259A_irq_type \<Rightarrow> end_8259A_irq i s)"

section \<open>Registering a handler\<close>

text \<open>The last action of a chain; a chain that never ends is \<^const>\<open>None\<close>.\<close>

partial_function (option) last_action :: "(nat \<Rightarrow> irqaction) \<Rightarrow> nat \<Rightarrow> nat option" where
  "last_action acts a = (case a_next (acts a) of None \<Rightarrow> Some a | Some b \<Rightarrow> last_action acts b)"

text \<open>
  \<open>setup_irq\<close>. The result is the code's \<open>int\<close>. \<open>desc->lock\<close> is taken with interrupts off; the
  startup member is never null.
\<close>

definition setup_irq :: "nat \<Rightarrow> nat \<Rightarrow> irqs \<Rightarrow> (int \<times> irqs) option" where
  "setup_irq i new s =
     (if d_handler (irq_desc s i) = no_irq_type then Some (- ENOSYS, s)
      else do {
        l \<leftarrow> spin_lock (d_lock (irq_desc s i));
        let flags = cpu_if s;
        let s1 = upd_desc i (\<lambda>d. d\<lparr>d_lock := l\<rparr>) (s\<lparr>cpu_if := False\<rparr>);
        let release = (\<lambda>t. (upd_desc i (\<lambda>d. d\<lparr>d_lock := spin_unlock (d_lock d)\<rparr>) t)\<lparr>cpu_if := flags\<rparr>);
        case d_action (irq_desc s1 i) of
          Some old \<Rightarrow>
            if a_flags (actions s1 old) AND a_flags (actions s1 new) AND SA_SHIRQ = 0
            then Some (- EBUSY, release s1)
            else do {
              z \<leftarrow> last_action (actions s1) old;
              let s2 = upd_action z (\<lambda>a. a\<lparr>a_next := Some new\<rparr>) s1;
              Some (0, upd_action new (\<lambda>a. a\<lparr>a_irq := of_nat i\<rparr>) (release s2)) }
        | None \<Rightarrow> do {
              let s2 = upd_desc i (\<lambda>d. d\<lparr>d_action := Some new, d_depth := 0,
                 d_status := d_status d AND NOT (IRQ_DISABLED OR IRQ_AUTODETECT OR IRQ_WAITING OR IRQ_INPROGRESS)\<rparr>) s1;
              s3 \<leftarrow> hw_startup (d_handler (irq_desc s2 i)) i s2;
              Some (0, upd_action new (\<lambda>a. a\<lparr>a_irq := of_nat i\<rparr>) (release s3)) } })"

section \<open>Running the handlers\<close>

text \<open>
  \<open>handle_IRQ_event\<close>: \<open>run a i\<close> is the handler of action \<open>a\<close>. The chain is followed while the
  handlers run, so a handler may change it. The status that the code accumulates is not used.
\<close>

partial_function (option) run_actions ::
    "(nat \<Rightarrow> nat \<Rightarrow> irqs \<Rightarrow> u32 \<times> irqs) \<Rightarrow> nat \<Rightarrow> nat \<Rightarrow> u32 \<Rightarrow> irqs \<Rightarrow> (u32 \<times> irqs) option" where
  "run_actions run i a retval s =
     (let (ret, s1) = run a i s; retval' = retval OR ret
      in case a_next (actions s1 a) of
           None \<Rightarrow> Some (retval', s1)
         | Some b \<Rightarrow> run_actions run i b retval' s1)"

definition handle_IRQ_event ::
    "(nat \<Rightarrow> nat \<Rightarrow> irqs \<Rightarrow> u32 \<times> irqs) \<Rightarrow> nat \<Rightarrow> nat option \<Rightarrow> irqs \<Rightarrow> (u32 \<times> irqs) option" where
  "handle_IRQ_event run i act s =
     (case act of
        None \<Rightarrow> None
      | Some a \<Rightarrow>
          let s1 = (if a_flags (actions s a) AND SA_INTERRUPT = 0 then s\<lparr>cpu_if := True\<rparr> else s)
          in map_option (\<lambda>(r, t). (r, t\<lparr>cpu_if := False\<rparr>)) (run_actions run i a 0 s1))"

text \<open>
  \<open>__do_IRQ\<close>. Off the per-cpu path it takes the descriptor's lock, acknowledges, and returns
  without releasing the lock.
\<close>

definition do_IRQ_inner ::
    "device \<Rightarrow> (nat \<Rightarrow> nat \<Rightarrow> irqs \<Rightarrow> u32 \<times> irqs) \<Rightarrow> nat \<Rightarrow> irqs \<Rightarrow> (u32 \<times> irqs) option" where
  "do_IRQ_inner dev run i s =
     (if d_status (irq_desc s i) AND IRQ_PER_CPU \<noteq> 0 then do {
        s1 \<leftarrow> hw_ack dev (d_handler (irq_desc s i)) i s;
        (ret, s2) \<leftarrow> handle_IRQ_event run i (d_action (irq_desc s1 i)) s1;
        s3 \<leftarrow> hw_end (d_handler (irq_desc s2 i)) i s2;
        Some (1, s3) }
      else do {
        l \<leftarrow> spin_lock (d_lock (irq_desc s i));
        s1 \<leftarrow> hw_ack dev (d_handler (irq_desc s i)) i (upd_desc i (\<lambda>d. d\<lparr>d_lock := l\<rparr>) s);
        Some (1, s1) })"

text \<open>\<open>do_IRQ\<close>: the low byte of what the stub pushed selects the descriptor.\<close>

definition do_IRQ ::
    "device \<Rightarrow> (nat \<Rightarrow> nat \<Rightarrow> irqs \<Rightarrow> u32 \<times> irqs) \<Rightarrow> u32 \<Rightarrow> irqs \<Rightarrow> irqs option" where
  "do_IRQ dev run orig_eax s = map_option snd (do_IRQ_inner dev run (unat (orig_eax AND 0xff)) s)"

section \<open>Start-up\<close>

fun init_irq_descs :: "nat list \<Rightarrow> irqs \<Rightarrow> irqs" where
  "init_irq_descs [] s = s"
| "init_irq_descs (i # is) s = init_irq_descs is
     (upd_desc i (\<lambda>d. d\<lparr>d_status := IRQ_DISABLED, d_action := None, d_depth := 1,
        d_handler := (if i < 16 then i8259A_irq_type else no_irq_type)\<rparr>) s)"

definition init_ISA_irqs :: "irqs \<Rightarrow> irqs option" where
  "init_ISA_irqs s = map_option (init_irq_descs [0..<NR_IRQS]) (init_8259A False s)"

end
