(* ===== verification/IrqProps.thy ===== *)
theory IrqProps
  imports Irq
begin

text \<open>
  The interrupt code: the mask registers of the controllers mirror the cached mask in every
  reachable state, handlers are registered at the end of the chain and each runs once, and the
  path that keeps a descriptor's lock.
\<close>

section \<open>Operations with the lock free\<close>

lemma lock_8259A_free:
  "unlocked (i8259A_lock s) \<Longrightarrow> lock_8259A s
     = Some (cpu_if s, s\<lparr>cpu_if := False, i8259A_lock := set_lock_byte 0 (i8259A_lock s)\<rparr>)"
  by (simp add: lock_8259A_def)

lemma do_outb_simps [simp]:
  "io (do_outb v p s) = outb v p (io s)" "cached_irq_mask (do_outb v p s) = cached_irq_mask s"
  "i8259A_lock (do_outb v p s) = i8259A_lock s" "irq_desc (do_outb v p s) = irq_desc s"
  "actions (do_outb v p s) = actions s" "cpu_if (do_outb v p s) = cpu_if s"
  "ack_8259A (do_outb v p s) = ack_8259A s"
  "cached_master_mask (do_outb v p s) = cached_master_mask s" "cached_slave_mask (do_outb v p s) = cached_slave_mask s"
  by (simp_all add: do_outb_def cached_master_mask_def cached_slave_mask_def)

lemma out_mask_simps [simp]:
  "cached_irq_mask (out_mask i s) = cached_irq_mask s"
  "i8259A_lock (out_mask i s) = i8259A_lock s" "irq_desc (out_mask i s) = irq_desc s"
  "actions (out_mask i s) = actions s" "cpu_if (out_mask i s) = cpu_if s" "ack_8259A (out_mask i s) = ack_8259A s"
  by (simp_all add: out_mask_def)

lemma nat_and_8: "i < 16 \<Longrightarrow> (i AND 8 = 0) = (i < (8 :: nat))"
proof -
  assume i: "i < 16"
  have "i AND 2 ^ k = (if bit i k then 2 ^ k else 0)" for k
    by (rule bit_eqI) (auto simp: bit_simps)
  from this [of 3] have "i AND 8 = (if bit i 3 then 8 else 0)" by simp
  moreover have "bit i 3 = (8 \<le> i)"
  proof -
    have "i div 8 = (if 8 \<le> i then 1 else 0)" using i by auto
    then show ?thesis by (simp add: bit_iff_odd)
  qed
  ultimately show ?thesis by simp
qed

section \<open>The mask registers\<close>

definition imr_mirrored :: "irqs \<Rightarrow> bool" where
  "imr_mirrored s \<longleftrightarrow> last_out PIC_MASTER_IMR (io s) = Some (cached_master_mask s)
     \<and> last_out PIC_SLAVE_IMR (io s) = Some (cached_slave_mask s)"

definition pic_inv :: "irqs \<Rightarrow> bool" where
  "pic_inv s \<longleftrightarrow> unlocked (i8259A_lock s) \<and> imr_mirrored s"

text \<open>Changing the bit of one line changes only the byte that is written out.\<close>

lemma mask_bytes:
  assumes "i < 16"
  shows "8 \<le> i \<Longrightarrow> (ucast (w OR bit_of i) :: u8) = ucast w" "8 \<le> i \<Longrightarrow> (ucast (w AND NOT (bit_of i)) :: u8) = ucast w"
    "i < 8 \<Longrightarrow> (ucast (drop_bit 8 (w OR bit_of i)) :: u8) = ucast (drop_bit 8 w)"
    "i < 8 \<Longrightarrow> (ucast (drop_bit 8 (w AND NOT (bit_of i))) :: u8) = ucast (drop_bit 8 w)"
  using assms unfolding bit_of_def by (auto intro!: bit_eqI simp: bit_simps)

lemma disable_8259A_eq:
  assumes "unlocked (i8259A_lock s)"
  shows "disable_8259A_irq i s = Some (out_mask i (s\<lparr>cached_irq_mask := cached_irq_mask s OR bit_of i\<rparr>))"
  using assms spin_lock_unlock [OF assms]
  by (simp add: disable_8259A_irq_def lock_8259A_free unlock_8259A_def out_mask_def do_outb_def
      cached_master_mask_def cached_slave_mask_def Let_def)

lemma enable_8259A_eq:
  assumes "unlocked (i8259A_lock s)"
  shows "enable_8259A_irq i s = Some (upd_desc i (\<lambda>d. d\<lparr>d_status := IRQ_PER_CPU\<rparr>)
     (out_mask i (s\<lparr>cached_irq_mask := cached_irq_mask s AND NOT (bit_of i)\<rparr>)))"
  using assms spin_lock_unlock [OF assms]
  by (simp add: enable_8259A_irq_def lock_8259A_free unlock_8259A_def out_mask_def do_outb_def
      cached_master_mask_def cached_slave_mask_def upd_desc_def Let_def)

lemma out_mask_mirrored:
  assumes "imr_mirrored s" "i < 16" "m = cached_irq_mask s OR bit_of i \<or> m = cached_irq_mask s AND NOT (bit_of i)"
  shows "imr_mirrored (out_mask i (s\<lparr>cached_irq_mask := m\<rparr>))"
proof (cases "8 \<le> i")
  case True
  then show ?thesis using assms mask_bytes(1,2) [OF assms(2) True, of "cached_irq_mask s"]
    by (auto simp: imr_mirrored_def out_mask_def nat_and_8 pic_ports cached_master_mask_def cached_slave_mask_def)
next
  case False
  then have "i < 8" by simp
  then show ?thesis using assms mask_bytes(3,4) [OF assms(2), of "cached_irq_mask s"] False
    by (auto simp: imr_mirrored_def out_mask_def nat_and_8 pic_ports cached_master_mask_def cached_slave_mask_def)
qed

lemma upd_desc_pic [simp]: "imr_mirrored (upd_desc i f s) = imr_mirrored s" "i8259A_lock (upd_desc i f s) = i8259A_lock s"
  "cached_irq_mask (upd_desc i f s) = cached_irq_mask s" "io (upd_desc i f s) = io s"
  "cpu_if (upd_desc i f s) = cpu_if s" "actions (upd_desc i f s) = actions s"
  "irq_desc (upd_desc i f s) j = (if j = i then f (irq_desc s i) else irq_desc s j)"
  "ack_8259A (upd_desc i f s) = ack_8259A s"
  by (simp_all add: upd_desc_def imr_mirrored_def cached_master_mask_def cached_slave_mask_def)

lemma disable_8259A_inv:
  assumes "pic_inv s" "i < 16"
  shows "\<exists>s'. disable_8259A_irq i s = Some s' \<and> pic_inv s' \<and> cpu_if s' = cpu_if s
    \<and> cached_irq_mask s' = cached_irq_mask s OR bit_of i \<and> irq_desc s' = irq_desc s \<and> actions s' = actions s"
  using assms out_mask_mirrored [of s i "cached_irq_mask s OR bit_of i"]
  by (simp add: pic_inv_def disable_8259A_eq)

lemma enable_8259A_inv:
  assumes "pic_inv s" "i < 16"
  shows "\<exists>s'. enable_8259A_irq i s = Some s' \<and> pic_inv s' \<and> cpu_if s' = cpu_if s
    \<and> cached_irq_mask s' = cached_irq_mask s AND NOT (bit_of i)
    \<and> irq_desc s' = (irq_desc s)(i := (irq_desc s i)\<lparr>d_status := IRQ_PER_CPU\<rparr>) \<and> actions s' = actions s"
  using assms out_mask_mirrored [of s i "cached_irq_mask s AND NOT (bit_of i)"]
  by (auto simp: pic_inv_def enable_8259A_eq fun_eq_iff)

section \<open>Acknowledging\<close>

text \<open>The events of the last part of \<open>mask_and_ack_8259A\<close>, with what the dummy read returned.\<close>

definition ack_events :: "u8 \<Rightarrow> u8 \<Rightarrow> u8 \<Rightarrow> nat \<Rightarrow> iolog" where
  "ack_events v master slave i =
     (if 8 \<le> i then [In PIC_SLAVE_IMR v, Out PIC_SLAVE_IMR slave,
        Out PIC_SLAVE_CMD (0x60 + of_nat (i - 8)), Out PIC_MASTER_CMD (0x60 + 2)]
      else [In PIC_MASTER_IMR v, Out PIC_MASTER_IMR master, Out PIC_MASTER_CMD (0x60 + of_nat i)])"

definition poll_events :: "nat \<Rightarrow> u8 \<Rightarrow> iolog" where
  "poll_events i v = (let p = (if 8 \<le> i then PIC_SLAVE_CMD else PIC_MASTER_CMD)
     in [Out p 0x0B, In p v, Out p 0x0A])"

lemma nat_and_7: "i < 16 \<Longrightarrow> 8 \<le> i \<Longrightarrow> i AND 7 = i - (8 :: nat)"
proof -
  assume a: "i < 16" "8 \<le> i"
  have "i AND 7 = i mod 8" using take_bit_eq_mask [of 3 i] by (simp add: take_bit_eq_mod mask_eq_exp_minus_1)
  also have "\<dots> = i - 8" using a by (simp add: le_mod_geq)
  finally show ?thesis .
qed

lemma handle_real_irq_eq:
  assumes "i < 16"
  shows "\<exists>v. handle_real_irq dev i s = s\<lparr>io := io s @ ack_events v (cached_master_mask s) (cached_slave_mask s) i\<rparr>"
proof (cases "8 \<le> i")
  case True
  have "handle_real_irq dev i s = s\<lparr>io := io s
      @ ack_events (dev (io s) PIC_SLAVE_IMR) (cached_master_mask s) (cached_slave_mask s) i\<rparr>"
    using True assms nat_and_8 [OF assms] nat_and_7 [OF assms True]
    by (simp add: handle_real_irq_def do_inb_def inb_def do_outb_def outb_def ack_events_def Let_def
        PIC_CASCADE_IR_def cached_slave_mask_def)
  then show ?thesis by blast
next
  case False
  have "handle_real_irq dev i s = s\<lparr>io := io s
      @ ack_events (dev (io s) PIC_MASTER_IMR) (cached_master_mask s) (cached_slave_mask s) i\<rparr>"
    using False assms nat_and_8 [OF assms]
    by (simp add: handle_real_irq_def do_inb_def inb_def do_outb_def outb_def ack_events_def Let_def
        cached_master_mask_def)
  then show ?thesis by blast
qed

lemma spurious_eq:
  "\<exists>v sp n. spurious_8259A_irq dev i s = s\<lparr>spurious_irq_mask := sp, irq_err_count := n, io := io s @ poll_events i v\<rparr>
     \<and> (n = irq_err_count s \<or> n = irq_err_count s + 1)"
proof -
  define p where "p = (if 8 \<le> i then PIC_SLAVE_CMD else PIC_MASTER_CMD)"
  define l where "l = outb 0x0B p (io s)"
  define v where "v = dev l p"
  have r: "snd (i8259A_irq_real dev i s) = s\<lparr>io := io s @ poll_events i v\<rparr>"
    by (auto simp: i8259A_irq_real_def do_inb_def inb_def do_outb_def outb_def poll_events_def Let_def
        v_def l_def p_def)
  obtain real where e: "i8259A_irq_real dev i s = (real, s\<lparr>io := io s @ poll_events i v\<rparr>)"
    using r by (metis prod.collapse)
  show ?thesis
  proof (cases "real = 0")
    case True
    then show ?thesis unfolding spurious_8259A_irq_def e
      by (intro exI [of _ v] exI [of _ "if spurious_irq_mask s AND bit_of i = 0
          then spurious_irq_mask s OR bit_of i else spurious_irq_mask s"] exI [of _ "irq_err_count s + 1"])
         (simp add: Let_def atomic_inc_def)
  next
    case False
    then show ?thesis unfolding spurious_8259A_irq_def e
      by (intro exI [of _ v] exI [of _ "spurious_irq_mask s"] exI [of _ "irq_err_count s"]) (simp add: Let_def)
  qed
qed

lemma or_bit_set: "w AND bit_of i \<noteq> 0 \<Longrightarrow> w OR bit_of i = (w :: u32)"
proof -
  assume "w AND bit_of i \<noteq> 0"
  then obtain j where "bit (w AND bit_of i) j" by (metis bit_eq_iff bit_0_eq bot_apply bot_bool_def)
  then have "j = i" "bit w i" by (auto simp: bit_of_def bit_simps)
  then show ?thesis by (intro bit_eqI) (auto simp: bit_of_def bit_simps)
qed

text \<open>
  What an acknowledgement does, on both paths: the line ends up masked, the controller has seen
  the polling (when the line was masked before), then the mask, then the end of interrupt, the
  slave's before the cascade's.
\<close>

lemma mask_and_ack_eq:
  assumes lk: "unlocked (i8259A_lock s)" and i: "i < 16"
  shows "\<exists>s' v w sp n. mask_and_ack_8259A dev i s = Some s'
    \<and> s' = s\<lparr>cached_irq_mask := cached_irq_mask s OR bit_of i, spurious_irq_mask := sp, irq_err_count := n,
        io := io s @ (if cached_irq_mask s AND bit_of i \<noteq> 0 then poll_events i w else [])
           @ ack_events v (cached_master_mask s') (cached_slave_mask s') i\<rparr>"
proof -
  define s1 where "s1 = s\<lparr>cpu_if := False, i8259A_lock := set_lock_byte 0 (i8259A_lock s)\<rparr>"
  have l: "lock_8259A s = Some (cpu_if s, s1)" using lock_8259A_free [OF lk] by (simp add: s1_def)
  have ul: "spin_unlock (set_lock_byte 0 (i8259A_lock s)) = i8259A_lock s" by (rule spin_lock_unlock [OF lk])
  show ?thesis
  proof (cases "cached_irq_mask s AND bit_of i = 0")
    case True
    define s2 where "s2 = s1\<lparr>cached_irq_mask := cached_irq_mask s1 OR bit_of i\<rparr>"
    obtain v where h: "handle_real_irq dev i s2 = s2\<lparr>io := io s2 @ ack_events v (cached_master_mask s2) (cached_slave_mask s2) i\<rparr>"
      using handle_real_irq_eq [OF i] by blast
    define s' where "s' = unlock_8259A (cpu_if s) (handle_real_irq dev i s2)"
    have "mask_and_ack_8259A dev i s = Some s'"
      using True l by (simp add: mask_and_ack_8259A_def s2_def s'_def s1_def)
    moreover have "s' = s\<lparr>cached_irq_mask := cached_irq_mask s OR bit_of i, spurious_irq_mask := spurious_irq_mask s,
        irq_err_count := irq_err_count s,
        io := io s @ (if cached_irq_mask s AND bit_of i \<noteq> 0 then poll_events i 0 else [])
           @ ack_events v (cached_master_mask s2) (cached_slave_mask s2) i\<rparr>"
      using True ul unfolding s'_def unlock_8259A_def h by (simp add: s2_def s1_def cached_master_mask_def cached_slave_mask_def)
    moreover have "cached_master_mask s' = cached_master_mask s2" "cached_slave_mask s' = cached_slave_mask s2"
      by (simp_all add: s'_def unlock_8259A_def h cached_master_mask_def cached_slave_mask_def)
    ultimately show ?thesis by metis
  next
    case False
    obtain w sp n where sp: "spurious_8259A_irq dev i s1 = s1\<lparr>spurious_irq_mask := sp, irq_err_count := n, io := io s1 @ poll_events i w\<rparr>"
      using spurious_eq by blast
    define s2 where "s2 = s1\<lparr>spurious_irq_mask := sp, irq_err_count := n, io := io s1 @ poll_events i w\<rparr>"
    obtain v where h: "handle_real_irq dev i s2 = s2\<lparr>io := io s2 @ ack_events v (cached_master_mask s2) (cached_slave_mask s2) i\<rparr>"
      using handle_real_irq_eq [OF i] by blast
    define s' where "s' = unlock_8259A (cpu_if s) (handle_real_irq dev i s2)"
    have "mask_and_ack_8259A dev i s = Some s'"
      using False l sp [folded s2_def] by (simp add: mask_and_ack_8259A_def s'_def) (simp add: s1_def)
    moreover have "s' = s\<lparr>cached_irq_mask := cached_irq_mask s OR bit_of i, spurious_irq_mask := sp, irq_err_count := n,
        io := io s @ (if cached_irq_mask s AND bit_of i \<noteq> 0 then poll_events i w else [])
           @ ack_events v (cached_master_mask s2) (cached_slave_mask s2) i\<rparr>"
      using False ul or_bit_set [OF False] unfolding s'_def unlock_8259A_def h
      by (simp add: s2_def s1_def cached_master_mask_def cached_slave_mask_def)
    moreover have "cached_master_mask s' = cached_master_mask s2" "cached_slave_mask s' = cached_slave_mask s2"
      by (simp_all add: s'_def unlock_8259A_def h cached_master_mask_def cached_slave_mask_def)
    ultimately show ?thesis by metis
  qed
qed

lemma last_out_append:
  "last_out p (l @ m) = (case last_out p m of None \<Rightarrow> last_out p l | Some v \<Rightarrow> Some v)"
proof (induction m rule: rev_induct)
  case (snoc e m)
  then show ?case by (cases e) (auto simp flip: append_assoc split: option.splits)
qed (simp add: last_out_def)

lemma imr_events:
  "last_out PIC_MASTER_IMR (ack_events v a b i) = (if 8 \<le> i then None else Some a)"
  "last_out PIC_SLAVE_IMR (ack_events v a b i) = (if 8 \<le> i then Some b else None)"
  "last_out PIC_MASTER_IMR (poll_events i w) = None" "last_out PIC_SLAVE_IMR (poll_events i w) = None"
  by (simp_all add: ack_events_def poll_events_def last_out_def pic_ports Let_def)

lemma mask_and_ack_inv:
  assumes "pic_inv s" "i < 16"
  shows "\<exists>s'. mask_and_ack_8259A dev i s = Some s' \<and> pic_inv s' \<and> cpu_if s' = cpu_if s
    \<and> cached_irq_mask s' = cached_irq_mask s OR bit_of i \<and> irq_desc s' = irq_desc s \<and> actions s' = actions s
    \<and> ack_8259A s' = ack_8259A s"
proof -
  obtain s' v w sp n where r: "mask_and_ack_8259A dev i s = Some s'"
    and e: "s' = s\<lparr>cached_irq_mask := cached_irq_mask s OR bit_of i, spurious_irq_mask := sp, irq_err_count := n,
        io := io s @ (if cached_irq_mask s AND bit_of i \<noteq> 0 then poll_events i w else [])
           @ ack_events v (cached_master_mask s') (cached_slave_mask s') i\<rparr>"
    using mask_and_ack_eq [of s i dev] assms by (auto simp: pic_inv_def)
  have c: "cached_irq_mask s' = cached_irq_mask s OR bit_of i" by (subst e) simp
  have i: "io s' = io s @ (if cached_irq_mask s AND bit_of i \<noteq> 0 then poll_events i w else [])
           @ ack_events v (cached_master_mask s') (cached_slave_mask s') i" by (subst e) simp
  have m: "8 \<le> i \<Longrightarrow> cached_master_mask s' = cached_master_mask s" "\<not> 8 \<le> i \<Longrightarrow> cached_slave_mask s' = cached_slave_mask s"
    using mask_bytes [OF assms(2), of "cached_irq_mask s"] by (simp_all add: cached_master_mask_def cached_slave_mask_def c)
  have "imr_mirrored s'"
    using assms(1) m unfolding imr_mirrored_def i
    by (simp add: last_out_append imr_events pic_inv_def imr_mirrored_def last_out_def [of _ "[]"])
  moreover have "i8259A_lock s' = i8259A_lock s" "cpu_if s' = cpu_if s" "irq_desc s' = irq_desc s"
    "actions s' = actions s" "ack_8259A s' = ack_8259A s" by (subst e, simp)+
  ultimately show ?thesis using r c assms(1) by (simp add: pic_inv_def)
qed

lemma init_8259A_inv:
  assumes "unlocked (i8259A_lock s)"
  shows "\<exists>s'. init_8259A a s = Some s' \<and> pic_inv s' \<and> cpu_if s' = cpu_if s \<and> cached_irq_mask s' = cached_irq_mask s
    \<and> actions s' = actions s \<and> irq_desc s' = irq_desc s \<and> ack_8259A s' = (if a then AckDisable else AckMask)"
  using spin_lock_unlock [OF assms] assms
  by (simp add: init_8259A_def lock_8259A_free unlock_8259A_def Let_def pic_inv_def imr_mirrored_def
      do_outb_def cached_master_mask_def cached_slave_mask_def pic_ports)

section \<open>Reachable controller states\<close>

text \<open>Any sequence of operations on the 16 lines after \<open>init_8259A\<close>.\<close>

inductive pic_reach :: "device \<Rightarrow> irqs \<Rightarrow> irqs \<Rightarrow> bool" for dev s0 where
  init: "init_8259A a s0 = Some s \<Longrightarrow> pic_reach dev s0 s"
| disable: "pic_reach dev s0 s \<Longrightarrow> i < 16 \<Longrightarrow> disable_8259A_irq i s = Some s' \<Longrightarrow> pic_reach dev s0 s'"
| enable: "pic_reach dev s0 s \<Longrightarrow> i < 16 \<Longrightarrow> enable_8259A_irq i s = Some s' \<Longrightarrow> pic_reach dev s0 s'"
| ack: "pic_reach dev s0 s \<Longrightarrow> i < 16 \<Longrightarrow> mask_and_ack_8259A dev i s = Some s' \<Longrightarrow> pic_reach dev s0 s'"
| finish: "pic_reach dev s0 s \<Longrightarrow> i < 16 \<Longrightarrow> end_8259A_irq i s = Some s' \<Longrightarrow> pic_reach dev s0 s'"

lemma end_8259A_inv:
  assumes "pic_inv s" "i < 16"
  shows "\<exists>s'. end_8259A_irq i s = Some s' \<and> pic_inv s' \<and> cpu_if s' = cpu_if s \<and> actions s' = actions s"
  using assms enable_8259A_inv [OF assms] by (auto simp: end_8259A_irq_def)

lemma pic_reach_inv:
  assumes "pic_reach dev s0 s" "unlocked (i8259A_lock s0)"
  shows "pic_inv s \<and> cpu_if s = cpu_if s0"
  using assms
proof induction
  case (init a s)
  with init_8259A_inv [of s0 a] show ?case by auto
next
  case (disable s i s')
  with disable_8259A_inv [of s i] show ?case by auto
next
  case (enable s i s')
  with enable_8259A_inv [of s i] show ?case by auto
next
  case (ack s i s')
  with mask_and_ack_inv [of s i dev] show ?case by auto
next
  case (finish s i s')
  with end_8259A_inv [of s i] show ?case by auto
qed

section \<open>Chains of actions\<close>

fun chain :: "(nat \<Rightarrow> irqaction) \<Rightarrow> nat option \<Rightarrow> nat list \<Rightarrow> bool" where
  "chain acts p [] \<longleftrightarrow> p = None"
| "chain acts p (a # as) \<longleftrightarrow> p = Some a \<and> chain acts (a_next (acts a)) as"

lemma last_action_chain: "chain acts (Some a) as \<Longrightarrow> last_action acts a = Some (last as)"
proof (induction as arbitrary: a)
  case (Cons b bs)
  then have b: "b = a" "chain acts (a_next (acts a)) bs" by auto
  show ?case
  proof (cases bs)
    case Nil
    with b show ?thesis by (simp add: last_action.simps)
  next
    case (Cons c cs)
    with b have "a_next (acts a) = Some c" by simp
    with b Cons.IH [of c] Cons show ?thesis by (simp add: last_action.simps)
  qed
qed simp

text \<open>A chain that ends visits no action twice.\<close>

lemma chain_unique: "chain acts p as \<Longrightarrow> chain acts p bs \<Longrightarrow> as = bs"
  by (induction as arbitrary: p bs) (auto, (case_tac bs; auto)+)

lemma chain_suffix: "chain acts p (as @ a # bs) \<Longrightarrow> chain acts (Some a) (a # bs)"
  by (induction as arbitrary: p) auto

lemma chain_distinct:
  assumes "chain acts p as"
  shows "distinct as"
proof (rule ccontr)
  assume "\<not> distinct as"
  then obtain xs ys zs a where e: "as = xs @ [a] @ ys @ [a] @ zs" using not_distinct_decomp by blast
  have "chain acts (Some a) (a # (ys @ a # zs))" using assms e chain_suffix [of acts p xs a "ys @ a # zs"] by simp
  moreover have "chain acts (Some a) (a # zs)" using assms e chain_suffix [of acts p "xs @ a # ys" a zs] by simp
  ultimately have "a # (ys @ a # zs) = a # zs" by (rule chain_unique)
  then have "length (ys @ a # zs) = length zs" by simp
  then show False by simp
qed

lemma chain_append:
  assumes "chain acts (Some a) as" "new \<notin> set as" "a_next (acts new) = None"
  shows "chain (acts(last as := (acts (last as))\<lparr>a_next := Some new\<rparr>)) (Some a) (as @ [new])"
  using assms
proof (induction as arbitrary: a)
  case (Cons b bs)
  have d: "distinct (b # bs)" by (rule chain_distinct [OF Cons.prems(1)])
  show ?case
  proof (cases bs)
    case Nil
    with Cons.prems show ?thesis by auto
  next
    case (Cons c cs)
    then have l: "last (b # bs) = last bs" "last bs \<in> set bs" by simp_all
    with d have ne: "b \<noteq> last bs" by auto
    define acts' where "acts' = acts(last bs := (acts (last bs))\<lparr>a_next := Some new\<rparr>)"
    have c: "a = b" "a_next (acts b) = Some c" "chain acts (Some c) bs"
      using Cons.prems(1) Cons by auto
    have "chain acts' (Some c) (bs @ [new])"
      unfolding acts'_def using Cons.prems by (intro Cons.IH c(3)) auto
    moreover have "a_next (acts' b) = Some c" using ne c(2) by (simp add: acts'_def)
    ultimately show ?thesis unfolding l(1) acts'_def [symmetric] using c(1) by simp
  qed
qed simp

lemma chain_frame: "chain acts p as \<Longrightarrow> (\<And>a. a \<in> set as \<Longrightarrow> a_next (acts' a) = a_next (acts a)) \<Longrightarrow> chain acts' p as"
  by (induction as arbitrary: p) auto

section \<open>Registering\<close>

lemma cpu_if_irrelevant [simp]: "pic_inv (s\<lparr>cpu_if := b\<rparr>) = pic_inv s"
  by (simp add: pic_inv_def imr_mirrored_def cached_master_mask_def cached_slave_mask_def)

lemma setup_irq_append:
  assumes hw: "d_handler (irq_desc s i) \<noteq> no_irq_type" and lk: "unlocked (d_lock (irq_desc s i))"
    and act: "d_action (irq_desc s i) = Some old" and ch: "chain (actions s) (Some old) as"
    and sh: "a_flags (actions s old) AND a_flags (actions s new) AND SA_SHIRQ \<noteq> 0"
    and new: "new \<notin> set as" "a_next (actions s new) = None"
  shows "\<exists>s'. setup_irq i new s = Some (0, s') \<and> chain (actions s') (d_action (irq_desc s' i)) (as @ [new])
    \<and> irq_desc s' = irq_desc s \<and> cpu_if s' = cpu_if s \<and> a_irq (actions s' new) = of_nat i"
proof -
  define z where "z = last as"
  have z: "last_action (actions s) old = Some z" unfolding z_def by (rule last_action_chain [OF ch])
  define acts1 where "acts1 = (actions s)(z := (actions s z)\<lparr>a_next := Some new\<rparr>)"
  have c1: "chain acts1 (Some old) (as @ [new])"
    unfolding acts1_def z_def by (rule chain_append [OF ch new])
  define acts2 where "acts2 = acts1(new := (acts1 new)\<lparr>a_irq := of_nat i\<rparr>)"
  have c2: "chain acts2 (Some old) (as @ [new])"
    by (rule chain_frame [OF c1]) (simp add: acts2_def)
  have l: "spin_lock (d_lock (irq_desc s i)) = Some (set_lock_byte 0 (d_lock (irq_desc s i)))"
    "spin_unlock (set_lock_byte 0 (d_lock (irq_desc s i))) = d_lock (irq_desc s i)"
    using lk spin_lock_unlock [OF lk] by simp_all
  have "setup_irq i new s = Some (0, s\<lparr>actions := acts2\<rparr>)"
    using hw act sh z l
    by (simp add: setup_irq_def Let_def upd_desc_def upd_action_def acts2_def acts1_def fun_upd_idem)
  then show ?thesis using c2 act by (simp add: acts2_def)
qed

lemma setup_irq_first:
  assumes hw: "d_handler (irq_desc s i) = i8259A_irq_type" and lk: "unlocked (d_lock (irq_desc s i))"
    and inv: "pic_inv s" "i < 16" and act: "d_action (irq_desc s i) = None" and new: "a_next (actions s new) = None"
  shows "\<exists>s'. setup_irq i new s = Some (0, s') \<and> chain (actions s') (d_action (irq_desc s' i)) [new]
    \<and> d_status (irq_desc s' i) = IRQ_PER_CPU \<and> d_depth (irq_desc s' i) = 0 \<and> unlocked (d_lock (irq_desc s' i))
    \<and> pic_inv s' \<and> cached_irq_mask s' = cached_irq_mask s AND NOT (bit_of i) \<and> cpu_if s' = cpu_if s
    \<and> a_irq (actions s' new) = of_nat i \<and> (\<forall>j. j \<noteq> i \<longrightarrow> irq_desc s' j = irq_desc s j)
    \<and> (\<forall>a. a \<noteq> new \<longrightarrow> actions s' a = actions s a)"
proof -
  have l: "spin_lock (d_lock (irq_desc s i)) = Some (set_lock_byte 0 (d_lock (irq_desc s i)))"
    using lk by simp
  define s1 where "s1 = upd_desc i (\<lambda>d. d\<lparr>d_lock := set_lock_byte 0 (d_lock (irq_desc s i))\<rparr>) (s\<lparr>cpu_if := False\<rparr>)"
  define s2 where "s2 = upd_desc i (\<lambda>d. d\<lparr>d_action := Some new, d_depth := 0,
     d_status := d_status d AND NOT (IRQ_DISABLED OR IRQ_AUTODETECT OR IRQ_WAITING OR IRQ_INPROGRESS)\<rparr>) s1"
  have pm: "pic_inv (upd_desc i f t) = pic_inv t" for f t by (simp add: pic_inv_def)
  have s2: "pic_inv s2" "actions s2 = actions s" "cached_irq_mask s2 = cached_irq_mask s"
    "d_action (irq_desc s2 i) = Some new" "d_depth (irq_desc s2 i) = 0" "\<And>j. j \<noteq> i \<Longrightarrow> irq_desc s2 j = irq_desc s j"
    using inv by (simp_all add: s2_def s1_def pm)
  obtain s3 where s3: "enable_8259A_irq i s2 = Some s3" "pic_inv s3" "cpu_if s3 = cpu_if s2"
      "cached_irq_mask s3 = cached_irq_mask s2 AND NOT (bit_of i)"
      "irq_desc s3 = (irq_desc s2)(i := (irq_desc s2 i)\<lparr>d_status := IRQ_PER_CPU\<rparr>)" "actions s3 = actions s2"
    using enable_8259A_inv [OF s2(1) inv(2)] by blast
  define s4 where "s4 = (upd_desc i (\<lambda>d. d\<lparr>d_lock := spin_unlock (d_lock d)\<rparr>) s3)\<lparr>cpu_if := cpu_if s\<rparr>"
  define s' where "s' = upd_action new (\<lambda>a. a\<lparr>a_irq := of_nat i\<rparr>) s4"
  have hs: "hw_startup i8259A_irq_type i s2 = Some s3"
    using s3(1) by (simp add: hw_startup_def startup_8259A_irq_def)
  have "setup_irq i new s = Some (0, s')"
    using hw act l hs
    by (simp add: setup_irq_def Let_def s1_def [symmetric] s2_def [symmetric] s'_def s4_def) (simp add: s2_def s1_def hw act)
  moreover have "pic_inv s4" using s3(2) by (simp add: s4_def pm)
  then have "pic_inv s'" by (simp add: s'_def upd_action_def pic_inv_def imr_mirrored_def cached_master_mask_def cached_slave_mask_def)
  ultimately show ?thesis using s2 s3 new
    by (auto simp: s'_def s4_def upd_action_def)
qed

section \<open>The properties\<close>

text \<open>
  A state after boot: the lines 0 and 1 belong to the controller, line 1 is served by action 1, and
  actions 1 and 2 agree to share.
\<close>

definition demo_dev :: device where
  "demo_dev = (\<lambda>l p. 0)"

definition demo_irqs :: irqs where
  "demo_irqs = \<lparr>cached_irq_mask = 0xffff, i8259A_lock = SPIN_LOCK_UNLOCKED,
     irq_desc = (\<lambda>i. \<lparr>d_handler = (if i < 16 then i8259A_irq_type else no_irq_type),
        d_action = (if i = 1 then Some 1 else None), d_status = (if i = 1 then IRQ_PER_CPU else IRQ_DISABLED),
        d_depth = 0, d_lock = SPIN_LOCK_UNLOCKED\<rparr>),
     actions = (\<lambda>a. \<lparr>a_flags = SA_INTERRUPT OR SA_SHIRQ, a_next = None, a_irq = 0\<rparr>),
     ack_8259A = AckMask, spurious_irq_mask = 0, irq_err_count = 0, cpu_if = False,
     io = [Out PIC_MASTER_IMR 0xff, Out PIC_SLAVE_IMR 0xff]\<rparr>"

lemma demo_irqs_inv: "pic_inv demo_irqs"
  by (simp add: pic_inv_def imr_mirrored_def demo_irqs_def last_out_def pic_ports cached_master_mask_def
      cached_slave_mask_def)



text \<open>
  C11: in every state that the operations on the sixteen lines reach after \<open>init_8259A\<close>, the mask
  registers of the two controllers hold the two bytes of \<open>cached_irq_mask\<close>, the controller lock is free,
  and the interrupt flag is as it was at the start.
\<close>

theorem pic_masks_mirrored:
  assumes "pic_reach dev s0 s" and "unlocked (i8259A_lock s0)"
  shows "last_out PIC_MASTER_IMR (io s) = Some (cached_master_mask s)
     \<and> last_out PIC_SLAVE_IMR (io s) = Some (cached_slave_mask s)
     \<and> unlocked (i8259A_lock s) \<and> cpu_if s = cpu_if s0"
  using pic_reach_inv [OF assms] by (simp add: pic_inv_def imr_mirrored_def)

theorem pic_masks_mirrored_witness:
  "\<exists>s. pic_reach demo_dev demo_irqs s \<and> last_out PIC_MASTER_IMR (io s) = Some (cached_master_mask s)"
proof -
  have l: "unlocked (i8259A_lock demo_irqs)" using demo_irqs_inv by (simp add: pic_inv_def)
  from init_8259A_inv [OF this, of False] obtain s where "init_8259A False demo_irqs = Some s" by blast
  then have r: "pic_reach demo_dev demo_irqs s" by (rule pic_reach.init)
  from pic_masks_mirrored [OF r l] r show ?thesis by blast
qed

text \<open>
  C28: \<open>mask_and_ack_8259A\<close> masks the line and then sends the specific end of interrupt, to the slave
  before the cascade line of the master; when the line was masked already it first polls the in-service
  register. These port accesses are all it does, in this order.
\<close>

theorem mask_and_ack_protocol:
  assumes "unlocked (i8259A_lock s)" and "i < 16"
  shows "\<exists>s' v w. mask_and_ack_8259A dev i s = Some s'
     \<and> cached_irq_mask s' = cached_irq_mask s OR bit_of i
     \<and> io s' = io s @ (if cached_irq_mask s AND bit_of i \<noteq> 0 then poll_events i w else [])
           @ ack_events v (cached_master_mask s') (cached_slave_mask s') i"
proof -
  obtain s' v w sp n where r: "mask_and_ack_8259A dev i s = Some s'"
    and e: "s' = s\<lparr>cached_irq_mask := cached_irq_mask s OR bit_of i, spurious_irq_mask := sp, irq_err_count := n,
        io := io s @ (if cached_irq_mask s AND bit_of i \<noteq> 0 then poll_events i w else [])
           @ ack_events v (cached_master_mask s') (cached_slave_mask s') i\<rparr>"
    using mask_and_ack_eq [OF assms, of dev] by blast
  have "cached_irq_mask s' = cached_irq_mask s OR bit_of i" by (subst e) simp
  moreover have "io s' = io s @ (if cached_irq_mask s AND bit_of i \<noteq> 0 then poll_events i w else [])
           @ ack_events v (cached_master_mask s') (cached_slave_mask s') i" by (subst e) simp
  ultimately show ?thesis using r by blast
qed

theorem mask_and_ack_protocol_witness:
  "\<exists>s' v w. mask_and_ack_8259A demo_dev 9 demo_irqs = Some s'
     \<and> cached_irq_mask s' = cached_irq_mask demo_irqs OR bit_of 9
     \<and> io s' = io demo_irqs @ (if cached_irq_mask demo_irqs AND bit_of 9 \<noteq> 0 then poll_events 9 w else [])
           @ ack_events v (cached_master_mask s') (cached_slave_mask s') 9"
  by (rule mask_and_ack_protocol) (simp_all add: demo_irqs_def)

text \<open>
  \<open>setup_irq\<close> on a line that has handlers: when the first of them and the new one agree to share,
  the new action becomes the last of the chain; otherwise the result is \<open>-EBUSY\<close>, and on a line without
  a controller \<open>-ENOSYS\<close>, both with the state unchanged.
\<close>

theorem setup_irq_shared:
  assumes "unlocked (d_lock (irq_desc s i))" and "d_action (irq_desc s i) = Some old"
    and "chain (actions s) (Some old) as" and "new \<notin> set as" and "a_next (actions s new) = None"
  shows "if d_handler (irq_desc s i) = no_irq_type then setup_irq i new s = Some (- 38, s)
     else if a_flags (actions s old) AND a_flags (actions s new) AND SA_SHIRQ = 0 then setup_irq i new s = Some (- 16, s)
     else \<exists>s'. setup_irq i new s = Some (0, s') \<and> chain (actions s') (d_action (irq_desc s' i)) (as @ [new])
            \<and> irq_desc s' = irq_desc s \<and> cpu_if s' = cpu_if s"
proof -
  have l: "spin_lock (d_lock (irq_desc s i)) = Some (set_lock_byte 0 (d_lock (irq_desc s i)))"
    "spin_unlock (set_lock_byte 0 (d_lock (irq_desc s i))) = d_lock (irq_desc s i)"
    using assms(1) spin_lock_unlock [OF assms(1)] by simp_all
  show ?thesis
    using setup_irq_append [OF _ assms(1-3) _ assms(4,5)] assms(2) l
    by (auto simp: setup_irq_def Let_def upd_desc_def ENOSYS_def EBUSY_def fun_upd_idem)
qed

theorem setup_irq_shared_witness:
  "\<exists>s'. setup_irq 1 2 demo_irqs = Some (0, s') \<and> chain (actions s') (d_action (irq_desc s' 1)) ([1] @ [2])"
proof -
  have "(SA_INTERRUPT OR SA_SHIRQ) AND (SA_INTERRUPT OR SA_SHIRQ) AND SA_SHIRQ \<noteq> 0"
    by (simp add: SA_INTERRUPT_def SA_SHIRQ_def)
  then show ?thesis
    using setup_irq_shared [of demo_irqs 1 1 "[1]" 2] by (auto simp: demo_irqs_def)
qed

end
