(* ===== verification/IrqChip.thy ===== *)
theory IrqChip
  imports IrqProps
begin

text \<open>
  Serving interrupts. \<open>__do_IRQ\<close> works through the table of functions of a line's controller, \<open>struct hw_interrupt_type\<close>. The locale
  \<open>irq_chip\<close> says what it relies on, \<open>masking_chip\<close> adds what masks a line while it is served; \<open>no_irq_type\<close> and \<open>i8259A_irq_type\<close>
  are the controllers of the kernel.
\<close>

section \<open>The handlers of a chain\<close>

text \<open>The handlers of a chain, one after the other, their results combined.\<close>

definition run_all ::
    "(nat \<Rightarrow> nat \<Rightarrow> irqs \<Rightarrow> u32 \<times> irqs) \<Rightarrow> nat \<Rightarrow> nat list \<Rightarrow> u32 \<times> irqs \<Rightarrow> u32 \<times> irqs" where
  "run_all run i as rs = fold (\<lambda>a (r, s). let (x, t) = run a i s in (r OR x, t)) as rs"

lemma run_actions_chain:
  assumes "chain (actions s) (Some a) as" "\<And>a t. actions (snd (run a i t)) = actions t"
  shows "run_actions run i a r s = Some (run_all run i as (r, s))"
  using assms(1)
proof (induction as arbitrary: a r s)
  case (Cons b bs)
  obtain x t where x: "run a i s = (x, t)" by (metis surj_pair)
  have t: "actions t = actions s" using assms(2) [of a s] x by simp
  have b: "b = a" "chain (actions t) (a_next (actions t a)) bs" using Cons.prems t by auto
  show ?case
  proof (cases bs)
    case Nil
    with b x show ?thesis by (simp add: run_actions.simps run_all_def)
  next
    case (Cons c cs)
    with b have n: "a_next (actions t a) = Some c" by simp
    with b(2) have "run_actions run i c (r OR x) t = Some (run_all run i bs (r OR x, t))"
      by (intro Cons.IH) simp
    with n x b show ?thesis by (subst run_actions.simps) (simp add: run_all_def)
  qed
qed simp

section \<open>Lines\<close>

text \<open>A line with handlers, marked per-cpu.\<close>

definition line_up :: "irqs \<Rightarrow> nat \<Rightarrow> bool" where
  "line_up s i \<longleftrightarrow> i < 16 \<and> d_status (irq_desc s i) = IRQ_PER_CPU
     \<and> (\<exists>a as. d_action (irq_desc s i) = Some a \<and> chain (actions s) (Some a) as)"

definition same_lines :: "irqs \<Rightarrow> irqs \<Rightarrow> bool" where
  "same_lines s s' \<longleftrightarrow> irq_desc s' = irq_desc s \<and> actions s' = actions s"

lemma same_lines_up: "same_lines s s' \<Longrightarrow> line_up s' i = line_up s i"
  by (simp add: same_lines_def line_up_def)

lemma same_lines_trans: "same_lines s t \<Longrightarrow> same_lines t u \<Longrightarrow> same_lines s u"
  by (simp add: same_lines_def)

lemma same_lines_flag [simp]: "same_lines s (t\<lparr>cpu_if := b\<rparr>) = same_lines s t" "same_lines s s"
  by (simp_all add: same_lines_def)

lemma line_upD: "line_up s i \<Longrightarrow> i < 16"
  by (simp add: line_up_def)

lemma line_up_chain:
  assumes "chain (actions s) (d_action (irq_desc s i)) (a # as)" "i < 16" "d_status (irq_desc s i) = IRQ_PER_CPU"
  shows "line_up s i"
proof -
  have "d_action (irq_desc s i) = Some a" using assms(1) by simp
  with assms show ?thesis by (metis line_up_def)
qed

text \<open>Handlers leave the interrupt state alone, up to the invariant of the controller.\<close>

definition keeps :: "(irqs \<Rightarrow> bool) \<Rightarrow> (nat \<Rightarrow> nat \<Rightarrow> irqs \<Rightarrow> u32 \<times> irqs) \<Rightarrow> nat \<Rightarrow> bool" where
  "keeps ok run i \<longleftrightarrow> (\<forall>a t. same_lines t (snd (run a i t))
     \<and> cached_irq_mask (snd (run a i t)) = cached_irq_mask t \<and> (ok t \<longrightarrow> ok (snd (run a i t))))"

lemma run_all_keeps:
  assumes "keeps ok run i"
  shows "same_lines s (snd (run_all run i as (r, s))) \<and> cached_irq_mask (snd (run_all run i as (r, s))) = cached_irq_mask s
    \<and> (ok s \<longrightarrow> ok (snd (run_all run i as (r, s))))"
proof (induction as arbitrary: r s)
  case (Cons a as)
  obtain x t where x: "run a i s = (x, t)" by (metis surj_pair)
  with assms have t: "same_lines s t" "cached_irq_mask t = cached_irq_mask s" "ok s \<longrightarrow> ok t"
    unfolding keeps_def by (metis snd_conv)+
  have "run_all run i (a # as) (r, s) = run_all run i as (r OR x, t)" using x by (simp add: run_all_def)
  then show ?case using Cons.IH [of t "r OR x"] t same_lines_trans [OF t(1)] by auto
qed (simp add: run_all_def)

text \<open>\<open>handle_IRQ_event\<close> runs the chain, with interrupts on unless the first handler asks for them to stay off.\<close>

definition flagged :: "irqs \<Rightarrow> nat \<Rightarrow> irqs" where
  "flagged s a = (if a_flags (actions s a) AND SA_INTERRUPT = 0 then s\<lparr>cpu_if := True\<rparr> else s)"

lemma handle_IRQ_event_runs:
  assumes "keeps ok run i" "d_action (irq_desc s i) = Some a" "chain (actions s) (Some a) as"
  shows "handle_IRQ_event run i (d_action (irq_desc s i)) s
    = Some (fst (run_all run i as (0, flagged s a)), (snd (run_all run i as (0, flagged s a)))\<lparr>cpu_if := False\<rparr>)"
proof -
  have "\<And>b t. actions (snd (run b i t)) = actions t" using assms(1) by (simp add: keeps_def same_lines_def)
  then have "run_actions run i a 0 (flagged s a) = Some (run_all run i as (0, flagged s a))"
    using assms(3) by (intro run_actions_chain) (simp_all add: flagged_def)
  then show ?thesis using assms(2) by (simp add: handle_IRQ_event_def flagged_def Let_def case_prod_unfold)
qed

section \<open>Controllers\<close>

text \<open>The path of \<open>__do_IRQ\<close> for lines marked per-cpu, over the members \<open>ack\<close> and \<open>end\<close> of a table.\<close>

definition serve ::
    "(nat \<Rightarrow> irqs \<Rightarrow> irqs option) \<Rightarrow> (nat \<Rightarrow> irqs \<Rightarrow> irqs option) \<Rightarrow> (nat \<Rightarrow> nat \<Rightarrow> irqs \<Rightarrow> u32 \<times> irqs)
     \<Rightarrow> nat \<Rightarrow> irqs \<Rightarrow> (u32 \<times> irqs) option" where
  "serve ack fin run i s = do {
     s1 \<leftarrow> ack i s;
     (ret, s2) \<leftarrow> handle_IRQ_event run i (d_action (irq_desc s1 i)) s1;
     s3 \<leftarrow> fin i s2;
     Some (1, s3) }"

text \<open>Interrupts one after the other.\<close>

fun irq_run :: "(nat \<Rightarrow> irqs \<Rightarrow> (u32 \<times> irqs) option) \<Rightarrow> nat list \<Rightarrow> irqs \<Rightarrow> irqs option" where
  "irq_run f [] s = Some s"
| "irq_run f (i # is) s = Option.bind (f i s) (\<lambda>(r, s1). irq_run f is s1)"

text \<open>\<open>ok\<close> is the invariant of the controller.\<close>

locale irq_chip =
  fixes ack fin :: "nat \<Rightarrow> irqs \<Rightarrow> irqs option"
    and ok :: "irqs \<Rightarrow> bool"
  assumes ack_returns: "ok s \<Longrightarrow> i < 16 \<Longrightarrow> \<exists>s'. ack i s = Some s' \<and> ok s' \<and> same_lines s s'"
    and fin_returns: "ok s \<Longrightarrow> line_up s i \<Longrightarrow> \<exists>s'. fin i s = Some s' \<and> ok s' \<and> same_lines s s'"
    and ok_flag: "ok (s\<lparr>cpu_if := b\<rparr>) = ok s"
begin

lemma serve_steps:
  assumes "ok s" "line_up s i" "keeps ok run i"
  shows "\<exists>s1 r s2 s3. ack i s = Some s1 \<and> handle_IRQ_event run i (d_action (irq_desc s1 i)) s1 = Some (r, s2) \<and> fin i s2 = Some s3
    \<and> same_lines s s1 \<and> same_lines s s2 \<and> same_lines s s3 \<and> cached_irq_mask s2 = cached_irq_mask s1 \<and> ok s2 \<and> ok s3"
proof -
  obtain s1 where s1: "ack i s = Some s1" "ok s1" "same_lines s s1" using ack_returns [OF assms(1) line_upD [OF assms(2)]] by blast
  then have "line_up s1 i" using assms(2) same_lines_up by blast
  then obtain a as where a: "d_action (irq_desc s1 i) = Some a" "chain (actions s1) (Some a) as" by (auto simp: line_up_def)
  let ?u = "run_all run i as (0, flagged s1 a)" and ?s2 = "(snd (run_all run i as (0, flagged s1 a)))\<lparr>cpu_if := False\<rparr>"
  have f: "same_lines s1 (flagged s1 a)" "cached_irq_mask (flagged s1 a) = cached_irq_mask s1" "ok (flagged s1 a)"
    using s1(2) by (simp_all add: flagged_def ok_flag)
  have u: "same_lines (flagged s1 a) ?s2" "cached_irq_mask ?s2 = cached_irq_mask s1" "ok ?s2"
    using run_all_keeps [OF assms(3), of "flagged s1 a" as 0] f by (simp_all add: ok_flag)
  have s2: "same_lines s ?s2" using same_lines_trans [OF same_lines_trans [OF s1(3) f(1)] u(1)] .
  then have "line_up ?s2 i" using assms(2) same_lines_up by blast
  then obtain s3 where s3: "fin i ?s2 = Some s3" "ok s3" "same_lines ?s2 s3" using fin_returns [OF u(3)] by blast
  show ?thesis
    using s1 handle_IRQ_event_runs [OF assms(3) a] s2 s3 u(2,3) same_lines_trans [OF s2 s3(3)]
    by (intro exI [of _ s1] exI [of _ "fst ?u"] exI [of _ ?s2] exI [of _ s3]) simp
qed

lemma serve_returns:
  assumes "ok s" "line_up s i" "keeps ok run i"
  shows "\<exists>s'. serve ack fin run i s = Some (1, s') \<and> ok s' \<and> same_lines s s'"
  using serve_steps [OF assms] by (auto simp: serve_def)

end

text \<open>A controller whose lines are masked while they are served.\<close>

locale masking_chip = irq_chip +
  assumes ack_masks: "ok s \<Longrightarrow> i < 16 \<Longrightarrow> ack i s = Some s' \<Longrightarrow> cached_irq_mask s' = cached_irq_mask s OR bit_of i"
    and fin_unmasks: "ok s \<Longrightarrow> line_up s i \<Longrightarrow> fin i s = Some s' \<Longrightarrow> cached_irq_mask s' = cached_irq_mask s AND NOT (bit_of i)"
begin

lemma serve_unmasks:
  assumes "ok s" "line_up s i" "keeps ok run i"
  shows "\<exists>s'. serve ack fin run i s = Some (1, s') \<and> ok s' \<and> same_lines s s'
    \<and> cached_irq_mask s' = cached_irq_mask s AND NOT (bit_of i)"
proof -
  obtain s1 r s2 s3 where s: "ack i s = Some s1" "handle_IRQ_event run i (d_action (irq_desc s1 i)) s1 = Some (r, s2)" "fin i s2 = Some s3"
      "same_lines s s1" "same_lines s s2" "same_lines s s3" "cached_irq_mask s2 = cached_irq_mask s1" "ok s2" "ok s3"
    using serve_steps [OF assms] by (elim exE conjE) (rule that)
  have "line_up s2 i" using assms(2) same_lines_up [OF s(5)] by simp
  moreover have "(m OR b) AND NOT b = m AND NOT b" for m b :: u32 by (rule bit_eqI) (auto simp: bit_simps)
  ultimately have "cached_irq_mask s3 = cached_irq_mask s AND NOT (bit_of i)"
    using fin_unmasks [OF s(8) _ s(3)] ack_masks [OF assms(1) line_upD [OF assms(2)] s(1)] s(7) by simp
  then show ?thesis using s by (auto simp: serve_def)
qed

lemma serve_all:
  assumes "ok s" "\<And>i. i \<in> set is \<Longrightarrow> line_up s i \<and> keeps ok run i"
  shows "\<exists>s'. irq_run (serve ack fin run) is s = Some s' \<and> ok s' \<and> same_lines s s'
    \<and> cached_irq_mask s' = fold (\<lambda>i m. m AND NOT (bit_of i)) is (cached_irq_mask s)"
  using assms
proof (induction "is" arbitrary: s)
  case (Cons i "is")
  obtain s1 where s1: "serve ack fin run i s = Some (1, s1)" "ok s1" "same_lines s s1"
      "cached_irq_mask s1 = cached_irq_mask s AND NOT (bit_of i)"
    using serve_unmasks [of s i run] Cons.prems by auto
  have "\<exists>s'. irq_run (serve ack fin run) is s1 = Some s' \<and> ok s' \<and> same_lines s1 s'
    \<and> cached_irq_mask s' = fold (\<lambda>i m. m AND NOT (bit_of i)) is (cached_irq_mask s1)"
    using Cons.prems same_lines_up [OF s1(3)] by (intro Cons.IH s1(2)) auto
  with s1 same_lines_trans [OF s1(3)] show ?case by auto
qed simp

end

section \<open>The controllers of the kernel\<close>

lemma hw_ack_returns:
  assumes "pic_inv s" "i < 16"
  shows "\<exists>s'. hw_ack dev h i s = Some s' \<and> pic_inv s' \<and> same_lines s s'"
  using mask_and_ack_inv [OF assms, of dev] disable_8259A_inv [OF assms] assms(1)
  by (cases h; cases "ack_8259A s") (auto simp: hw_ack_def same_lines_def)

lemma end_8259A_up:
  assumes "pic_inv s" "line_up s i"
  shows "\<exists>s'. end_8259A_irq i s = Some s' \<and> pic_inv s' \<and> same_lines s s' \<and> cached_irq_mask s' = cached_irq_mask s AND NOT (bit_of i)"
proof -
  have st: "d_status (irq_desc s i) = IRQ_PER_CPU" "d_action (irq_desc s i) \<noteq> None" using assms(2) by (auto simp: line_up_def)
  then have "end_8259A_irq i s = enable_8259A_irq i s"
    by (simp add: end_8259A_irq_def IRQ_PER_CPU_def IRQ_DISABLED_def IRQ_INPROGRESS_def)
  moreover have "(irq_desc s i)\<lparr>d_status := IRQ_PER_CPU\<rparr> = irq_desc s i" using st(1) by simp
  ultimately show ?thesis
    using enable_8259A_inv [OF assms(1) line_upD [OF assms(2)]] by (auto simp: same_lines_def fun_eq_iff)
qed

interpretation chips: irq_chip "hw_ack dev h" "hw_end h" pic_inv for dev h
proof unfold_locales
  show "\<exists>s'. hw_end h i s = Some s' \<and> pic_inv s' \<and> same_lines s s'" if "pic_inv s" "line_up s i" for s i
    using end_8259A_up [OF that] that(1) by (cases h) (auto simp: hw_end_def)
qed (simp_all add: hw_ack_returns)

interpretation pic: masking_chip "hw_ack dev i8259A_irq_type" "hw_end i8259A_irq_type" pic_inv for dev
proof unfold_locales
  show "cached_irq_mask s' = cached_irq_mask s OR bit_of i" if "pic_inv s" "i < 16" "hw_ack dev i8259A_irq_type i s = Some s'" for s i s'
    using mask_and_ack_inv [OF that(1,2), of dev] disable_8259A_inv [OF that(1,2)] that(3)
    by (cases "ack_8259A s") (auto simp: hw_ack_def)
  show "cached_irq_mask s' = cached_irq_mask s AND NOT (bit_of i)"
    if "pic_inv s" "line_up s i" "hw_end i8259A_irq_type i s = Some s'" for s i s'
    using end_8259A_up [OF that(1,2)] that(3) by (auto simp: hw_end_def)
qed

text \<open>\<open>__do_IRQ\<close> is \<open>serve\<close> over the table of the line.\<close>

lemma do_IRQ_inner_serve:
  assumes "pic_inv s" "line_up s i" "keeps pic_inv run i"
  shows "do_IRQ_inner dev run i s = serve (hw_ack dev (d_handler (irq_desc s i))) (hw_end (d_handler (irq_desc s i))) run i s"
proof -
  let ?h = "d_handler (irq_desc s i)"
  obtain s1 r s2 s3 where s: "hw_ack dev ?h i s = Some s1" "handle_IRQ_event run i (d_action (irq_desc s1 i)) s1 = Some (r, s2)"
      "hw_end ?h i s2 = Some s3" "same_lines s s1" "same_lines s s2" "same_lines s s3" "cached_irq_mask s2 = cached_irq_mask s1"
      "pic_inv s2" "pic_inv s3"
    using chips.serve_steps [OF assms, of dev ?h] by (elim exE conjE) (rule that)
  have "d_status (irq_desc s i) AND IRQ_PER_CPU \<noteq> 0" using assms(2) by (simp add: line_up_def IRQ_PER_CPU_def)
  then show ?thesis using s(1-3,5) by (simp add: do_IRQ_inner_def serve_def same_lines_def)
qed

lemma irq_run_serve:
  assumes "pic_inv s" "\<And>i. i \<in> set is \<Longrightarrow> line_up s i \<and> d_handler (irq_desc s i) = h \<and> keeps pic_inv run i"
  shows "irq_run (do_IRQ_inner dev run) is s = irq_run (serve (hw_ack dev h) (hw_end h) run) is s"
  using assms
proof (induction "is" arbitrary: s)
  case (Cons i "is")
  have i: "line_up s i" "d_handler (irq_desc s i) = h" "keeps pic_inv run i" using Cons.prems(2) by auto
  obtain s1 where s1: "serve (hw_ack dev h) (hw_end h) run i s = Some (1, s1)" "pic_inv s1" "same_lines s s1"
    using chips.serve_returns [OF Cons.prems(1) i(1,3), of dev h] by blast
  have "irq_run (do_IRQ_inner dev run) is s1 = irq_run (serve (hw_ack dev h) (hw_end h) run) is s1"
    using Cons.prems(2) s1(3) by (intro Cons.IH s1(2)) (auto simp: same_lines_up [OF s1(3)] same_lines_def)
  then show ?case using s1(1) do_IRQ_inner_serve [OF Cons.prems(1) i(1,3), of dev] i(2) by simp
qed simp

text \<open>Lines of different controllers.\<close>

lemma irq_run_returns:
  assumes "pic_inv s" "\<And>i. i \<in> set is \<Longrightarrow> line_up s i \<and> keeps pic_inv run i"
  shows "\<exists>s'. irq_run (do_IRQ_inner dev run) is s = Some s' \<and> pic_inv s' \<and> same_lines s s'"
  using assms
proof (induction "is" arbitrary: s)
  case (Cons i "is")
  have i: "line_up s i" "keeps pic_inv run i" using Cons.prems(2) by auto
  obtain s1 where s1: "do_IRQ_inner dev run i s = Some (1, s1)" "pic_inv s1" "same_lines s s1"
    using chips.serve_returns [OF Cons.prems(1) i, of dev "d_handler (irq_desc s i)"]
      do_IRQ_inner_serve [OF Cons.prems(1) i, of dev] by auto
  have "\<exists>s'. irq_run (do_IRQ_inner dev run) is s1 = Some s' \<and> pic_inv s' \<and> same_lines s1 s'"
    using Cons.prems(2) same_lines_up [OF s1(3)] by (intro Cons.IH s1(2)) auto
  then show ?case using s1(1) same_lines_trans [OF s1(3)] by auto
qed simp

section \<open>The properties\<close>



text \<open>
  C27: on a line that is not marked per-cpu, \<open>__do_IRQ\<close> returns with the lock of the descriptor held:
  the next interrupt on that line waits for it for ever.
\<close>

theorem unmarked_line_deadlocks:
  assumes "pic_inv s" and "i < 16" and "d_status (irq_desc s i) AND IRQ_PER_CPU = 0"
    and "unlocked (d_lock (irq_desc s i))"
  shows "\<exists>s'. do_IRQ_inner dev run i s = Some (1, s') \<and> do_IRQ_inner dev run i s' = None"
proof -
  define l where "l = set_lock_byte 0 (d_lock (irq_desc s i))"
  define s1 where "s1 = upd_desc i (\<lambda>d. d\<lparr>d_lock := l\<rparr>) s"
  have l: "spin_lock (d_lock (irq_desc s i)) = Some l" using assms(4) by (simp add: l_def)
  have h: "spin_lock l = None" by (rule spin_lock_held [OF l assms(4)])
  have inv: "pic_inv s1" using assms(1) by (simp add: s1_def pic_inv_def)
  obtain s' where s': "hw_ack dev (d_handler (irq_desc s i)) i s1 = Some s'" "irq_desc s' = irq_desc s1"
    using chips.ack_returns [OF inv assms(2)] by (auto simp: same_lines_def)
  have "do_IRQ_inner dev run i s = Some (1, s')"
    using assms(3) l s'(1) by (simp add: do_IRQ_inner_def s1_def)
  moreover have "do_IRQ_inner dev run i s' = None"
    using s'(2) assms(3) h by (simp add: do_IRQ_inner_def s1_def)
  ultimately show ?thesis by blast
qed

theorem unmarked_line_deadlocks_witness:
  "\<exists>s'. do_IRQ_inner demo_dev (\<lambda>a i t. (0, t)) 5 demo_irqs = Some (1, s')
     \<and> do_IRQ_inner demo_dev (\<lambda>a i t. (0, t)) 5 s' = None"
  by (rule unmarked_line_deadlocks [OF demo_irqs_inv])
     (simp_all add: demo_irqs_def IRQ_DISABLED_def IRQ_PER_CPU_def)

end
