(* ===== verification/Clock.thy ===== *)
theory Clock
  imports Irq "HOL-Library.Signed_Division"
begin

text \<open>
  Time: the real-time clock and the calendar (\<open>kernel/include/kernel/time.h\<close>, \<open>rtc.h\<close>,
  the BCD macros of \<open>util.h\<close>), the interval timer (\<open>kernel/arch/i386/timer_pit.c\<close>,
  \<open>timer_none.c\<close>, \<open>kernel/include/i386/timer.h\<close>), its interrupt and selection
  (\<open>kernel/arch/i386/timer.c\<close>) and the start of the clock (\<open>kernel/kernel/time.c\<close>).
\<close>

section \<open>Constants\<close>

definition HZ :: u32 where "HZ = 1000"
definition USER_HZ :: u32 where "USER_HZ = 100"
definition CLOCK_TICK_RATE :: u32 where "CLOCK_TICK_RATE = 1193182"
definition INITIAL_JIFFIES :: u32 where "INITIAL_JIFFIES = - 300 * HZ"
definition LATCH :: u32 where "LATCH = (CLOCK_TICK_RATE + HZ div 2) div HZ"
definition NSEC_PER_SEC :: u32 where "NSEC_PER_SEC = 1000000000"

definition SH_DIV :: "u32 \<Rightarrow> u32 \<Rightarrow> nat \<Rightarrow> u32" where
  "SH_DIV nom den lsh = push_bit lsh (nom div den) + (push_bit lsh (nom mod den) + den div 2) div den"

definition ACTHZ :: u32 where "ACTHZ = SH_DIV CLOCK_TICK_RATE LATCH 8"
definition TICK_NSEC :: u32 where "TICK_NSEC = SH_DIV (1000000 * 1000) ACTHZ 8"
definition TICK_USEC :: u32 where "TICK_USEC = (1000000 + USER_HZ div 2) div USER_HZ"
definition TICK_SIZE :: u32 where "TICK_SIZE = TICK_NSEC div 1000"

definition RTC_SECONDS :: u8 where "RTC_SECONDS = 0"
definition RTC_MINUTES :: u8 where "RTC_MINUTES = 2"
definition RTC_HOURS :: u8 where "RTC_HOURS = 4"
definition RTC_DAY_OF_MONTH :: u8 where "RTC_DAY_OF_MONTH = 7"
definition RTC_MONTH :: u8 where "RTC_MONTH = 8"
definition RTC_YEAR :: u8 where "RTC_YEAR = 9"
definition RTC_FREQ_SELECT :: u8 where "RTC_FREQ_SELECT = 10"
definition RTC_CONTROL :: u8 where "RTC_CONTROL = 11"
definition RTC_UIP :: u8 where "RTC_UIP = 0x80"
definition RTC_DM_BINARY :: u8 where "RTC_DM_BINARY = 0x04"
definition RTC_ALWAYS_BCD :: u32 where "RTC_ALWAYS_BCD = 1"
definition RTC_PORT :: "u16 \<Rightarrow> u16" where "RTC_PORT x = 0x70 + x"

definition PIT_MODE :: u16 where "PIT_MODE = 0x43"
definition PIT_CH0 :: u16 where "PIT_CH0 = 0x40"

lemmas rtc_regs = RTC_SECONDS_def RTC_MINUTES_def RTC_HOURS_def RTC_DAY_OF_MONTH_def RTC_MONTH_def RTC_YEAR_def
  RTC_FREQ_SELECT_def RTC_CONTROL_def RTC_PORT_def

section \<open>The calendar\<close>

definition BCD2BIN :: "u32 \<Rightarrow> u32" where
  "BCD2BIN val = (val AND 0x0f) + drop_bit 4 val * 10"

definition BIN2BCD :: "u32 \<Rightarrow> u32" where
  "BIN2BCD val = push_bit 4 (val div 10) + val mod 10"

definition mktime :: "u32 \<Rightarrow> u32 \<Rightarrow> u32 \<Rightarrow> u32 \<Rightarrow> u32 \<Rightarrow> u32 \<Rightarrow> u32" where
  "mktime year mon day hour mins secs =
     (let mon1 = mon - 2;
          early = mon1 \<le>s 0;
          mon2 = (if early then mon1 + 12 else mon1);
          year2 = (if early then year - 1 else year)
      in (((year2 div 4 - year2 div 100 + year2 div 400 + 367 * mon2 div 12 + day + year2 * 365 - 719499) * 24
           + hour) * 60 + mins) * 60 + secs)"

section \<open>State\<close>

text \<open>\<open>long\<close> values are words read with sign.\<close>

record timespec =
  tv_sec :: u32
  tv_nsec :: u32

text \<open>The two \<open>struct timer_opts\<close> of the program.\<close>

datatype timer_opts = timer_none | timer_pit

record clock =
  ck_irqs :: irqs
  xtime :: timespec
  wall_to_monotonic :: timespec
  jiffies_64 :: u64
  cur_timer :: "timer_opts option"
  count_p :: int
  jiffies_p :: u32
  last_print :: u64
  rtc_lock :: spinlock
  i8253_lock :: spinlock

definition ck_outb :: "u8 \<Rightarrow> u16 \<Rightarrow> clock \<Rightarrow> clock" where
  "ck_outb v port s = s\<lparr>ck_irqs := do_outb v port (ck_irqs s)\<rparr>"

definition ck_inb :: "device \<Rightarrow> u16 \<Rightarrow> clock \<Rightarrow> u8 \<times> clock" where
  "ck_inb dev port s = (let (v, t) = do_inb dev port (ck_irqs s) in (v, s\<lparr>ck_irqs := t\<rparr>))"

section \<open>Timespecs\<close>

lemma sint_range_u32: "- 2147483648 \<le> sint (w :: u32)" "sint (w :: u32) < 2147483648"
  using sint_greater_eq [of w] sint_less [of w] by simp_all

lemma sint_add_u32 [word_facts]:
  "- 2147483648 \<le> sint a + sint b \<Longrightarrow> sint a + sint b < 2147483648 \<Longrightarrow> sint (a + b) = sint a + sint (b :: u32)"
  by (simp add: signed_take_bit_int_eq_self sint_word_ariths)

lemma sint_sub_u32 [word_facts]:
  "- 2147483648 \<le> sint a - sint b \<Longrightarrow> sint a - sint b < 2147483648 \<Longrightarrow> sint (a - b) = sint a - sint (b :: u32)"
  by (simp add: signed_take_bit_int_eq_self sint_word_ariths)

lemma sint_NSEC [simp]: "sint NSEC_PER_SEC = 1000000000"
  by (simp add: NSEC_PER_SEC_def)

lemma sint_sub_small: "1000000000 < sint nsec \<Longrightarrow> sint (nsec - NSEC_PER_SEC) = sint nsec - 1000000000"
  using sint_range_u32 [of nsec] by (subst sint_sub_u32) simp_all

lemma sint_add_small: "sint nsec < 0 \<Longrightarrow> sint (nsec + NSEC_PER_SEC) = sint nsec + 1000000000"
  using sint_range_u32 [of nsec] by (subst sint_add_u32) simp_all

text \<open>The two loops of \<open>set_normalized_timespec\<close>.\<close>

function nsec_down :: "u32 \<Rightarrow> u32 \<Rightarrow> u32 \<times> u32" where
  "nsec_down sec nsec = (if NSEC_PER_SEC <s nsec then nsec_down (sec + 1) (nsec - NSEC_PER_SEC) else (sec, nsec))"
  by auto
termination
  by (relation "measure (\<lambda>(sec, nsec). nat (sint nsec))")
     (auto simp: word_sless_alt sint_sub_small)

function nsec_up :: "u32 \<Rightarrow> u32 \<Rightarrow> u32 \<times> u32" where
  "nsec_up sec nsec = (if nsec <s 0 then nsec_up (sec - 1) (nsec + NSEC_PER_SEC) else (sec, nsec))"
  by auto
termination
  by (relation "measure (\<lambda>(sec, nsec). nat (- sint nsec))")
     (auto simp: word_sless_alt sint_add_small)

declare nsec_down.simps [simp del] nsec_up.simps [simp del]

definition set_normalized_timespec :: "u32 \<Rightarrow> u32 \<Rightarrow> timespec" where
  "set_normalized_timespec sec nsec =
     (let (sec1, nsec1) = nsec_down sec nsec; (sec2, nsec2) = nsec_up sec1 nsec1
      in \<lparr>tv_sec = sec2, tv_nsec = nsec2\<rparr>)"

section \<open>The real-time clock\<close>

definition CMOS_READ :: "device \<Rightarrow> u8 \<Rightarrow> clock \<Rightarrow> u8 \<times> clock" where
  "CMOS_READ dev addr s = ck_inb dev (RTC_PORT 1) (ck_outb addr (RTC_PORT 0) s)"

text \<open>
  The two waits for the update flag: at most \<open>n\<close> reads, until the flag has the value \<open>want\<close>.
\<close>

fun wait_uip :: "device \<Rightarrow> bool \<Rightarrow> nat \<Rightarrow> clock \<Rightarrow> clock" where
  "wait_uip dev want 0 s = s"
| "wait_uip dev want (Suc n) s =
     (let (v, s1) = CMOS_READ dev RTC_FREQ_SELECT s
      in if (v AND RTC_UIP \<noteq> 0) = want then s1 else wait_uip dev want n s1)"

text \<open>
  Read until the seconds stand still. The loop ends only if the hardware lets it; the six values are
  those of the last round.
\<close>

partial_function (option) read_rtc ::
    "device \<Rightarrow> clock \<Rightarrow> ((u32 \<times> u32 \<times> u32 \<times> u32 \<times> u32 \<times> u32) \<times> clock) option" where
  "read_rtc dev s =
     (let (sec, s1) = CMOS_READ dev RTC_SECONDS s;
          (mins, s2) = CMOS_READ dev RTC_MINUTES s1;
          (hour, s3) = CMOS_READ dev RTC_HOURS s2;
          (day, s4) = CMOS_READ dev RTC_DAY_OF_MONTH s3;
          (mon, s5) = CMOS_READ dev RTC_MONTH s4;
          (year, s6) = CMOS_READ dev RTC_YEAR s5;
          (again, s7) = CMOS_READ dev RTC_SECONDS s6
      in if sec \<noteq> again then read_rtc dev s7
         else Some ((ucast sec, ucast mins, ucast hour, ucast day, ucast mon, ucast year), s7))"

definition mach_get_cmos_time :: "device \<Rightarrow> clock \<Rightarrow> (u32 \<times> clock) option" where
  "mach_get_cmos_time dev s = do {
     let s1 = wait_uip dev True 1000000 s;
     let s2 = wait_uip dev False 1000000 s1;
     ((secs, mins, hour, day, mon, year), s3) \<leftarrow> read_rtc dev s2;
     let (control, s4) = CMOS_READ dev RTC_CONTROL s3;
     let conv = (if control AND RTC_DM_BINARY = 0 \<or> RTC_ALWAYS_BCD \<noteq> 0 then BCD2BIN else id);
     let year1 = conv year + 1900;
     let year2 = (if year1 < 1970 then year1 + 100 else year1);
     Some (mktime year2 (conv mon) (conv day) (conv hour) (conv mins) (conv secs), s4) }"

definition get_cmos_time :: "device \<Rightarrow> clock \<Rightarrow> (u32 \<times> clock) option" where
  "get_cmos_time dev s = do {
     l \<leftarrow> spin_lock (rtc_lock s);
     (retval, s1) \<leftarrow> mach_get_cmos_time dev (s\<lparr>rtc_lock := l\<rparr>);
     Some (retval, s1\<lparr>rtc_lock := spin_unlock (rtc_lock s1)\<rparr>) }"

section \<open>The interval timer\<close>

definition init_pit :: "clock \<Rightarrow> int \<times> clock" where
  "init_pit s = (0, s\<lparr>count_p := sint LATCH\<rparr>)"

text \<open>\<open>spin_lock_irqsave\<close> and its release for the timer lock.\<close>

definition lock_8253 :: "clock \<Rightarrow> (bool \<times> clock) option" where
  "lock_8253 s = map_option (\<lambda>l. (cpu_if (ck_irqs s),
     s\<lparr>i8253_lock := l, ck_irqs := (ck_irqs s)\<lparr>cpu_if := False\<rparr>\<rparr>)) (spin_lock (i8253_lock s))"

definition unlock_8253 :: "bool \<Rightarrow> clock \<Rightarrow> clock" where
  "unlock_8253 flags s = s\<lparr>i8253_lock := spin_unlock (i8253_lock s), ck_irqs := (ck_irqs s)\<lparr>cpu_if := flags\<rparr>\<rparr>"

definition setup_pit_timer :: "clock \<Rightarrow> clock option" where
  "setup_pit_timer s = do {
     (flags, s1) \<leftarrow> lock_8253 s;
     let s2 = ck_outb 0x34 PIT_MODE s1;
     let s3 = ck_outb (ucast (LATCH AND 0xff)) PIT_CH0 s2;
     let s4 = ck_outb (ucast (drop_bit 8 LATCH)) PIT_CH0 s3;
     Some (unlock_8253 flags s4) }"

text \<open>\<open>do_timer_overflow\<close>: a tick that is pending at the controller belongs to the count.\<close>

definition do_timer_overflow :: "device \<Rightarrow> int \<Rightarrow> clock \<Rightarrow> (int \<times> clock) option" where
  "do_timer_overflow dev count s = do {
     l \<leftarrow> spin_lock (i8259A_lock (ck_irqs s));
     let s1 = s\<lparr>ck_irqs := (ck_irqs s)\<lparr>i8259A_lock := l\<rparr>\<rparr>;
     let (v, s2) = ck_inb dev 0x20 s1;
     let s3 = s2\<lparr>ck_irqs := (ck_irqs s2)\<lparr>i8259A_lock := spin_unlock (i8259A_lock (ck_irqs s2))\<rparr>\<rparr>;
     Some (if v AND 1 \<noteq> 0 then count - sint LATCH else count, s3) }"

text \<open>
  \<open>get_offset_pit\<close>. The counter is an \<open>int\<close> below \<open>2 ^ 16\<close>; the product with \<open>TICK_SIZE\<close> is
  an \<open>unsigned long\<close> that is converted back.
\<close>

definition pit_offset :: "int \<Rightarrow> u32" where
  "pit_offset count =
     (let product = sint (word_of_int (sint LATCH - 1 - count) * TICK_SIZE)
      in word_of_int ((product + sint LATCH div 2) sdiv sint LATCH))"

definition get_offset_pit :: "device \<Rightarrow> clock \<Rightarrow> (u32 \<times> clock) option" where
  "get_offset_pit dev s = do {
     (flags, s1) \<leftarrow> lock_8253 s;
     let s2 = ck_outb 0x00 PIT_MODE s1;
     let (lo, s3) = ck_inb dev PIT_CH0 s2;
     let jiffies_t = ucast (jiffies_64 s3);
     let (hi, s4) = ck_inb dev PIT_CH0 s3;
     let count = int (unat lo) OR push_bit 8 (int (unat hi));
     let (count1, s5) = (if count > sint LATCH
        then (sint LATCH - 1, ck_outb (ucast (drop_bit 8 LATCH)) PIT_CH0
               (ck_outb (ucast (LATCH AND 0xff)) PIT_CH0 (ck_outb 0x34 PIT_MODE s4)))
        else (count, s4));
     (count2, s6) \<leftarrow> (if jiffies_t = jiffies_p s5
        then if count1 > count_p s5 then do_timer_overflow dev count1 s5 else Some (count1, s5)
        else Some (count1, s5\<lparr>jiffies_p := jiffies_t\<rparr>));
     let s7 = unlock_8253 flags (s6\<lparr>count_p := count2\<rparr>);
     Some (pit_offset count2, s7) }"

text \<open>The number of decrements that \<open>delay_pit\<close> and \<open>delay_none\<close> make.\<close>

function delay_pit :: "u32 \<Rightarrow> nat" where
  "delay_pit loops = (if 0 \<le>s loops - 1 then Suc (delay_pit (loops - 1)) else 1)"
  by auto
termination
proof (relation "measure unat")
  fix loops :: u32
  assume a: "0 \<le>s loops - 1"
  then have "loops \<noteq> 0" by (auto simp: word_sle_eq)
  then show "(loops - 1, loops) \<in> measure unat"
    by (simp add: unat_minus_one unat_gt_0)
qed simp

declare delay_pit.simps [simp del]

section \<open>The timer in use\<close>

definition mark_offset :: "timer_opts \<Rightarrow> clock \<Rightarrow> clock" where
  "mark_offset t s = (case t of timer_none \<Rightarrow> s | timer_pit \<Rightarrow> s)"

definition get_offset :: "device \<Rightarrow> timer_opts \<Rightarrow> clock \<Rightarrow> (u32 \<times> clock) option" where
  "get_offset dev t s = (case t of timer_none \<Rightarrow> Some (0, s) | timer_pit \<Rightarrow> get_offset_pit dev s)"

definition monotonic_clock :: "timer_opts \<Rightarrow> u64" where
  "monotonic_clock t = (case t of timer_none \<Rightarrow> 0 | timer_pit \<Rightarrow> 0)"

text \<open>\<open>timers[]\<close>: the initialisation of each timer and the timer it stands for.\<close>

definition timers :: "((clock \<Rightarrow> int \<times> clock) \<times> timer_opts) list" where
  "timers = [(init_pit, timer_pit)]"

fun select_from :: "((clock \<Rightarrow> int \<times> clock) \<times> timer_opts) list \<Rightarrow> clock \<Rightarrow> timer_opts option \<times> clock" where
  "select_from [] s = (None, s)"
| "select_from ((init, opts) # ts) s =
     (let (r, s1) = init s in if r = 0 then (Some opts, s1) else select_from ts s1)"

definition select_timer :: "clock \<Rightarrow> timer_opts option \<times> clock" where
  "select_timer s = select_from timers s"

section \<open>The timer interrupt\<close>

definition do_timer :: "clock \<Rightarrow> clock" where
  "do_timer s = s\<lparr>jiffies_64 := jiffies_64 s + 1\<rparr>"

definition get_jiffies_64 :: "clock \<Rightarrow> u64" where
  "get_jiffies_64 s = jiffies_64 s"

definition timer_interrupt :: "clock \<Rightarrow> (u32 \<times> clock) option" where
  "timer_interrupt s = do {
     t \<leftarrow> cur_timer s;
     let s1 = do_timer (mark_offset t s);
     let s2 = (if jiffies_64 s1 - last_print s1 \<ge> 1000 then s1\<lparr>last_print := jiffies_64 s1\<rparr>
               else if last_print s1 > jiffies_64 s1 then s1\<lparr>last_print := jiffies_64 s1\<rparr> else s1);
     Some (IRQ_HANDLED, s2) }"

section \<open>Starting the clock\<close>

text \<open>\<open>irq0\<close> is action 0 of the machine.\<close>

definition IRQ0_ACTION :: nat where "IRQ0_ACTION = 0"

definition time_init_hook :: "clock \<Rightarrow> clock option" where
  "time_init_hook s = map_option (\<lambda>(r, t). s\<lparr>ck_irqs := t\<rparr>) (setup_irq 0 IRQ0_ACTION (ck_irqs s))"

definition time_init :: "device \<Rightarrow> clock \<Rightarrow> clock option" where
  "time_init dev s = do {
     (now, s1) \<leftarrow> get_cmos_time dev s;
     let x = \<lparr>tv_sec = now, tv_nsec = (INITIAL_JIFFIES mod HZ) * (NSEC_PER_SEC div HZ)\<rparr>;
     let s2 = s1\<lparr>xtime := x, wall_to_monotonic := set_normalized_timespec (- tv_sec x) (- tv_nsec x)\<rparr>;
     let (t, s3) = select_timer s2;
     time_init_hook (s3\<lparr>cur_timer := t\<rparr>) }"

end
