(* ===== verification/ClockProps.thy ===== *)
theory ClockProps
  imports Clock IrqProps
begin

text \<open>
  The clock: \<open>mktime\<close> and the reading of the real-time clock against a calendar, the normalisation
  of a timespec, the constants of the interval timer, the offset within a tick, and the state that
  \<open>time_init\<close> leaves.
\<close>

section \<open>A calendar\<close>

definition leap :: "nat \<Rightarrow> bool" where
  "leap y \<longleftrightarrow> y mod 4 = 0 \<and> (y mod 100 \<noteq> 0 \<or> y mod 400 = 0)"

definition month_days :: "nat \<Rightarrow> nat list" where
  "month_days y = [31, if leap y then 29 else 28, 31, 30, 31, 30, 31, 31, 30, 31, 30, 31]"

definition year_days :: "nat \<Rightarrow> nat" where
  "year_days y = sum_list (month_days y)"

text \<open>Seconds since the start of 1970 of a date, counted year by year and month by month.\<close>

definition epoch_days :: "nat \<Rightarrow> nat \<Rightarrow> nat \<Rightarrow> nat" where
  "epoch_days y m d = (\<Sum>i = 1970..<y. year_days i) + sum_list (take (m - 1) (month_days y)) + (d - 1)"

definition epoch_seconds :: "nat \<Rightarrow> nat \<Rightarrow> nat \<Rightarrow> nat \<Rightarrow> nat \<Rightarrow> nat \<Rightarrow> nat" where
  "epoch_seconds y m d h mi s = ((epoch_days y m d * 24 + h) * 60 + mi) * 60 + s"

definition leaps :: "nat \<Rightarrow> nat" where
  "leaps y = y div 4 - y div 100 + y div 400"

lemma div_Suc_mod: "0 < k \<Longrightarrow> Suc y div k = y div k + (if Suc y mod k = 0 then 1 else (0 :: nat))"
  by (simp add: div_Suc)

lemma mod_100_4: "y mod 100 = 0 \<Longrightarrow> y mod 4 = (0 :: nat)"
  using mod_mod_cancel [of 4 100 y] by simp

lemma mod_400_100: "y mod 400 = 0 \<Longrightarrow> y mod 100 = (0 :: nat)"
  using mod_mod_cancel [of 100 400 y] by simp

lemma leaps_Suc: "leaps (Suc y) = leaps y + (if leap (Suc y) then 1 else 0)"
proof -
  define a b c where "a = (Suc y mod 4 = 0)" and "b = (Suc y mod 100 = 0)" and "c = (Suc y mod 400 = 0)"
  have "y div 100 \<le> y div 4" by (rule div_le_mono2) simp_all
  moreover have "Suc y div 4 = y div 4 + (if a then 1 else 0)"
    "Suc y div 100 = y div 100 + (if b then 1 else 0)" "Suc y div 400 = y div 400 + (if c then 1 else 0)"
    unfolding a_def b_def c_def by (rule div_Suc_mod, simp)+
  moreover have "b \<Longrightarrow> a" "c \<Longrightarrow> b"
    unfolding a_def b_def c_def by (rule mod_100_4 mod_400_100, assumption)+
  moreover have "leap (Suc y) = (a \<and> (\<not> b \<or> c))"
    by (simp add: leap_def a_def b_def c_def)
  ultimately show ?thesis unfolding leaps_def
    by (cases a; cases b; cases c) (simp_all add: Suc_diff_le)
qed

lemma year_days_eq: "year_days y = 365 + (if leap y then 1 else 0)"
  by (simp add: year_days_def month_days_def)

lemma days_before_year:
  "1970 \<le> y \<Longrightarrow> (\<Sum>i = 1970..<y. year_days i) + 719527 = 365 * y + leaps (y - 1)"
proof (induction y rule: nat_induct_at_least)
  case base
  show ?case by (simp add: leaps_def)
next
  case (Suc y)
  have "leaps y = leaps (y - 1) + (if leap y then 1 else 0)"
    using Suc.hyps leaps_Suc [of "y - 1"] by simp
  with Suc show ?case by (simp add: year_days_eq)
qed

lemma month_cases: "1 \<le> m \<Longrightarrow> m \<le> 12 \<Longrightarrow> m \<in> {1, 2, 3, 4, 5, 6, 7, 8, 9, 10, 11, 12 :: nat}"
  unfolding insert_iff empty_iff by presburger

text \<open>Zeller's formula: February last, and \<open>367 * m / 12\<close> for the lengths of the months.\<close>

lemma zeller:
  assumes "1970 \<le> y" "1 \<le> m" "m \<le> 12" "1 \<le> d"
  shows "(if m \<le> 2 then leaps (y - 1) + 367 * (m + 10) div 12 + d + (y - 1) * 365
          else leaps y + 367 * (m - 2) div 12 + d + y * 365) = epoch_days y m d + 719499"
proof -
  have l: "leaps y = leaps (y - 1) + (if leap y then 1 else 0)"
    using assms(1) leaps_Suc [of "y - 1"] by simp
  show ?thesis
    using month_cases [OF assms(2,3)] days_before_year [OF assms(1)] assms(1,4) l
    unfolding epoch_days_def month_days_def
    by (elim insertE) simp_all
qed

text \<open>\<open>mktime\<close> computes modulo \<open>2 ^ 32\<close>; the code's words are the images of the numbers.\<close>

lemma u32_div: "a < 4294967296 \<Longrightarrow> b < 4294967296 \<Longrightarrow> (of_nat a :: u32) div of_nat b = of_nat (a div b)"
  by (rule word_of_unat_eq) (simp add: unat_div_distrib word32_of_nat_unat_id)

lemma leaps_le: "y div 100 \<le> (y :: nat) div 4"
  by (rule div_le_mono2) simp_all

lemma mktime_word:
  assumes "y < 4294967296" "m \<le> 24"
  shows "((of_nat y div 4 - of_nat y div 100 + of_nat y div 400 + 367 * of_nat m div 12 + of_nat d + of_nat y * 365 - 719499) :: u32)
     = of_nat (leaps y + 367 * m div 12 + d + y * 365) - 719499"
proof -
  have "(of_nat y :: u32) div 4 = of_nat (y div 4)" "(of_nat y :: u32) div 100 = of_nat (y div 100)"
    "(of_nat y :: u32) div 400 = of_nat (y div 400)"
    using u32_div [OF assms(1), of 4] u32_div [OF assms(1), of 100] u32_div [OF assms(1), of 400] by simp_all
  moreover have "(367 * of_nat m :: u32) div 12 = of_nat (367 * m div 12)"
    using u32_div [of "367 * m" 12] assms(2) by simp
  moreover have "(of_nat (y div 4) :: u32) - of_nat (y div 100) = of_nat (y div 4 - y div 100)"
    using leaps_le [of y] by (simp add: of_nat_diff)
  ultimately show ?thesis by (simp add: leaps_def)
qed

lemma mktime_shift:
  assumes "1 \<le> m" "m \<le> 12"
  shows "((of_nat m - 2 :: u32) \<le>s 0) = (m \<le> 2)"
    "m \<le> 2 \<Longrightarrow> (of_nat m - 2 + 12 :: u32) = of_nat (m + 10)"
    "\<not> m \<le> 2 \<Longrightarrow> (of_nat m - 2 :: u32) = of_nat (m - 2)"
  using month_cases [OF assms] by (elim insertE; simp add: word_sle_eq)+

lemma mktime_epoch:
  assumes "1970 \<le> y" "y < 4294967296" "1 \<le> m" "m \<le> 12" "1 \<le> d"
  shows "mktime (of_nat y) (of_nat m) (of_nat d) (of_nat h) (of_nat mi) (of_nat s) = of_nat (epoch_seconds y m d h mi s)"
proof -
  define y' where "y' = (if m \<le> 2 then y - 1 else y)"
  define m' where "m' = (if m \<le> 2 then m + 10 else m - 2)"
  have y: "(of_nat y' :: u32) = (if m \<le> 2 then of_nat y - 1 else of_nat y)"
    using assms(1) by (simp add: y'_def of_nat_diff)
  have m: "(of_nat m' :: u32) = (if m \<le> 2 then of_nat m - 2 + 12 else of_nat m - 2)"
    using mktime_shift [OF assms(3,4)] by (simp add: m'_def)
  have b: "y' < 4294967296" "m' \<le> 24" using assms unfolding y'_def m'_def by (auto split: if_splits)
  have "leaps y' + 367 * m' div 12 + d + y' * 365 = epoch_days y m d + 719499"
    using zeller [OF assms(1,3,4,5)] by (simp add: y'_def m'_def split: if_splits)
  then have "(of_nat (leaps y' + 367 * m' div 12 + d + y' * 365) :: u32) - 719499 = of_nat (epoch_days y m d)"
    by simp
  then have "(of_nat y' div 4 - of_nat y' div 100 + of_nat y' div 400 + 367 * of_nat m' div 12 + of_nat d + of_nat y' * 365 - 719499 :: u32)
     = of_nat (epoch_days y m d)"
    unfolding mktime_word [OF b] .
  then show ?thesis
    unfolding mktime_def Let_def mktime_shift(1) [OF assms(3,4)] y [symmetric] m [symmetric]
    by (simp add: epoch_seconds_def)
qed

section \<open>Binary coded decimals\<close>

lemma BCD_roundtrip_nat:
  assumes "n < 100"
  shows "BCD2BIN (BIN2BCD (of_nat n)) = of_nat n"
proof -
  have "n \<in> set [0..<100]" using assms by simp
  moreover have "\<forall>n \<in> set [0..<100]. BCD2BIN (BIN2BCD (of_nat n)) = of_nat n"
    by code_simp
  ultimately show ?thesis by blast
qed

lemma BIN2BCD_byte:
  assumes "n < 100"
  shows "(ucast (ucast (BIN2BCD (of_nat n)) :: u8) :: u32) = BIN2BCD (of_nat n)"
proof -
  have "n \<in> set [0..<100]" using assms by simp
  moreover have "\<forall>n \<in> set [0..<100]. (ucast (ucast (BIN2BCD (of_nat n)) :: u8) :: u32) = BIN2BCD (of_nat n)"
    by code_simp
  ultimately show ?thesis by blast
qed

section \<open>Normalised timespecs\<close>

lemma nsec_down_spec:
  "nsec_down sec nsec = (sec', nsec') \<Longrightarrow> \<exists>k. sec' = sec + of_int k \<and> sint nsec = sint nsec' + k * 1000000000
     \<and> sint nsec' \<le> 1000000000 \<and> (0 \<le> sint nsec \<longrightarrow> 0 \<le> sint nsec') \<and> (sint nsec \<le> 0 \<longrightarrow> k = 0)"
proof (induction sec nsec rule: nsec_down.induct)
  case (1 sec nsec)
  show ?case
  proof (cases "NSEC_PER_SEC <s nsec")
    case True
    then have b: "1000000000 < sint nsec" by (simp add: word_sless_alt)
    from True "1.prems" have "nsec_down (sec + 1) (nsec - NSEC_PER_SEC) = (sec', nsec')"
      by (simp add: nsec_down.simps [of sec])
    note ih = "1.IH" [OF True this]
    obtain k where
      "sec' = sec + 1 + of_int k" "sint (nsec - NSEC_PER_SEC) = sint nsec' + k * 1000000000" "sint nsec' \<le> 1000000000"
      "0 \<le> sint (nsec - NSEC_PER_SEC) \<longrightarrow> 0 \<le> sint nsec'"
      using ih by blast
    then show ?thesis using sint_sub_small [OF b] b by (intro exI [of _ "k + 1"]) simp
  next
    case False
    with "1.prems" show ?thesis
      by (intro exI [of _ 0]) (simp add: nsec_down.simps [of sec] word_sless_alt)
  qed
qed

lemma nsec_up_spec:
  "nsec_up sec nsec = (sec', nsec') \<Longrightarrow> sint nsec \<le> 1000000000 \<Longrightarrow>
     \<exists>k. sec' = sec + of_int k \<and> sint nsec = sint nsec' + k * 1000000000 \<and> 0 \<le> sint nsec' \<and> sint nsec' \<le> 1000000000
       \<and> (sint nsec < 0 \<longrightarrow> sint nsec' < 1000000000)"
proof (induction sec nsec rule: nsec_up.induct)
  case (1 sec nsec)
  show ?case
  proof (cases "nsec <s 0")
    case True
    then have b: "sint nsec < 0" by (simp add: word_sless_alt)
    from True "1.prems" have "nsec_up (sec - 1) (nsec + NSEC_PER_SEC) = (sec', nsec')"
      by (simp add: nsec_up.simps [of sec])
    have ih: "sint (nsec + NSEC_PER_SEC) \<le> 1000000000" using sint_add_small [OF b] b by simp
    obtain k where
      k: "sec' = sec - 1 + of_int k" "sint (nsec + NSEC_PER_SEC) = sint nsec' + k * 1000000000" "0 \<le> sint nsec'"
      "sint nsec' \<le> 1000000000" "sint (nsec + NSEC_PER_SEC) < 0 \<longrightarrow> sint nsec' < 1000000000"
      using "1.IH" [OF True \<open>nsec_up (sec - 1) (nsec + NSEC_PER_SEC) = (sec', nsec')\<close> ih] by blast
    moreover have "sint nsec' < 1000000000"
    proof (cases "sint (nsec + NSEC_PER_SEC) < 0")
      case False
      then have "\<not> nsec + NSEC_PER_SEC <s 0" by (simp add: word_sless_alt)
      then have "nsec' = nsec + NSEC_PER_SEC"
        using \<open>nsec_up (sec - 1) (nsec + NSEC_PER_SEC) = (sec', nsec')\<close> by (simp add: nsec_up.simps [of "sec - 1"])
      then show ?thesis using sint_add_small [OF b] b by simp
    qed (use k in simp)
    ultimately show ?thesis using sint_add_small [OF b] by (intro exI [of _ "k - 1"]) simp
  next
    case False
    with "1.prems" show ?thesis
      by (intro exI [of _ 0]) (simp add: nsec_up.simps [of sec] word_sless_alt)
  qed
qed

section \<open>Reading the clock chip\<close>

lemma ck_io_simps [simp]:
  "io (ck_irqs (ck_outb v p s)) = outb v p (io (ck_irqs s))"
  "ck_inb dev p s = (dev (io (ck_irqs s)) p, s\<lparr>ck_irqs := (ck_irqs s)\<lparr>io := io (ck_irqs s) @ [In p (dev (io (ck_irqs s)) p)]\<rparr>\<rparr>)"
  by (simp_all add: ck_outb_def ck_inb_def do_outb_def do_inb_def inb_def)

text \<open>The states that differ only in accesses to the clock chip.\<close>

definition same_but_io :: "clock \<Rightarrow> clock \<Rightarrow> bool" where
  "same_but_io s t \<longleftrightarrow> (\<exists>l. t = s\<lparr>ck_irqs := (ck_irqs s)\<lparr>io := io (ck_irqs s) @ l\<rparr>\<rparr>
     \<and> (\<forall>p v. Out p v \<in> set l \<longrightarrow> p = RTC_PORT 0))"

lemma same_but_io_refl [simp]: "same_but_io s s"
  unfolding same_but_io_def by (rule exI [of _ "[]"]) simp

lemma same_but_io_trans: "same_but_io s t \<Longrightarrow> same_but_io t u \<Longrightarrow> same_but_io s u"
  unfolding same_but_io_def by (elim exE conjE, rule_tac x = "l @ la" in exI) auto

text \<open>A chip whose registers hold \<open>reg\<close>: the data port answers with the register selected last.\<close>

definition rtc_chip :: "(u8 \<Rightarrow> u8) \<Rightarrow> device \<Rightarrow> bool" where
  "rtc_chip reg dev \<longleftrightarrow> (\<forall>l a. dev (l @ [Out (RTC_PORT 0) a]) (RTC_PORT 1) = reg a)"

lemma CMOS_READ_chip:
  assumes "rtc_chip reg dev"
  shows "fst (CMOS_READ dev a s) = reg a \<and> same_but_io s (snd (CMOS_READ dev a s))"
  using assms by (auto simp: CMOS_READ_def rtc_chip_def outb_def ck_outb_def do_outb_def same_but_io_def)

lemma wait_uip_same: "rtc_chip reg dev \<Longrightarrow> same_but_io s (wait_uip dev want n s)"
proof (induction n arbitrary: s)
  case (Suc n)
  then show ?case using CMOS_READ_chip [OF Suc.prems, of RTC_FREQ_SELECT s]
    by (auto simp: split_beta Let_def intro: same_but_io_trans)
qed simp

lemma read_rtc_chip:
  assumes "rtc_chip reg dev"
  shows "\<exists>t. read_rtc dev s = Some ((ucast (reg RTC_SECONDS), ucast (reg RTC_MINUTES), ucast (reg RTC_HOURS),
     ucast (reg RTC_DAY_OF_MONTH), ucast (reg RTC_MONTH), ucast (reg RTC_YEAR)), t) \<and> same_but_io s t"
proof -
  have r: "\<exists>t'. CMOS_READ dev a t = (reg a, t') \<and> (same_but_io s t \<longrightarrow> same_but_io s t')" for a t
    using CMOS_READ_chip [OF assms, of a t] same_but_io_trans [of s t] by (cases "CMOS_READ dev a t") auto
  obtain s1 where 1: "CMOS_READ dev RTC_SECONDS s = (reg RTC_SECONDS, s1)" "same_but_io s s1" using r by force
  obtain s2 where 2: "CMOS_READ dev RTC_MINUTES s1 = (reg RTC_MINUTES, s2)" "same_but_io s s2" using r 1 by force
  obtain s3 where 3: "CMOS_READ dev RTC_HOURS s2 = (reg RTC_HOURS, s3)" "same_but_io s s3" using r 2 by force
  obtain s4 where 4: "CMOS_READ dev RTC_DAY_OF_MONTH s3 = (reg RTC_DAY_OF_MONTH, s4)" "same_but_io s s4" using r 3 by force
  obtain s5 where 5: "CMOS_READ dev RTC_MONTH s4 = (reg RTC_MONTH, s5)" "same_but_io s s5" using r 4 by force
  obtain s6 where 6: "CMOS_READ dev RTC_YEAR s5 = (reg RTC_YEAR, s6)" "same_but_io s s6" using r 5 by force
  obtain s7 where 7: "CMOS_READ dev RTC_SECONDS s6 = (reg RTC_SECONDS, s7)" "same_but_io s s7" using r 6 by force
  show ?thesis
    by (intro exI [of _ s7]) (subst read_rtc.simps, simp add: 1 2 3 4 5 6 7)
qed

text \<open>The registers of a chip that shows the given date and time in binary coded decimals.\<close>

definition bcd_byte :: "nat \<Rightarrow> u8" where
  "bcd_byte n = ucast (BIN2BCD (of_nat n))"

definition shows_time :: "(u8 \<Rightarrow> u8) \<Rightarrow> nat \<Rightarrow> nat \<Rightarrow> nat \<Rightarrow> nat \<Rightarrow> nat \<Rightarrow> nat \<Rightarrow> bool" where
  "shows_time reg y m d h mi s \<longleftrightarrow> reg RTC_YEAR = bcd_byte (y mod 100) \<and> reg RTC_MONTH = bcd_byte m
     \<and> reg RTC_DAY_OF_MONTH = bcd_byte d \<and> reg RTC_HOURS = bcd_byte h \<and> reg RTC_MINUTES = bcd_byte mi
     \<and> reg RTC_SECONDS = bcd_byte s"

lemma bcd_byte: "n < 100 \<Longrightarrow> BCD2BIN (ucast (bcd_byte n)) = of_nat n"
  by (simp add: bcd_byte_def BIN2BCD_byte BCD_roundtrip_nat)

lemma window_year:
  assumes "1970 \<le> y" "y < 2070"
  shows "(if (of_nat (y mod 100) :: u32) + 1900 < 1970 then of_nat (y mod 100) + 1900 + 100 else of_nat (y mod 100) + 1900)
     = (of_nat y :: u32)"
proof -
  define c where "c = y mod 100"
  have y: "y = (if c + 1900 < 1970 then c + 2000 else c + 1900)"
  proof (cases "y < 2000")
    case True
    define k where "k = y - 1900"
    have k: "y = k + 19 * 100" "70 \<le> k" "k < 100" using assms True by (simp_all add: k_def)
    have "c = k" unfolding c_def k(1) using k(3) by (simp only: mod_mult_self1) simp
    with k show ?thesis by simp
  next
    case False
    define k where "k = y - 2000"
    have k: "y = k + 20 * 100" "k < 70" using assms False by (simp_all add: k_def)
    have "c = k" unfolding c_def k(1) using k(2) by (simp only: mod_mult_self1) simp
    with k show ?thesis by simp
  qed
  have c: "c < 100" by (simp add: c_def)
  have "unat (of_nat c + 1900 :: u32) = c + 1900"
    using word32_of_nat_unat_id [of "c + 1900"] c by simp
  then have "((of_nat c :: u32) + 1900 < 1970) = (c + 1900 < 1970)" by (simp add: word_less_nat_alt)
  moreover have "(of_nat y :: u32) = (if c + 1900 < 1970 then of_nat c + 2000 else of_nat c + 1900)"
    by (subst y) simp
  ultimately show ?thesis unfolding c_def by simp
qed

definition valid_date :: "nat \<Rightarrow> nat \<Rightarrow> nat \<Rightarrow> nat \<Rightarrow> nat \<Rightarrow> nat \<Rightarrow> bool" where
  "valid_date y m d h mi s \<longleftrightarrow> 1970 \<le> y \<and> y < 2070 \<and> 1 \<le> m \<and> m \<le> 12 \<and> 1 \<le> d \<and> d \<le> 31 \<and> h < 24 \<and> mi < 60 \<and> s < 60"

lemma mach_get_cmos_time_chip:
  assumes "rtc_chip reg dev" "shows_time reg y m d h mi s" "valid_date y m d h mi s"
  shows "\<exists>t. mach_get_cmos_time dev st = Some (of_nat (epoch_seconds y m d h mi s), t) \<and> same_but_io st t"
proof -
  define s1 where "s1 = wait_uip dev True 1000000 st"
  define s2 where "s2 = wait_uip dev False 1000000 s1"
  have w: "same_but_io st s2" unfolding s1_def s2_def using wait_uip_same [OF assms(1)] same_but_io_trans by blast
  from read_rtc_chip [OF assms(1), of s2] obtain s3 where
    3: "read_rtc dev s2 = Some ((ucast (reg RTC_SECONDS), ucast (reg RTC_MINUTES), ucast (reg RTC_HOURS),
      ucast (reg RTC_DAY_OF_MONTH), ucast (reg RTC_MONTH), ucast (reg RTC_YEAR)), s3)" "same_but_io s2 s3" by blast
  obtain v s4 where 4: "CMOS_READ dev RTC_CONTROL s3 = (v, s4)" "same_but_io s3 s4"
    using CMOS_READ_chip [OF assms(1), of RTC_CONTROL s3] by (cases "CMOS_READ dev RTC_CONTROL s3") auto
  have v: "y mod 100 < 100" "m < 100" "d < 100" "h < 100" "mi < 100" "s < 100" "1970 \<le> y" "y < 2070"
    "y < 4294967296" "1 \<le> m" "m \<le> 12" "1 \<le> d"
    using assms(3) by (auto simp: valid_date_def)
  have r: "reg RTC_YEAR = bcd_byte (y mod 100)" "reg RTC_MONTH = bcd_byte m" "reg RTC_DAY_OF_MONTH = bcd_byte d"
    "reg RTC_HOURS = bcd_byte h" "reg RTC_MINUTES = bcd_byte mi" "reg RTC_SECONDS = bcd_byte s"
    using assms(2) by (auto simp: shows_time_def)
  have "mach_get_cmos_time dev st = Some (mktime (of_nat y) (of_nat m) (of_nat d) (of_nat h) (of_nat mi) (of_nat s), s4)"
    unfolding mach_get_cmos_time_def Let_def s1_def [symmetric] s2_def [symmetric] 3(1) window_year [OF v(7,8), symmetric]
    by (simp add: 4(1) r bcd_byte v(1-6) RTC_ALWAYS_BCD_def cong: if_cong)
  moreover have "same_but_io st s4" using w 3(2) 4(2) same_but_io_trans by blast
  ultimately show ?thesis unfolding mktime_epoch [OF v(7,9-12)] by blast
qed

lemma get_cmos_time_chip:
  assumes "rtc_chip reg dev" "shows_time reg y m d h mi s" "valid_date y m d h mi s" "unlocked (rtc_lock st)"
  shows "\<exists>t. get_cmos_time dev st = Some (of_nat (epoch_seconds y m d h mi s), t) \<and> same_but_io st t"
proof -
  define st1 where "st1 = st\<lparr>rtc_lock := set_lock_byte 0 (rtc_lock st)\<rparr>"
  from mach_get_cmos_time_chip [OF assms(1-3), of st1] obtain t where
    t: "mach_get_cmos_time dev st1 = Some (of_nat (epoch_seconds y m d h mi s), t)" "same_but_io st1 t" by blast
  from t(2) obtain l where l: "t = st1\<lparr>ck_irqs := (ck_irqs st1)\<lparr>io := io (ck_irqs st1) @ l\<rparr>\<rparr>"
    "\<forall>p v. Out p v \<in> set l \<longrightarrow> p = RTC_PORT 0"
    unfolding same_but_io_def by blast
  have "get_cmos_time dev st = Some (of_nat (epoch_seconds y m d h mi s), t\<lparr>rtc_lock := spin_unlock (rtc_lock t)\<rparr>)"
    using t(1) assms(4) by (simp add: get_cmos_time_def st1_def [symmetric])
  moreover have "same_but_io st (t\<lparr>rtc_lock := spin_unlock (rtc_lock t)\<rparr>)"
    unfolding same_but_io_def by (rule exI [of _ l]) (use l(2) in \<open>simp add: l(1) st1_def spin_lock_unlock [OF assms(4)]\<close>)
  ultimately show ?thesis by blast
qed

section \<open>The interval timer\<close>

lemma LATCH_eq: "LATCH = 1193" by (simp add: LATCH_def CLOCK_TICK_RATE_def HZ_def)
lemma ACTHZ_eq: "ACTHZ = 256039" by (simp add: ACTHZ_def SH_DIV_def LATCH_eq CLOCK_TICK_RATE_def)
lemma TICK_NSEC_eq: "TICK_NSEC = 999848" by (simp add: TICK_NSEC_def SH_DIV_def ACTHZ_eq)
lemma TICK_SIZE_eq: "TICK_SIZE = 999" by (simp add: TICK_SIZE_def TICK_NSEC_eq)
lemma TICK_USEC_eq: "TICK_USEC = 10000" by (simp add: TICK_USEC_def USER_HZ_def)

lemma sint_of_int_u32: "- 2147483648 \<le> k \<Longrightarrow> k < 2147483648 \<Longrightarrow> sint (word_of_int k :: u32) = k"
  by (simp add: signed_take_bit_int_eq_self signed_of_int)

text \<open>
  The offset that a count stands for: the counter runs down from \<open>LATCH - 1\<close>; a count below zero
  belongs to a tick that has not been handled yet, \<open>LATCH\<close> itself is read as the start of the tick.
\<close>

lemma pit_offset_eq:
  assumes "- 1193 \<le> count" "count \<le> 1193"
  shows "pit_offset count = word_of_int (if count = 1193 then 0 else ((1192 - count) * 999 + 596) div 1193)"
proof -
  have "(word_of_int (1192 - count) * 999 :: u32) = word_of_int ((1192 - count) * 999)" by simp
  moreover have "sint (word_of_int ((1192 - count) * 999) :: u32) = (1192 - count) * 999"
    using assms by (intro sint_of_int_u32) simp_all
  ultimately have p: "sint (word_of_int (1192 - count) * 999 :: u32) = (1192 - count) * 999" by simp
  show ?thesis
  proof (cases "count = 1193")
    case True
    have "sint (- 999 :: u32) = - 999" by simp
    with True show ?thesis by (simp add: pit_offset_def LATCH_eq TICK_SIZE_eq signed_divide_int_def)
  next
    case False
    then have "0 \<le> (1192 - count) * 999 + 596" using assms by simp
    then have "((1192 - count) * 999 + 596) sdiv 1193 = ((1192 - count) * 999 + 596) div 1193"
      by (cases "(1192 - count) * 999 + 596 = 0") (simp_all add: signed_divide_int_def)
    then show ?thesis using False p by (simp add: pit_offset_def LATCH_eq TICK_SIZE_eq)
  qed
qed

lemma pit_offset_unat:
  assumes "- 1193 \<le> count" "count \<le> 1193"
  shows "int (unat (pit_offset count)) = (if count = 1193 then 0 else ((1192 - count) * 999 + 596) div 1193)"
proof -
  have "0 \<le> ((1192 - count) * 999 + 596) div 1193 \<and> ((1192 - count) * 999 + 596) div 1193 < 4294967296"
    if "count \<noteq> 1193"
    using assms that by (intro conjI) (simp_all add: pos_imp_zdiv_nonneg_iff)
  then show ?thesis
    unfolding pit_offset_eq [OF assms] uint_nat [symmetric]
    by (simp add: unsigned_of_int take_bit_int_eq_self)
qed

lemma pit_offset_mono:
  assumes "- 1193 \<le> a" "a \<le> b" "b \<le> 1193"
  shows "pit_offset b \<le> pit_offset a"
proof -
  have "int (unat (pit_offset b)) \<le> int (unat (pit_offset a))"
    using assms pit_offset_unat [of a] pit_offset_unat [of b]
    by (auto intro!: zdiv_mono1 simp: pos_imp_zdiv_nonneg_iff)
  then show ?thesis unfolding word_le_nat_alt by (simp only: of_nat_le_iff)
qed

text \<open>What the latched counter reads after \<open>l\<close>, and whether the controller then has a tick pending.\<close>

definition pit_latched :: "device \<Rightarrow> iolog \<Rightarrow> int" where
  "pit_latched dev l =
     (let l1 = l @ [Out PIT_MODE 0]; lo = dev l1 PIT_CH0
      in int (unat lo) OR push_bit 8 (int (unat (dev (l1 @ [In PIT_CH0 lo]) PIT_CH0))))"

definition tick_pending :: "device \<Rightarrow> iolog \<Rightarrow> bool" where
  "tick_pending dev l =
     (let l1 = l @ [Out PIT_MODE 0]; lo = dev l1 PIT_CH0; l2 = l1 @ [In PIT_CH0 lo]
      in dev (l2 @ [In PIT_CH0 (dev l2 PIT_CH0)]) 0x20 AND 1 \<noteq> 0)"

lemma get_offset_pit_eq:
  assumes "unlocked (i8253_lock s)" "unlocked (i8259A_lock (ck_irqs s))"
    and c: "c = pit_latched dev (io (ck_irqs s))" "c \<le> 1193"
    and e: "e = (if ucast (jiffies_64 s) = jiffies_p s \<and> count_p s < c \<and> tick_pending dev (io (ck_irqs s)) then c - 1193 else c)"
  shows "\<exists>t. get_offset_pit dev s = Some (pit_offset e, t) \<and> count_p t = e \<and> jiffies_p t = ucast (jiffies_64 s)
     \<and> jiffies_64 t = jiffies_64 s \<and> i8253_lock t = i8253_lock s \<and> i8259A_lock (ck_irqs t) = i8259A_lock (ck_irqs s)
     \<and> cpu_if (ck_irqs t) = cpu_if (ck_irqs s)"
proof -
  define l1 where "l1 = io (ck_irqs s) @ [Out PIT_MODE 0]"
  define lo where "lo = dev l1 PIT_CH0"
  define l2 where "l2 = l1 @ [In PIT_CH0 lo]"
  define hi where "hi = dev l2 PIT_CH0"
  define l3 where "l3 = l2 @ [In PIT_CH0 hi]"
  have c': "uint lo OR push_bit 8 (uint hi) = c"
    by (simp add: c(1) pit_latched_def Let_def lo_def hi_def l2_def l1_def)
  have p: "tick_pending dev (io (ck_irqs s)) = (dev l3 0x20 AND 1 \<noteq> 0)"
    by (simp add: tick_pending_def Let_def lo_def hi_def l3_def l2_def l1_def)
  note logs = l1_def [symmetric] lo_def [symmetric] l2_def [symmetric] hi_def [symmetric] l3_def [symmetric]
  have L: "sint LATCH = 1193" by (simp add: LATCH_eq)
  note unl = spin_lock_unlock [OF assms(1)] spin_lock_unlock [OF assms(2)]
  show ?thesis
    using c(2) assms(1,2) unl c'
    by (simp add: get_offset_pit_def lock_8253_def unlock_8253_def do_timer_overflow_def Let_def ck_outb_def
        do_outb_def outb_def logs c' L e p
        del: append_assoc cong: if_cong)
qed

lemma last_out_other: "(\<And>v. Out p v \<notin> set l) \<Longrightarrow> last_out p (k @ l) = last_out p k"
proof (induction l rule: rev_induct)
  case (snoc e l)
  then show ?case by (cases e) (auto simp flip: append_assoc)
qed simp

lemma same_but_io_pic:
  assumes "same_but_io s t"
  shows "pic_inv (ck_irqs t) = pic_inv (ck_irqs s)" "irq_desc (ck_irqs t) = irq_desc (ck_irqs s)"
    "actions (ck_irqs t) = actions (ck_irqs s)" "cpu_if (ck_irqs t) = cpu_if (ck_irqs s)"
    "cached_irq_mask (ck_irqs t) = cached_irq_mask (ck_irqs s)" "jiffies_64 t = jiffies_64 s"
proof -
  from assms obtain l where l: "t = s\<lparr>ck_irqs := (ck_irqs s)\<lparr>io := io (ck_irqs s) @ l\<rparr>\<rparr>"
    "\<And>p v. Out p v \<in> set l \<Longrightarrow> p = RTC_PORT 0" unfolding same_but_io_def by blast
  have "last_out PIC_MASTER_IMR (io (ck_irqs s) @ l) = last_out PIC_MASTER_IMR (io (ck_irqs s))"
    "last_out PIC_SLAVE_IMR (io (ck_irqs s) @ l) = last_out PIC_SLAVE_IMR (io (ck_irqs s))"
    by (rule last_out_other, use l(2) in \<open>force simp: RTC_PORT_def pic_ports\<close>)+
  then show "pic_inv (ck_irqs t) = pic_inv (ck_irqs s)"
    by (simp add: l(1) pic_inv_def imr_mirrored_def cached_master_mask_def cached_slave_mask_def)
qed (use assms in \<open>auto simp: same_but_io_def\<close>)

lemma normalized_spec:
  fixes sec nsec :: u32
  defines "ts \<equiv> set_normalized_timespec sec nsec"
  shows "\<exists>k. tv_sec ts = sec + of_int k \<and> sint nsec = sint (tv_nsec ts) + k * 1000000000
     \<and> 0 \<le> sint (tv_nsec ts) \<and> sint (tv_nsec ts) \<le> 1000000000 \<and> (sint nsec < 0 \<longrightarrow> sint (tv_nsec ts) < 1000000000)"
proof -
  obtain s1 n1 where d: "nsec_down sec nsec = (s1, n1)" by (cases "nsec_down sec nsec")
  obtain s2 n2 where u: "nsec_up s1 n1 = (s2, n2)" by (cases "nsec_up s1 n1")
  from nsec_down_spec [OF d] obtain k where k: "s1 = sec + of_int k" "sint nsec = sint n1 + k * 1000000000"
    "sint n1 \<le> 1000000000" "sint nsec \<le> 0 \<longrightarrow> k = 0" by blast
  from nsec_up_spec [OF u k(3)] obtain j where j: "s2 = s1 + of_int j" "sint n1 = sint n2 + j * 1000000000"
    "0 \<le> sint n2" "sint n2 \<le> 1000000000" "sint n1 < 0 \<longrightarrow> sint n2 < 1000000000" by blast
  have "ts = \<lparr>tv_sec = s2, tv_nsec = n2\<rparr>" by (simp add: ts_def set_normalized_timespec_def d u)
  then show ?thesis using k j by (intro exI [of _ "k + j"]) auto
qed

section \<open>Ticks and delays\<close>

text \<open>\<open>n\<close> timer interrupts.\<close>

fun ticks :: "nat \<Rightarrow> clock \<Rightarrow> clock option" where
  "ticks 0 s = Some s"
| "ticks (Suc n) s = Option.bind (timer_interrupt s) (\<lambda>(r, t). ticks n t)"

lemma timer_interrupt_step:
  assumes "cur_timer s = Some t"
  shows "\<exists>s'. timer_interrupt s = Some (IRQ_HANDLED, s') \<and> cur_timer s' = Some t \<and> jiffies_64 s' = jiffies_64 s + 1
    \<and> jiffies_64 s' - last_print s' < 1000"
  using assms by (cases t) (auto simp: timer_interrupt_def Let_def mark_offset_def do_timer_def)

lemma ticks_spec:
  "cur_timer s = Some t \<Longrightarrow> \<exists>s'. ticks n s = Some s' \<and> jiffies_64 s' = jiffies_64 s + of_nat n
     \<and> (0 < n \<longrightarrow> jiffies_64 s' - last_print s' < 1000)"
proof (induction n arbitrary: s)
  case (Suc n)
  from timer_interrupt_step [OF Suc.prems] obtain s1 where
    s1: "timer_interrupt s = Some (IRQ_HANDLED, s1)" "cur_timer s1 = Some t" "jiffies_64 s1 = jiffies_64 s + 1"
    "jiffies_64 s1 - last_print s1 < 1000" by blast
  from Suc.IH [OF s1(2)] obtain s2 where
    "ticks n s1 = Some s2" "jiffies_64 s2 = jiffies_64 s1 + of_nat n" "0 < n \<longrightarrow> jiffies_64 s2 - last_print s2 < 1000" by blast
  then show ?case using s1 by (cases n) (auto simp: algebra_simps)
qed simp

lemma delay_pit_eq:
  "delay_pit loops = (if loops \<le> 0x80000000 then Suc (unat loops) else 1)"
proof (induction loops rule: delay_pit.induct)
  case (1 w)
  consider "w = 0" | "w \<noteq> 0" "w \<le> 0x80000000" | "\<not> w \<le> 0x80000000" by blast
  then show ?case
  proof cases
    case 1
    then show ?thesis by (simp add: delay_pit.simps [of 0] word_sle_eq)
  next
    case 2
    have u: "unat (w - 1) = unat w - 1" "0 < unat w" using 2(1) by (simp_all add: unat_minus_one unat_gt_0)
    have "unat w \<le> 2147483648" using 2(2) by (simp add: word_le_nat_alt)
    then have s: "unat (w - 1) < 2147483648" using u by linarith
    then have "0 \<le>s w - 1" by (simp add: word_sle_eq sint_small)
    moreover have "w - 1 \<le> 0x80000000" using s by (simp add: word_le_nat_alt)
    ultimately show ?thesis using "1.IH" 2 u by (simp add: delay_pit.simps [of w])
  next
    case 3
    then have "w \<noteq> 0" by auto
    then have u: "unat (w - 1) = unat w - 1" "0 < unat w" by (simp_all add: unat_minus_one unat_gt_0)
    have "2147483648 < unat w" using 3 by (simp add: word_le_nat_alt)
    then have "2147483648 \<le> unat (w - 1)" using u by linarith
    then have "unat (w - 1) div 2 ^ 31 = 1" by (intro div_nat_eqI) (simp_all add: unat_u32_less)
    then have "bit (unat (w - 1)) 31" by (simp add: bit_iff_odd)
    then have "bit (w - 1) 31" by (simp add: bit_unsigned_iff)
    then have "\<not> 0 \<le>s w - 1" by (simp add: word_sle_eq sint_uint bit_uint_iff)
    then show ?thesis using 3 by (simp add: delay_pit.simps [of w])
  qed
qed

section \<open>The properties\<close>

text \<open>A chip that shows 29 February 2024, 12:34:56, and the state in which the clock starts.\<close>

definition demo_reg :: "u8 \<Rightarrow> u8" where
  "demo_reg a = (if a = RTC_YEAR then 0x24 else if a = RTC_MONTH then 0x02 else if a = RTC_DAY_OF_MONTH then 0x29
     else if a = RTC_HOURS then 0x12 else if a = RTC_MINUTES then 0x34 else if a = RTC_SECONDS then 0x56 else 0)"

definition demo_rtc :: device where
  "demo_rtc l p = (if p = RTC_PORT 1 then (case last_out (RTC_PORT 0) l of Some a \<Rightarrow> demo_reg a | None \<Rightarrow> 0) else 7)"

definition demo_clock :: clock where
  "demo_clock = \<lparr>ck_irqs = demo_irqs\<lparr>actions := (\<lambda>a. \<lparr>a_flags = SA_INTERRUPT, a_next = None, a_irq = 0\<rparr>)\<rparr>,
     xtime = \<lparr>tv_sec = 0, tv_nsec = 0\<rparr>, wall_to_monotonic = \<lparr>tv_sec = 0, tv_nsec = 0\<rparr>, jiffies_64 = ucast INITIAL_JIFFIES,
     cur_timer = Some timer_none, count_p = 1193, jiffies_p = 0, last_print = 0,
     rtc_lock = SPIN_LOCK_UNLOCKED, i8253_lock = SPIN_LOCK_UNLOCKED\<rparr>"

lemma demo_rtc_chip: "rtc_chip demo_reg demo_rtc"
  by (simp add: rtc_chip_def demo_rtc_def)

lemma demo_shows: "shows_time demo_reg 2024 2 29 12 34 56"
  by (simp add: shows_time_def demo_reg_def rtc_regs bcd_byte_def BIN2BCD_def)

lemma demo_seconds: "epoch_seconds 2024 2 29 12 34 56 = 1709210096"
  using days_before_year [of 2024] by (simp add: epoch_seconds_def epoch_days_def month_days_def leap_def leaps_def)

lemma demo_clock_facts: "unlocked (rtc_lock demo_clock)" "unlocked (i8253_lock demo_clock)"
  "unlocked (i8259A_lock (ck_irqs demo_clock))" "pic_inv (ck_irqs demo_clock)"
  using demo_irqs_inv
  by (simp_all add: demo_clock_def pic_inv_def imr_mirrored_def cached_master_mask_def cached_slave_mask_def)

text \<open>
  C16: from a clock chip that shows a date between 1970 and 2069 in binary coded decimals,
  \<open>get_cmos_time\<close> returns the number of seconds since the start of 1970, counted year by year and
  month by month.
\<close>

theorem cmos_time_correct:
  assumes "rtc_chip reg dev" and "shows_time reg y m d h mi s" and "valid_date y m d h mi s" and "unlocked (rtc_lock st)"
  shows "\<exists>t. get_cmos_time dev st = Some (of_nat (epoch_seconds y m d h mi s), t) \<and> same_but_io st t"
  by (rule get_cmos_time_chip [OF assms])

theorem cmos_time_correct_witness:
  "\<exists>t. get_cmos_time demo_rtc demo_clock = Some (1709210096, t)"
  using cmos_time_correct [OF demo_rtc_chip demo_shows _ demo_clock_facts(1)]
  by (auto simp: valid_date_def demo_seconds)

text \<open>What \<open>time_init\<close> does, and what it leaves alone.\<close>

lemma time_init_spec:
  assumes "rtc_chip reg dev" and "shows_time reg y m d h mi s" and "valid_date y m d h mi s" and "unlocked (rtc_lock st)"
    and "pic_inv (ck_irqs st)" and "d_handler (irq_desc (ck_irqs st) 0) = i8259A_irq_type"
    and "d_action (irq_desc (ck_irqs st) 0) = None" and "unlocked (d_lock (irq_desc (ck_irqs st) 0))"
    and "a_next (actions (ck_irqs st) IRQ0_ACTION) = None"
  shows "\<exists>t. time_init dev st = Some t \<and> tv_sec (xtime t) = of_nat (epoch_seconds y m d h mi s)
     \<and> tv_sec (xtime t) + tv_sec (wall_to_monotonic t) = - 1
     \<and> sint (tv_nsec (xtime t)) + sint (tv_nsec (wall_to_monotonic t)) = 1000000000
     \<and> cur_timer t = Some timer_pit \<and> count_p t = 1193 \<and> pic_inv (ck_irqs t)
     \<and> chain (actions (ck_irqs t)) (d_action (irq_desc (ck_irqs t) 0)) [IRQ0_ACTION]
     \<and> d_status (irq_desc (ck_irqs t) 0) = IRQ_PER_CPU \<and> \<not> bit (cached_irq_mask (ck_irqs t)) 0
     \<and> cached_irq_mask (ck_irqs t) = cached_irq_mask (ck_irqs st) AND NOT (bit_of 0)
     \<and> (\<forall>j. j \<noteq> 0 \<longrightarrow> irq_desc (ck_irqs t) j = irq_desc (ck_irqs st) j)
     \<and> (\<forall>a. a \<noteq> IRQ0_ACTION \<longrightarrow> actions (ck_irqs t) a = actions (ck_irqs st) a)"
proof -
  define now where "now = (of_nat (epoch_seconds y m d h mi s) :: u32)"
  from get_cmos_time_chip [OF assms(1-4)] obtain s1 where
    s1: "get_cmos_time dev st = Some (now, s1)" "same_but_io st s1" unfolding now_def by blast
  note f = same_but_io_pic [OF s1(2)]
  obtain t0 where t0: "setup_irq 0 IRQ0_ACTION (ck_irqs s1) = Some (0, t0)"
    "chain (actions t0) (d_action (irq_desc t0 0)) [IRQ0_ACTION]" "d_status (irq_desc t0 0) = IRQ_PER_CPU" "pic_inv t0"
    "cached_irq_mask t0 = cached_irq_mask (ck_irqs s1) AND NOT (bit_of 0)"
    "\<forall>j. j \<noteq> 0 \<longrightarrow> irq_desc t0 j = irq_desc (ck_irqs s1) j" "\<forall>a. a \<noteq> IRQ0_ACTION \<longrightarrow> actions t0 a = actions (ck_irqs s1) a"
    using setup_irq_first [of "ck_irqs s1" 0 IRQ0_ACTION] assms(5-9) f by auto
  define w where "w = set_normalized_timespec (- now) (- 296000000)"
  have n: "(INITIAL_JIFFIES mod HZ) * (NSEC_PER_SEC div HZ) = 296000000"
    by (simp add: INITIAL_JIFFIES_def HZ_def NSEC_PER_SEC_def)
  have neg: "sint (- 296000000 :: u32) = - 296000000" by simp
  obtain k where k: "tv_sec w = - now + of_int k" "- 296000000 = sint (tv_nsec w) + k * 1000000000"
    "0 \<le> sint (tv_nsec w)" "sint (tv_nsec w) < 1000000000"
    using normalized_spec [of "- now" "- 296000000"] unfolding w_def neg by auto
  then have k1: "k = - 1" by linarith
  have "sint (tv_nsec w) = 704000000" "now + tv_sec w = - 1" using k k1 by simp_all
  moreover have "\<not> bit (cached_irq_mask t0) 0"
    by (simp add: t0(5) bit_of_def bit_simps)
  ultimately show ?thesis
    using t0 f by (simp add: time_init_def s1(1) n w_def select_timer_def timers_def init_pit_def LATCH_eq time_init_hook_def now_def)
qed

text \<open>
  C15: \<open>time_init\<close> sets the wall clock to the date of the chip, makes the wall clock and its offset
  to the monotonic clock cancel (the monotonic clock starts at zero), selects the interval timer and
  serves and unmasks line 0.
\<close>

theorem time_init_correct:
  assumes "rtc_chip reg dev" and "shows_time reg y m d h mi s" and "valid_date y m d h mi s" and "unlocked (rtc_lock st)"
    and "pic_inv (ck_irqs st)" and "d_handler (irq_desc (ck_irqs st) 0) = i8259A_irq_type"
    and "d_action (irq_desc (ck_irqs st) 0) = None" and "unlocked (d_lock (irq_desc (ck_irqs st) 0))"
    and "a_next (actions (ck_irqs st) IRQ0_ACTION) = None"
  shows "\<exists>t. time_init dev st = Some t \<and> tv_sec (xtime t) = of_nat (epoch_seconds y m d h mi s)
     \<and> tv_sec (xtime t) + tv_sec (wall_to_monotonic t) = - 1
     \<and> sint (tv_nsec (xtime t)) + sint (tv_nsec (wall_to_monotonic t)) = 1000000000
     \<and> cur_timer t = Some timer_pit \<and> count_p t = 1193 \<and> pic_inv (ck_irqs t)
     \<and> chain (actions (ck_irqs t)) (d_action (irq_desc (ck_irqs t) 0)) [IRQ0_ACTION]
     \<and> d_status (irq_desc (ck_irqs t) 0) = IRQ_PER_CPU \<and> \<not> bit (cached_irq_mask (ck_irqs t)) 0"
  using time_init_spec [OF assms] by (elim exE conjE, intro exI conjI) assumption+

theorem time_init_correct_witness:
  "\<exists>t. time_init demo_rtc demo_clock = Some t \<and> tv_sec (xtime t) = 1709210096"
proof -
  have "\<exists>t. time_init demo_rtc demo_clock = Some t \<and> tv_sec (xtime t) = of_nat (epoch_seconds 2024 2 29 12 34 56)"
    using time_init_correct [OF demo_rtc_chip demo_shows _ demo_clock_facts(1,4)]
    by (auto simp: valid_date_def demo_clock_def demo_irqs_def)
  then show ?thesis by (simp add: demo_seconds)
qed

text \<open>
  \<open>set_normalized_timespec\<close> keeps the total time and leaves between zero and one billion
  nanoseconds; the upper bound is reached only by an argument that was not negative.
\<close>

theorem timespec_normalized:
  fixes sec nsec :: u32
  shows "\<exists>k. tv_sec (set_normalized_timespec sec nsec) = sec + of_int k
     \<and> sint nsec = sint (tv_nsec (set_normalized_timespec sec nsec)) + k * 1000000000
     \<and> sint (tv_nsec (set_normalized_timespec sec nsec)) \<in> {0..1000000000}
     \<and> sint (tv_nsec (set_normalized_timespec 0 1000000000)) = 1000000000"
proof -
  have "sint (tv_nsec (set_normalized_timespec 0 1000000000)) = 1000000000"
    by (simp add: set_normalized_timespec_def nsec_down.simps [of 0] nsec_up.simps [of 0] NSEC_PER_SEC_def
        word_sless_alt)
  then show ?thesis using normalized_spec [of sec nsec] by auto
qed

text \<open>
  C29: within a tick \<open>get_offset_pit\<close> never runs backwards: if the counter has gone down since the
  last reading, or the next tick is pending at the controller, the microseconds returned are at least those of
  the last reading. They are below 2000, and below 1000 when no tick is pending. The locks are free again.
\<close>

theorem offset_never_backwards:
  assumes "unlocked (i8253_lock s)" and "unlocked (i8259A_lock (ck_irqs s))"
    and "0 \<le> pit_latched dev (io (ck_irqs s))" and "pit_latched dev (io (ck_irqs s)) \<le> 1193"
    and "ucast (jiffies_64 s) = jiffies_p s" and "0 \<le> count_p s" and "count_p s \<le> 1193"
    and "pit_latched dev (io (ck_irqs s)) \<le> count_p s \<or> tick_pending dev (io (ck_irqs s))"
  shows "\<exists>off t. get_offset_pit dev s = Some (off, t) \<and> pit_offset (count_p s) \<le> off \<and> off < 2000
     \<and> (\<not> tick_pending dev (io (ck_irqs s)) \<longrightarrow> off < 1000)
     \<and> i8253_lock t = i8253_lock s \<and> i8259A_lock (ck_irqs t) = i8259A_lock (ck_irqs s) \<and> cpu_if (ck_irqs t) = cpu_if (ck_irqs s)"
proof -
  define c where "c = pit_latched dev (io (ck_irqs s))"
  define e where "e = (if count_p s < c \<and> tick_pending dev (io (ck_irqs s)) then c - 1193 else c)"
  have ee: "e = (if ucast (jiffies_64 s) = jiffies_p s \<and> count_p s < c \<and> tick_pending dev (io (ck_irqs s)) then c - 1193 else c)"
    using assms(5) by (simp add: e_def)
  have b: "- 1193 \<le> e" "e \<le> count_p s" "e \<le> 1193" "\<not> tick_pending dev (io (ck_irqs s)) \<Longrightarrow> 0 \<le> e"
    using assms(3,4,6,7,8) unfolding e_def c_def by (auto split: if_splits)
  have "int (unat (pit_offset e)) < 2000" "0 \<le> e \<Longrightarrow> int (unat (pit_offset e)) < 1000"
    using b(1) pit_offset_unat [OF b(1,3)] by (auto simp: div_less_iff_less_mult)
  then have "pit_offset e < 2000" "\<not> tick_pending dev (io (ck_irqs s)) \<Longrightarrow> pit_offset e < 1000"
    using b(4) unfolding word_less_nat_alt by (simp_all del: int_nat_eq of_nat_unat)
  moreover have "pit_offset (count_p s) \<le> pit_offset e" by (rule pit_offset_mono [OF b(1,2) assms(7)])
  ultimately show ?thesis
    using get_offset_pit_eq [OF assms(1,2) c_def _ ee] assms(4) unfolding c_def by fastforce
qed

theorem offset_never_backwards_witness:
  "\<exists>off t. get_offset_pit (\<lambda>l p. if p = 0x20 then 1 else 2) (demo_clock\<lparr>jiffies_p := ucast INITIAL_JIFFIES\<rparr>) = Some (off, t)
     \<and> pit_offset 1193 \<le> off"
proof -
  have c: "pit_latched (\<lambda>l p. if p = 0x20 then 1 else 2) l = 514" for l
    by (simp add: pit_latched_def PIT_CH0_def)
  have j: "ucast (ucast INITIAL_JIFFIES :: u64) = INITIAL_JIFFIES" by (simp add: INITIAL_JIFFIES_def HZ_def)
  show ?thesis
    using offset_never_backwards [of "demo_clock\<lparr>jiffies_p := ucast INITIAL_JIFFIES\<rparr>" "\<lambda>l p. if p = 0x20 then 1 else 2", unfolded c]
      demo_clock_facts(2,3) by (auto simp: demo_clock_def j)
qed

text \<open>
  \<open>setup_pit_timer\<close> programs the channel for rate generation with the divisor 1193, low byte
  first, and \<open>TICK_NSEC\<close> is the length of the resulting tick up to one nanosecond.
\<close>

theorem pit_programmed:
  assumes "unlocked (i8253_lock s)"
  shows "\<exists>t lo hi. setup_pit_timer s = Some t \<and> io (ck_irqs t) = io (ck_irqs s) @ [Out 0x43 0x34, Out 0x40 lo, Out 0x40 hi]
     \<and> unat lo + 256 * unat hi = 1193 \<and> i8253_lock t = i8253_lock s \<and> cpu_if (ck_irqs t) = cpu_if (ck_irqs s)
     \<and> \<bar>int (unat TICK_NSEC) * 1193182 - 1193 * 1000000000\<bar> < 1193182"
  using assms spin_lock_unlock [OF assms]
  by (simp add: setup_pit_timer_def lock_8253_def unlock_8253_def ck_outb_def do_outb_def outb_def PIT_MODE_def PIT_CH0_def
      LATCH_eq TICK_NSEC_eq)

theorem pit_programmed_witness:
  "\<exists>t lo hi. setup_pit_timer demo_clock = Some t \<and> unat (lo :: u8) + 256 * unat (hi :: u8) = 1193"
  using pit_programmed [OF demo_clock_facts(2)] by blast

text \<open>
  C30: once a timer is selected every timer interrupt is handled and counts one jiffy, also across
  the wrap of the counter; the time of the last print is less than 1000 jiffies back.
\<close>

theorem timer_interrupts_count:
  assumes "cur_timer s = Some t" and "0 < n"
  shows "\<exists>s'. ticks n s = Some s' \<and> get_jiffies_64 s' = get_jiffies_64 s + of_nat n \<and> jiffies_64 s' - last_print s' < 1000"
  using ticks_spec [OF assms(1), of n] assms(2) by (auto simp: get_jiffies_64_def)

theorem timer_interrupts_count_witness:
  "\<exists>s'. ticks 300000 demo_clock = Some s' \<and> get_jiffies_64 s' = 0x100000000"
proof -
  have "get_jiffies_64 demo_clock + of_nat 300000 = 0x100000000"
    by (simp add: get_jiffies_64_def demo_clock_def INITIAL_JIFFIES_def HZ_def)
  then show ?thesis using timer_interrupts_count [of demo_clock timer_none 300000] by (auto simp: demo_clock_def)
qed

text \<open>
  \<open>delay_pit\<close> decrements its counter until it is negative as a signed number: it ends for every
  argument, after one round more than asked for up to \<open>2 ^ 31\<close> and after a single round above.
\<close>

theorem delay_terminates:
  "delay_pit loops = (if loops \<le> 0x80000000 then Suc (unat loops) else 1)"
  by (rule delay_pit_eq)

end
