(* ===== verification/Libc.thy ===== *)
theory Libc
  imports Prelude "HOL-Library.Monad_Syntax"
begin

text \<open>
  The C library of the kernel: the byte-string operations of \<open>libc/string/\<close>, and the 64 by 32 bit
  division of \<open>kernel/include/kernel/util.h\<close>. Memory is a function from addresses to bytes;
  addresses wrap as the processor's do.
\<close>

type_synonym mem = "u32 \<Rightarrow> u8"

section \<open>Copying and filling\<close>

text \<open>The loop with rising index, of \<open>memcpy\<close> and of one branch of \<open>memmove\<close>.\<close>

function copy_up :: "u32 \<Rightarrow> u32 \<Rightarrow> u32 \<Rightarrow> u32 \<Rightarrow> mem \<Rightarrow> mem" where
  "copy_up dst src i sz m =
     (if i < sz then copy_up dst src (i + 1) sz (m(dst + i := m (src + i))) else m)"
  by auto
termination
  by (relation "measure (\<lambda>(dst, src, i, sz, m). unat sz - unat i)")
     (auto simp: unat_add_one_less word_less_nat_alt intro!: diff_less_mono2)

text \<open>The loop with falling index.\<close>

function copy_down :: "u32 \<Rightarrow> u32 \<Rightarrow> u32 \<Rightarrow> mem \<Rightarrow> mem" where
  "copy_down dst src i m =
     (if i \<noteq> 0 then copy_down dst src (i - 1) (m(dst + (i - 1) := m (src + (i - 1)))) else m)"
  by auto
termination
  by (relation "measure (\<lambda>(dst, src, i, m). unat i)") (auto simp: unat_minus_one unat_gt_0)

function fill_up :: "u32 \<Rightarrow> u8 \<Rightarrow> u32 \<Rightarrow> u32 \<Rightarrow> mem \<Rightarrow> mem" where
  "fill_up buf v i sz m = (if i < sz then fill_up buf v (i + 1) sz (m(buf + i := v)) else m)"
  by auto
termination
  by (relation "measure (\<lambda>(buf, v, i, sz, m). unat sz - unat i)")
     (auto simp: unat_add_one_less word_less_nat_alt intro!: diff_less_mono2)

declare copy_up.simps [simp del] copy_down.simps [simp del] fill_up.simps [simp del]

definition memcpy :: "u32 \<Rightarrow> u32 \<Rightarrow> u32 \<Rightarrow> mem \<Rightarrow> u32 \<times> mem" where
  "memcpy dst src sz m = (dst, copy_up dst src 0 sz m)"

definition memmove :: "u32 \<Rightarrow> u32 \<Rightarrow> u32 \<Rightarrow> mem \<Rightarrow> u32 \<times> mem" where
  "memmove dst src sz m = (dst, if dst < src then copy_up dst src 0 sz m else copy_down dst src sz m)"

text \<open>\<open>value\<close> is an \<open>int\<close> that is stored as a byte.\<close>

definition memset :: "u32 \<Rightarrow> u32 \<Rightarrow> u32 \<Rightarrow> mem \<Rightarrow> u32 \<times> mem" where
  "memset buf v sz m = (buf, fill_up buf (ucast v) 0 sz m)"

section \<open>Comparing and measuring\<close>

function compare_from :: "u32 \<Rightarrow> u32 \<Rightarrow> u32 \<Rightarrow> u32 \<Rightarrow> mem \<Rightarrow> int" where
  "compare_from a b i sz m =
     (if i < sz then
        if m (a + i) < m (b + i) then - 1
        else if m (b + i) < m (a + i) then 1
        else compare_from a b (i + 1) sz m
      else 0)"
  by auto
termination
  by (relation "measure (\<lambda>(a, b, i, sz, m). unat sz - unat i)")
     (auto simp: unat_add_one_less word_less_nat_alt intro!: diff_less_mono2)

declare compare_from.simps [simp del]

definition memcmp :: "u32 \<Rightarrow> u32 \<Rightarrow> u32 \<Rightarrow> mem \<Rightarrow> int" where
  "memcmp a b sz m = compare_from a b 0 sz m"

text \<open>A memory without a zero byte keeps \<open>strlen\<close> running for ever.\<close>

partial_function (option) strlen_from :: "u32 \<Rightarrow> mem \<Rightarrow> u32 \<Rightarrow> u32 option" where
  "strlen_from str m len = (if m (str + len) \<noteq> 0 then strlen_from str m (len + 1) else Some len)"

definition strlen :: "u32 \<Rightarrow> mem \<Rightarrow> u32 option" where
  "strlen str m = strlen_from str m 0"

text \<open>The byte is read before the bound is tested.\<close>

function strnlen_from :: "u32 \<Rightarrow> u32 \<Rightarrow> mem \<Rightarrow> u32 \<Rightarrow> u32" where
  "strnlen_from str maxlen m len =
     (if m (str + len) \<noteq> 0 \<and> len < maxlen then strnlen_from str maxlen m (len + 1) else len)"
  by auto
termination
  by (relation "measure (\<lambda>(str, maxlen, m, len). unat maxlen - unat len)")
     (auto simp: unat_add_one_less word_less_nat_alt intro!: diff_less_mono2)

declare strnlen_from.simps [simp del]

definition strnlen :: "u32 \<Rightarrow> u32 \<Rightarrow> mem \<Rightarrow> u32" where
  "strnlen str maxlen m = strnlen_from str maxlen m 0"

definition isdigit :: "u8 \<Rightarrow> bool" where
  "isdigit c \<longleftrightarrow> 48 \<le> c \<and> c \<le> 57"

section \<open>Division of 64 by 32 bits\<close>

text \<open>
  \<open>divl\<close>: the 64 bit number with the given halves by \<open>b\<close>. The processor raises a divide error on
  a zero divisor and on a quotient that does not fit.
\<close>

definition divl :: "u32 \<Rightarrow> u32 \<Rightarrow> u32 \<Rightarrow> (u32 \<times> u32) option" where
  "divl high low b =
     (let n = unat high * 2 ^ 32 + unat low
      in if b = 0 \<or> n div unat b \<ge> 2 ^ 32 then None
         else Some (of_nat (n div unat b), of_nat (n mod unat b)))"

text \<open>\<open>_do_div\<close> on four and on eight bytes: the remainder and the new value.\<close>

definition do_div4 :: "u32 \<Rightarrow> u32 \<Rightarrow> (u32 \<times> u32) option" where
  "do_div4 a b = (if b = 0 then None else Some (a mod b, a div b))"

definition do_div8 :: "u64 \<Rightarrow> u32 \<Rightarrow> (u32 \<times> u64) option" where
  "do_div8 c b =
     (let high = ucast (drop_bit 32 c) :: u32; low = ucast c :: u32 in
      if high \<noteq> 0 \<and> b = 0 then None
      else let (upper1, high1) = (if high \<noteq> 0 then (high mod b, high div b) else (high, high)) in do {
        (low1, rem) \<leftarrow> divl upper1 low b;
        Some (rem, ucast low1 OR push_bit 32 (ucast high1)) })"

end
