(* ===== verification/LibcProps.thy ===== *)
theory LibcProps
  imports Libc
begin

text \<open>
  The byte-string operations against their specifications by address, and the 64 by 32 bit division
  against \<open>div\<close> and \<open>mod\<close>.
\<close>

section \<open>Copying\<close>

lemma word_le_succ: "(i :: u32) < n \<Longrightarrow> (i + 1 \<le> k) = (i \<le> k \<and> k \<noteq> i)"
  using unat_add_one_less [of i n] word_unat_eq_iff [of k i] by (auto simp: word_le_nat_alt)

lemma word_succ_le: "(i :: u32) < n \<Longrightarrow> i + 1 \<le> n"
  using unat_add_one_less [of i n] by (simp add: word_le_nat_alt word_less_nat_alt)

lemma copy_up_spec:
  assumes "\<And>i j. i < j \<Longrightarrow> j < n \<Longrightarrow> src + j \<noteq> dst + i"
  shows "copy_up dst src i n m a = (if i \<le> a - dst \<and> a - dst < n then m (src + (a - dst)) else m a)"
  using assms
proof (induction dst src i n m rule: copy_up.induct)
  case (1 dst src i n m)
  show ?case
  proof (cases "i < n")
    case True
    have "copy_up dst src i n m a = copy_up dst src (i + 1) n (m(dst + i := m (src + i))) a"
      using True by (simp add: copy_up.simps [of dst src i])
    also have "\<dots> = (if i + 1 \<le> a - dst \<and> a - dst < n then (m(dst + i := m (src + i))) (src + (a - dst))
         else (m(dst + i := m (src + i))) a)"
      by (rule "1.IH" [OF True]) (rule "1.prems")
    also have "\<dots> = (if i \<le> a - dst \<and> a - dst < n then m (src + (a - dst)) else m a)"
    proof (cases "a - dst = i")
      case True
      then have "a = dst + i" by (simp add: diff_eq_eq add.commute)
      then show ?thesis using \<open>i < n\<close> word_le_succ [OF \<open>i < n\<close>, of i] by simp
    next
      case False
      then have "a \<noteq> dst + i" by auto
      moreover have "src + (a - dst) \<noteq> dst + i" if "i \<le> a - dst" "a - dst < n"
        using "1.prems" [of i "a - dst"] that False by force
      ultimately show ?thesis using word_le_succ [OF True, of "a - dst"] False by auto
    qed
    finally show ?thesis .
  next
    case False
    then show ?thesis by (auto simp: copy_up.simps [of dst src i])
  qed
qed

lemma copy_down_spec:
  assumes "\<And>i j. j < i \<Longrightarrow> i < n \<Longrightarrow> src + j \<noteq> dst + i"
  shows "k \<le> n \<Longrightarrow> copy_down dst src k m a = (if a - dst < k then m (src + (a - dst)) else m a)"
  using assms
proof (induction dst src k m rule: copy_down.induct)
  case (1 dst src k m)
  show ?case
  proof (cases "k = 0")
    case False
    define i where "i = k - 1"
    have i: "k = i + 1" "i < k" using False by (simp_all add: i_def word_less_nat_alt unat_minus_one unat_gt_0)
    have "copy_down dst src k m a = copy_down dst src i (m(dst + i := m (src + i))) a"
      using False by (simp add: copy_down.simps [of dst src k] i_def)
    also have "\<dots> = (if a - dst < i then (m(dst + i := m (src + i))) (src + (a - dst)) else (m(dst + i := m (src + i))) a)"
    proof (rule "1.IH" [OF False, folded i_def])
      show "i \<le> n" using i(2) "1.prems"(1) by (simp add: less_imp_le)
    qed (rule "1.prems"(2))
    also have "\<dots> = (if a - dst < k then m (src + (a - dst)) else m a)"
    proof (cases "a - dst = i")
      case True
      then have "a = dst + i" by (simp add: diff_eq_eq add.commute)
      then show ?thesis using i(2) by simp
    next
      case False
      then have "a \<noteq> dst + i" by auto
      moreover have "src + (a - dst) \<noteq> dst + i" if "a - dst < i"
        using "1.prems"(2) [of "a - dst" i] that i(2) "1.prems"(1) by simp
      moreover have "(a - dst < k) = (a - dst < i)"
        using False i word_le_succ [of i k "a - dst"] by (metis linorder_not_le order_less_le)
      ultimately show ?thesis by auto
    qed
    finally show ?thesis .
  qed (simp add: copy_down.simps [of dst src])
qed

lemma fill_up_spec:
  "fill_up buf v i n m a = (if i \<le> a - buf \<and> a - buf < n then v else m a)"
proof (induction buf v i n m rule: fill_up.induct)
  case (1 buf v i n m)
  show ?case
  proof (cases "i < n")
    case True
    have "fill_up buf v i n m a = fill_up buf v (i + 1) n (m(buf + i := v)) a"
      using True by (simp add: fill_up.simps [of buf v i])
    also have "\<dots> = (if i + 1 \<le> a - buf \<and> a - buf < n then v else (m(buf + i := v)) a)" by (rule "1.IH" [OF True])
    also have "\<dots> = (if i \<le> a - buf \<and> a - buf < n then v else m a)"
      using True word_le_succ [OF True, of "a - buf"] by (auto simp: diff_eq_eq add.commute)
    finally show ?thesis .
  qed (auto simp: fill_up.simps [of buf v i])
qed

text \<open>Regions that do not wrap round the end of memory.\<close>

definition in_memory :: "u32 \<Rightarrow> u32 \<Rightarrow> bool" where
  "in_memory p n \<longleftrightarrow> unat p + unat n \<le> 4294967296"

lemma unat_add_region: "in_memory p n \<Longrightarrow> i < n \<Longrightarrow> unat (p + i) = unat p + unat i"
  by (rule unat_add_small) (simp add: in_memory_def word_less_nat_alt)

lemma regions_ordered:
  assumes "in_memory p n" "in_memory q n" "p \<le> q" "i < j" "j < n"
  shows "p + i \<noteq> q + j"
proof -
  have "unat (p + i) < unat (q + j)"
    using assms unat_add_region [of p n i] unat_add_region [of q n j] by (simp add: word_le_nat_alt word_less_nat_alt)
  then show ?thesis by auto
qed

lemma memmove_spec:
  assumes "in_memory dst n" "in_memory src n"
  shows "snd (memmove dst src n m) a = (if a - dst < n then m (src + (a - dst)) else m a)"
proof (cases "dst < src")
  case True
  have "copy_up dst src 0 n m a = (if 0 \<le> a - dst \<and> a - dst < n then m (src + (a - dst)) else m a)"
    by (rule copy_up_spec) (use True regions_ordered [OF assms(1,2)] in \<open>metis order_less_imp_le\<close>)
  then show ?thesis using True by (simp add: memmove_def)
next
  case False
  have "copy_down dst src n m a = (if a - dst < n then m (src + (a - dst)) else m a)"
    by (rule copy_down_spec [of n]) (use False regions_ordered [OF assms(2,1)] in \<open>metis not_le order_refl\<close>)+
  then show ?thesis using False by (simp add: memmove_def)
qed

lemma memcpy_spec:
  assumes "in_memory dst n" "in_memory src n" "dst \<le> src \<or> unat src + unat n \<le> unat dst"
  shows "snd (memcpy dst src n m) a = (if a - dst < n then m (src + (a - dst)) else m a)"
proof -
  have "src + j \<noteq> dst + i" if "i < j" "j < n" for i j
  proof (cases "dst \<le> src")
    case True
    then show ?thesis using regions_ordered [OF assms(1,2) True that] by simp
  next
    case False
    then have "unat (src + j) < unat (dst + i)"
      using assms that unat_add_region [OF assms(2), of j] unat_add_region [OF assms(1), of i]
      by (auto simp: word_less_nat_alt)
    then show ?thesis by auto
  qed
  from copy_up_spec [OF this, of n 0 m a] show ?thesis by (simp add: memcpy_def)
qed

section \<open>Comparing and measuring\<close>

lemma compare_from_spec:
  "i \<le> n \<Longrightarrow> (compare_from a b i n m = 0 \<and> (\<forall>j. i \<le> j \<and> j < n \<longrightarrow> m (a + j) = m (b + j)))
     \<or> (\<exists>j. i \<le> j \<and> j < n \<and> (\<forall>k. i \<le> k \<and> k < j \<longrightarrow> m (a + k) = m (b + k)) \<and> m (a + j) \<noteq> m (b + j)
          \<and> compare_from a b i n m = (if m (a + j) < m (b + j) then - 1 else 1))"
proof (induction a b i n m rule: compare_from.induct)
  case (1 a b i n m)
  consider "\<not> i < n" | "i < n" "m (a + i) \<noteq> m (b + i)" | "i < n" "m (a + i) = m (b + i)" by blast
  then show ?case
  proof cases
    case 1
    then show ?thesis by (intro disjI1) (auto simp: compare_from.simps [of a b i] dest: le_less_trans)
  next
    case 2
    then have "compare_from a b i n m = (if m (a + i) < m (b + i) then - 1 else 1)"
      by (auto simp: compare_from.simps [of a b i])
    then show ?thesis using 2 by (intro disjI2 exI [of _ i]) auto
  next
    case 3
    have c: "compare_from a b i n m = compare_from a b (i + 1) n m"
      using 3 by (simp add: compare_from.simps [of a b i])
    have le: "i + 1 \<le> n" "\<And>k. (i + 1 \<le> k) = (i \<le> k \<and> k \<noteq> i)" by (rule word_succ_le [OF 3(1)], rule word_le_succ [OF 3(1)])
    note ih = "1.IH" [OF 3(1) _ _ le(1), folded c, unfolded le(2)]
    from ih 3(2) consider "compare_from a b i n m = 0" "\<forall>j. (i \<le> j \<and> j \<noteq> i) \<and> j < n \<longrightarrow> m (a + j) = m (b + j)"
      | j where "i \<le> j" "j < n" "\<forall>k. (i \<le> k \<and> k \<noteq> i) \<and> k < j \<longrightarrow> m (a + k) = m (b + k)" "m (a + j) \<noteq> m (b + j)"
          "compare_from a b i n m = (if m (a + j) < m (b + j) then - 1 else 1)"
      by auto
    then show ?thesis
    proof cases
      case 1
      then show ?thesis using 3(2) by metis
    next
      case (2 j)
      then show ?thesis using 3(2) by metis
    qed
  qed
qed

lemma strlen_from_spec:
  assumes "\<And>j. len \<le> j \<Longrightarrow> j < n \<Longrightarrow> m (str + j) \<noteq> 0" "m (str + n) = 0" "len \<le> n"
  shows "strlen_from str m len = Some n"
  using assms
proof (induction "unat n - unat len" arbitrary: len)
  case 0
  then have "len = n" by (simp add: word_le_nat_alt word_unat_eq_iff)
  then show ?case using 0 by (simp add: strlen_from.simps)
next
  case (Suc d)
  then have "len \<noteq> n" by auto
  with Suc.prems(3) have lt: "len < n" by simp
  have "strlen_from str m (len + 1) = Some n"
    by (rule Suc.hyps(1)) (use Suc.hyps(2) Suc.prems lt unat_add_one_less [OF lt] word_le_succ [OF lt] in auto)
  then show ?case using Suc.prems(1) [of len] lt by (simp add: strlen_from.simps [of str m len])
qed

lemma strnlen_from_spec:
  "len \<le> maxlen \<Longrightarrow> len \<le> strnlen_from str maxlen m len \<and> strnlen_from str maxlen m len \<le> maxlen
     \<and> (\<forall>j. len \<le> j \<and> j < strnlen_from str maxlen m len \<longrightarrow> m (str + j) \<noteq> 0)
     \<and> (strnlen_from str maxlen m len < maxlen \<longrightarrow> m (str + strnlen_from str maxlen m len) = 0)"
proof (induction str maxlen m len rule: strnlen_from.induct)
  case (1 str maxlen m len)
  show ?case
  proof (cases "m (str + len) \<noteq> 0 \<and> len < maxlen")
    case True
    then have lt: "len < maxlen" by simp
    have e: "strnlen_from str maxlen m len = strnlen_from str maxlen m (len + 1)"
      using True by (simp add: strnlen_from.simps [of str maxlen m len])
    have le: "len + 1 \<le> maxlen" "\<And>k. (len + 1 \<le> k) = (len \<le> k \<and> k \<noteq> len)" by (rule word_succ_le [OF lt], rule word_le_succ [OF lt])
    define r where "r = strnlen_from str maxlen m (len + 1)"
    have ih: "len + 1 \<le> r" "r \<le> maxlen" "\<And>j. len + 1 \<le> j \<Longrightarrow> j < r \<Longrightarrow> m (str + j) \<noteq> 0" "r < maxlen \<Longrightarrow> m (str + r) = 0"
      using "1.IH" [OF True le(1), folded r_def] by (elim conjE; simp)+
    have "m (str + j) \<noteq> 0" if "len \<le> j" "j < r" for j
      using ih(3) [of j] le(2) [of j] that True by (cases "j = len") simp_all
    then show ?thesis using ih le(2) [of r] unfolding e r_def [symmetric] by blast
  next
    case False
    then have "strnlen_from str maxlen m len = len" by (auto simp: strnlen_from.simps [of str maxlen m len])
    then show ?thesis using False "1.prems" by auto
  qed
qed

section \<open>Division\<close>

lemma div_halves:
  assumes "0 < (b :: nat)"
  shows "(h * k + l) div b = h div b * k + (h mod b * k + l) div b" "(h * k + l) mod b = (h mod b * k + l) mod b"
proof -
  have e: "h * k + l = b * (h div b * k) + (h mod b * k + l)"
    by (metis add.assoc add_mult_distrib mult.assoc mult_div_mod_eq)
  show "(h * k + l) div b = h div b * k + (h mod b * k + l) div b"
    by (subst e) (use assms in simp)
  show "(h * k + l) mod b = (h mod b * k + l) mod b"
    by (subst e) (use assms in simp)
qed

lemma u64_halves: "unat (c :: u64) = unat (ucast (drop_bit 32 c) :: u32) * 4294967296 + unat (ucast c :: u32)"
proof -
  have "unat (drop_bit 32 c) = unat c div 4294967296"
    unfolding unat_drop_bit_eq by (simp add: drop_bit_eq_div)
  moreover have "unat c < 18446744073709551616" by (rule less_le_trans [OF unsigned_less]) simp
  then have "unat c div 4294967296 < 4294967296" by (simp add: div_less_iff_less_mult)
  moreover have "unat (ucast w :: u32) = unat w mod 4294967296" for w :: u64
    by (simp add: unsigned_ucast_eq take_bit_eq_mod)
  ultimately show ?thesis by simp
qed

lemma u64_join: "(ucast (l :: u32) OR push_bit 32 (ucast (h :: u32)) :: u64) = of_nat (unat h * 4294967296 + unat l)"
proof -
  have "(ucast l OR push_bit 32 (ucast h) :: u64) = ucast l + push_bit 32 (ucast h)"
    by (rule disjunctive_add_eq_or [symmetric], rule bit_eqI) (auto simp: bit_simps dest: bit_imp_le_length)
  also have "\<dots> = of_nat (unat l) + 4294967296 * of_nat (unat h)"
    by (simp add: push_bit_eq_mult mult.commute)
  finally show ?thesis by (simp add: algebra_simps)
qed

lemma do_div8_spec:
  assumes "b \<noteq> 0"
  shows "do_div8 c b = Some (of_nat (unat c mod unat b), of_nat (unat c div unat b))"
proof -
  define h where "h = (ucast (drop_bit 32 c) :: u32)"
  define l where "l = (ucast c :: u32)"
  have b: "0 < unat b" using assms by (simp add: unat_gt_0)
  have c: "unat c = unat h * 4294967296 + unat l" unfolding h_def l_def by (rule u64_halves)
  have s: "(if h \<noteq> 0 then (h mod b, h div b) else (h, h)) = (h mod b, h div b)" by simp
  define q where "q = (unat (h mod b) * 4294967296 + unat l) div unat b"
  have u: "unat (h mod b) < unat b" "unat (h mod b) = unat h mod unat b" "unat (h div b) = unat h div unat b"
    using b by (simp_all add: unat_mod_distrib unat_div_distrib)
  have "unat (h mod b) * 4294967296 + unat l < unat b * 4294967296"
  proof -
    have "Suc (unat (h mod b)) * 4294967296 \<le> unat b * 4294967296" using u(1) by (intro mult_le_mono1) simp
    then have "4294967296 + unat (h mod b) * 4294967296 \<le> unat b * 4294967296" unfolding mult_Suc .
    moreover have "unat l < 4294967296" by (rule unat_u32_less)
    ultimately show ?thesis by linarith
  qed
  then have q: "q < 4294967296" unfolding q_def by (simp add: div_less_iff_less_mult b mult.commute)
  have "divl (h mod b) l b = Some (of_nat q, of_nat ((unat (h mod b) * 4294967296 + unat l) mod unat b))"
    using assms q by (simp add: divl_def Let_def q_def)
  moreover have "(ucast (of_nat q :: u32) OR push_bit 32 (ucast (h div b)) :: u64) = of_nat (unat c div unat b)"
  proof -
    have "unat c div unat b = unat h div unat b * 4294967296 + (unat h mod unat b * 4294967296 + unat l) div unat b"
      unfolding c by (rule div_halves(1) [OF b])
    then show ?thesis unfolding u64_join u(3) using word32_of_nat_unat_id [OF q] by (simp add: q_def u(2))
  qed
  moreover have "(unat (h mod b) * 4294967296 + unat l) mod unat b = unat c mod unat b"
    unfolding c u(2) by (rule div_halves(2) [OF b, symmetric])
  ultimately show ?thesis
    using assms by (simp add: do_div8_def Let_def h_def [symmetric] l_def [symmetric] s)
qed

section \<open>The properties\<close>

text \<open>
  C32: \<open>memmove\<close> copies overlapping regions correctly: every byte of the target gets the byte the
  source held before, and no other byte changes.
\<close>

theorem memmove_correct:
  assumes "in_memory dst n" and "in_memory src n"
  shows "fst (memmove dst src n m) = dst
     \<and> (\<forall>i. snd (memmove dst src n m) (dst + i) = (if i < n then m (src + i) else m (dst + i)))"
  using memmove_spec [OF assms] by (auto simp: memmove_def)

theorem memmove_correct_witness:
  "snd (memmove 0x1004 0x1000 8 (\<lambda>a. ucast a)) (0x1004 + 7) = 0x07"
proof -
  have word_demo: "(7 :: u32) < 8" by simp
  have "in_memory 0x1004 8" "in_memory 0x1000 8" by (simp_all add: in_memory_def)
  then have "snd (memmove 0x1004 0x1000 8 (\<lambda>a. ucast a)) (0x1004 + 7) = ucast (0x1000 + 7 :: u32)"
    using memmove_correct [of "0x1004" 8 "0x1000" "\<lambda>a. ucast a"] by (metis word_demo)
  then show ?thesis by simp
qed

text \<open>
  \<open>memcpy\<close> copies whenever the target does not start inside the source; \<open>memset\<close> sets exactly the
  bytes of its region.
\<close>

theorem memcpy_memset_correct:
  assumes "in_memory dst n" and "in_memory src n" and "dst \<le> src \<or> unat src + unat n \<le> unat dst"
  shows "(\<forall>i. snd (memcpy dst src n m) (dst + i) = (if i < n then m (src + i) else m (dst + i)))
     \<and> (\<forall>i. snd (memset dst v n m) (dst + i) = (if i < n then ucast v else m (dst + i)))"
  using memcpy_spec [OF assms] by (auto simp: memset_def fill_up_spec)

theorem memcpy_memset_correct_witness:
  "\<forall>i. snd (memcpy 0x1000 0x1004 8 m) (0x1000 + i) = (if i < 8 then m (0x1004 + i) else m (0x1000 + i))"
  using memcpy_memset_correct [of "0x1000" 8 "0x1004" m] by (simp add: in_memory_def)

text \<open>
  \<open>memcmp\<close> returns 0 exactly on equal regions, and otherwise -1 or 1 by the first byte that
  differs.
\<close>

theorem memcmp_correct:
  "if \<forall>j < n. m (a + j) = m (b + j) then memcmp a b n m = 0
   else \<exists>j < n. (\<forall>k < j. m (a + k) = m (b + k)) \<and> m (a + j) \<noteq> m (b + j)
          \<and> memcmp a b n m = (if m (a + j) < m (b + j) then - 1 else 1)"
  using compare_from_spec [of 0 n a b m] unfolding memcmp_def by auto

theorem memcmp_correct_witness:
  "memcmp 0x1000 0x2000 4 (\<lambda>a. 65) = 0"
  using memcmp_correct [of 4 "\<lambda>a. 65" "0x1000" "0x2000"] by simp

text \<open>
  \<open>strlen\<close> ends on every string with a zero byte and returns its first index; \<open>strnlen\<close> always ends
  and returns the smaller of that index and the bound.
\<close>

theorem string_lengths:
  assumes "m (str + n) = 0" and "\<And>j. j < n \<Longrightarrow> m (str + j) \<noteq> 0"
  shows "strlen str m = Some n \<and> strnlen str maxlen m = min n maxlen"
proof
  show "strlen str m = Some n"
    unfolding strlen_def by (rule strlen_from_spec) (simp_all add: assms)
  define r where "r = strnlen str maxlen m"
  have r: "r \<le> maxlen" "\<And>j. j < r \<Longrightarrow> m (str + j) \<noteq> 0" "r < maxlen \<Longrightarrow> m (str + r) = 0"
    using strnlen_from_spec [of 0 maxlen str m] unfolding r_def strnlen_def by simp_all
  have "r \<le> n" using r(2) [of n] assms(1) by (metis not_le)
  moreover have "n \<le> r \<or> r = maxlen" using r(1,3) assms(2) [of r] by (metis not_le order_le_less)
  ultimately show "strnlen str maxlen m = min n maxlen" using r(1) unfolding r_def by (auto simp: min_def)
qed

theorem string_lengths_witness:
  "strlen 0x1000 (\<lambda>a. if a = 0x1003 then 0 else 65) = Some 3"
proof -
  have "(0x1000 :: u32) + j \<noteq> 0x1003" if "j < 3" for j
  proof
    assume "(0x1000 :: u32) + j = 0x1003"
    then have "j = 0x1003 - 0x1000" by (metis add_diff_cancel_left')
    with that show False by simp
  qed
  then show ?thesis
    using string_lengths [of "\<lambda>a. if a = 0x1003 then 0 else 65" "0x1000" 3] by simp
qed

text \<open>
  C31: \<open>_do_div\<close> on eight bytes divides by any nonzero divisor: the processor's division never
  overflows, and the value and the remainder are \<open>div\<close> and \<open>mod\<close>.
\<close>

theorem do_div_correct:
  assumes "b \<noteq> 0"
  shows "do_div8 c b = Some (of_nat (unat c mod unat b), of_nat (unat c div unat b))
     \<and> do_div4 a b = Some (of_nat (unat a mod unat b), of_nat (unat a div unat b))"
  using do_div8_spec [OF assms] assms by (simp add: do_div4_def flip: unat_div_distrib unat_mod_distrib)

theorem do_div_correct_witness:
  "do_div8 0xFFFFFFFFFFFFFFFF 10 = Some (5, 0x1999999999999999)"
  using do_div_correct [of 10 "0xFFFFFFFFFFFFFFFF"] by simp

end
