(* ===== verification/Format.thy ===== *)
theory Format
  imports Libc PageDesc
begin

text \<open>
  Formatted output: \<open>libc/stdio/vsnprintf.c\<close>, and \<open>sprintf\<close> of \<open>libc/stdio/printf.c\<close>. The format is
  the list of its bytes before the final zero, the variable arguments are the words on the stack, as
  \<open>va_arg\<close> of \<open>libc/include/stdarg.h\<close> takes them. Sizes, widths and precisions are the values of the
  code's \<open>int\<close> variables; the code does not go on after an overflow of one of them, which C leaves undefined.
\<close>

section \<open>Characters and flags\<close>

abbreviation asc :: "char \<Rightarrow> u8" where "asc c \<equiv> of_char c"

definition ZEROPAD :: u32 where "ZEROPAD = 1"
definition SIGN :: u32 where "SIGN = 2"
definition PLUS :: u32 where "PLUS = 4"
definition SPACE :: u32 where "SPACE = 8"
definition LEFT :: u32 where "LEFT = 16"
definition SPECIAL :: u32 where "SPECIAL = 32"
definition LARGE :: u32 where "LARGE = 64"

lemmas flag_defs = ZEROPAD_def SIGN_def PLUS_def SPACE_def LEFT_def SPECIAL_def LARGE_def

definition small_digits :: "u8 list" where
  "small_digits = map of_char ''0123456789abcdefghijklmnopqrstuvwxyz''"

definition large_digits :: "u8 list" where
  "large_digits = map of_char ''0123456789ABCDEFGHIJKLMNOPQRSTUVWXYZ''"

section \<open>Writing into the buffer\<close>

text \<open>
  The memory and the number of characters produced so far: the code's \<open>str\<close> is \<open>buf\<close> plus that
  number. A character is stored only up to \<open>end\<close>, the pointer always moves.
\<close>

type_synonym out = "mem \<times> nat"

definition put :: "u32 \<Rightarrow> u32 \<Rightarrow> u8 \<Rightarrow> out \<Rightarrow> out" where
  "put buf lim c mp = (let (m, p) = mp; str = buf + of_nat p in (if str \<le> lim then m(str := c) else m, Suc p))"

text \<open>\<open>while (size-- > 0)\<close>.\<close>

function pad :: "u32 \<Rightarrow> u32 \<Rightarrow> u8 \<Rightarrow> int \<Rightarrow> out \<Rightarrow> int \<times> out" where
  "pad buf lim c sz mp = (if sz > 0 then pad buf lim c (sz - 1) (put buf lim c mp) else (sz - 1, mp))"
  by auto
termination by (relation "measure (\<lambda>(buf, lim, c, sz, mp). nat sz)") auto

text \<open>\<open>while (--field_width > 0)\<close>.\<close>

function pad_pre :: "u32 \<Rightarrow> u32 \<Rightarrow> u8 \<Rightarrow> int \<Rightarrow> out \<Rightarrow> int \<times> out" where
  "pad_pre buf lim c w mp = (if w - 1 > 0 then pad_pre buf lim c (w - 1) (put buf lim c mp) else (w - 1, mp))"
  by auto
termination by (relation "measure (\<lambda>(buf, lim, c, w, mp). nat w)") auto

text \<open>\<open>while (len < field_width--)\<close>, and \<open>while (i < precision--)\<close>.\<close>

function pad_to :: "u32 \<Rightarrow> u32 \<Rightarrow> u8 \<Rightarrow> int \<Rightarrow> int \<Rightarrow> out \<Rightarrow> int \<times> out" where
  "pad_to buf lim c len w mp = (if len < w then pad_to buf lim c len (w - 1) (put buf lim c mp) else (w - 1, mp))"
  by auto
termination by (relation "measure (\<lambda>(buf, lim, c, len, w, mp). nat (w - len))") auto

declare pad.simps [simp del] pad_pre.simps [simp del] pad_to.simps [simp del]

section \<open>Numbers\<close>

text \<open>\<open>tmp[i++] = digits[do_div(num,base)]\<close>, the lowest digit first.\<close>

partial_function (option) get_digits :: "u8 list \<Rightarrow> u64 \<Rightarrow> u32 \<Rightarrow> u8 list \<Rightarrow> u8 list option" where
  "get_digits digits num base tmp =
     (if num \<noteq> 0 then Option.bind (do_div8 num base) (\<lambda>(r, q). get_digits digits q base (tmp @ [digits ! unat r]))
      else Some tmp)"

text \<open>\<open>while (i-- > 0)\<close>: the digits from the last to the first.\<close>

fun put_digits :: "u32 \<Rightarrow> u32 \<Rightarrow> u8 list \<Rightarrow> nat \<Rightarrow> out \<Rightarrow> out" where
  "put_digits buf lim tmp 0 mp = mp"
| "put_digits buf lim tmp (Suc i) mp = put_digits buf lim tmp i (put buf lim (tmp ! i) mp)"

text \<open>The sign, the absolute value and the width that is left.\<close>

definition number_sign :: "u32 \<Rightarrow> u64 \<Rightarrow> int \<Rightarrow> u8 \<times> u64 \<times> int" where
  "number_sign type num sz =
     (if type AND SIGN \<noteq> 0 then
        if num <s 0 then (asc CHR ''-'', - num, sz - 1)
        else if type AND PLUS \<noteq> 0 then (asc CHR ''+'', num, sz - 1)
        else if type AND SPACE \<noteq> 0 then (asc CHR '' '', num, sz - 1)
        else (0, num, sz)
      else (0, num, sz))"

text \<open>\<open>number\<close>. A base outside 2 to 36, for which the code returns a null pointer, is \<^const>\<open>None\<close>.\<close>

definition number :: "u32 \<Rightarrow> u32 \<Rightarrow> u64 \<Rightarrow> int \<Rightarrow> int \<Rightarrow> int \<Rightarrow> u32 \<Rightarrow> out \<Rightarrow> out option" where
  "number buf lim num base sz precision type mp =
     (let digits = (if type AND LARGE \<noteq> 0 then large_digits else small_digits);
          type1 = (if type AND LEFT \<noteq> 0 then type AND NOT ZEROPAD else type)
      in if base < 2 \<or> base > 36 then None
      else do {
        let c = (if type1 AND ZEROPAD \<noteq> 0 then asc CHR ''0'' else asc CHR '' '');
        let (sign, num1, sz1) = number_sign type1 num sz;
        let sz2 = (if type1 AND SPECIAL \<noteq> 0 then if base = 16 then sz1 - 2 else if base = 8 then sz1 - 1 else sz1 else sz1);
        tmp \<leftarrow> (if num1 = 0 then Some [asc CHR ''0''] else get_digits digits num1 (of_int base) []);
        let i = int (length tmp);
        let precision1 = (if i > precision then i else precision);
        let sz3 = sz2 - precision1;
        let (sz4, o1) = (if type1 AND (ZEROPAD + LEFT) = 0 then pad buf lim (asc CHR '' '') sz3 mp else (sz3, mp));
        let o2 = (if sign \<noteq> 0 then put buf lim sign o1 else o1);
        let o3 = (if type1 AND SPECIAL \<noteq> 0 then
             if base = 8 then put buf lim (asc CHR ''0'') o2
             else if base = 16 then put buf lim (digits ! 33) (put buf lim (asc CHR ''0'') o2)
             else o2
           else o2);
        let (sz5, o4) = (if type1 AND LEFT = 0 then pad buf lim c sz4 o3 else (sz4, o3));
        let (_, o5) = pad_to buf lim (asc CHR ''0'') i precision1 o4;
        let o6 = put_digits buf lim tmp (length tmp) o5;
        let (_, o7) = pad buf lim (asc CHR '' '') sz5 o6;
        Some o7 })"

section \<open>Reading the format\<close>

definition peek :: "u8 list \<Rightarrow> u8" where
  "peek fmt = (case fmt of [] \<Rightarrow> 0 | c # _ \<Rightarrow> c)"

fun skip_atoi :: "int \<Rightarrow> u8 list \<Rightarrow> int \<times> u8 list" where
  "skip_atoi i [] = (i, [])"
| "skip_atoi i (c # s) = (if isdigit c then skip_atoi (i * 10 + int (unat c) - 48) s else (i, c # s))"

fun parse_flags :: "u32 \<Rightarrow> u8 list \<Rightarrow> u32 \<times> u8 list" where
  "parse_flags flags [] = (flags, [])"
| "parse_flags flags (c # s) =
     (if c = asc CHR ''-'' then parse_flags (flags OR LEFT) s
      else if c = asc CHR ''+'' then parse_flags (flags OR PLUS) s
      else if c = asc CHR '' '' then parse_flags (flags OR SPACE) s
      else if c = asc CHR ''#'' then parse_flags (flags OR SPECIAL) s
      else if c = asc CHR ''0'' then parse_flags (flags OR ZEROPAD) s
      else (flags, c # s))"

text \<open>A field width or precision in the format: none, a number, or the next argument.\<close>

datatype field = Absent | Given int | Star

definition parse_field :: "u8 list \<Rightarrow> field \<times> u8 list" where
  "parse_field fmt =
     (if isdigit (peek fmt) then let (i, rest) = skip_atoi 0 fmt in (Given i, rest)
      else if peek fmt = asc CHR ''*'' then (Star, tl fmt)
      else (Absent, fmt))"

text \<open>A precision follows a dot; a dot with nothing behind counts as 0.\<close>

definition parse_precision :: "u8 list \<Rightarrow> field \<times> u8 list" where
  "parse_precision fmt =
     (if peek fmt = asc CHR ''.'' then
        let (f, rest) = parse_field (tl fmt) in (if f = Absent then Given 0 else f, rest)
      else (Absent, fmt))"

definition parse_qualifier :: "u8 list \<Rightarrow> u8 option \<times> u8 list" where
  "parse_qualifier fmt =
     (if peek fmt \<in> set (map of_char ''hlLZz'') then
        if peek fmt = asc CHR ''l'' \<and> peek (tl fmt) = asc CHR ''l'' then (Some (asc CHR ''L''), tl (tl fmt))
        else (Some (peek fmt), tl fmt)
      else (None, fmt))"

record directive =
  d_flags :: u32
  d_width :: field
  d_prec :: field
  d_qual :: "u8 option"

text \<open>What stands between the percent sign and the conversion character.\<close>

definition parse_directive :: "u8 list \<Rightarrow> directive \<times> u8 list" where
  "parse_directive fmt =
     (let (fl, f1) = parse_flags 0 fmt; (w, f2) = parse_field f1;
          (pr, f3) = parse_precision f2; (q, f4) = parse_qualifier f3
      in (\<lparr>d_flags = fl, d_width = w, d_prec = pr, d_qual = q\<rparr>, f4))"

section \<open>Taking the arguments\<close>

definition va_arg :: "u32 list \<Rightarrow> (u32 \<times> u32 list) option" where
  "va_arg args = (case args of [] \<Rightarrow> None | a # as \<Rightarrow> Some (a, as))"

text \<open>The width, with the \<open>LEFT\<close> flag that a negative argument sets, and the precision.\<close>

definition get_width :: "directive \<Rightarrow> u32 list \<Rightarrow> (int \<times> u32 \<times> u32 list) option" where
  "get_width d args = (case d_width d of
       Absent \<Rightarrow> Some (- 1, d_flags d, args)
     | Given i \<Rightarrow> Some (i, d_flags d, args)
     | Star \<Rightarrow> do { (a, as) \<leftarrow> va_arg args;
         Some (if sint a < 0 then (- sint a, d_flags d OR LEFT, as) else (sint a, d_flags d, as)) })"

definition get_precision :: "directive \<Rightarrow> u32 list \<Rightarrow> (int \<times> u32 list) option" where
  "get_precision d args = (case d_prec d of
       Absent \<Rightarrow> Some (- 1, args)
     | Given i \<Rightarrow> Some (if i < 0 then 0 else i, args)
     | Star \<Rightarrow> do { (a, as) \<leftarrow> va_arg args; Some (if sint a < 0 then 0 else sint a, as) })"

text \<open>The integer argument by its qualifier, extended to 64 bits.\<close>

definition get_number :: "u8 option \<Rightarrow> u32 \<Rightarrow> u32 list \<Rightarrow> (u64 \<times> u32 list) option" where
  "get_number qual flags args = do {
     (a, as) \<leftarrow> va_arg args;
     if qual = Some (asc CHR ''L'') then do {
       (b, bs) \<leftarrow> va_arg as;
       Some (push_bit 32 (ucast b) OR ucast a, bs) }
     else if qual = Some (asc CHR ''l'') then Some (if flags AND SIGN \<noteq> 0 then scast a else ucast a, as)
     else if qual = Some (asc CHR ''Z'') \<or> qual = Some (asc CHR ''z'') then Some (ucast a, as)
     else if qual = Some (asc CHR ''h'') then
       Some (if flags AND SIGN \<noteq> 0 then scast (ucast a :: u16) else ucast (ucast a :: u16), as)
     else Some (if flags AND SIGN \<noteq> 0 then scast a else ucast a, as) }"

section \<open>The conversions\<close>

definition conv_char :: "u32 \<Rightarrow> u32 \<Rightarrow> int \<Rightarrow> u32 \<Rightarrow> u32 list \<Rightarrow> out \<Rightarrow> (u32 list \<times> out) option" where
  "conv_char buf lim width flags args mp = do {
     let (w1, o1) = (if flags AND LEFT = 0 then pad_pre buf lim (asc CHR '' '') width mp else (width, mp));
     (a, as) \<leftarrow> va_arg args;
     let o2 = put buf lim (ucast a) o1;
     let (_, o3) = pad_pre buf lim (asc CHR '' '') w1 o2;
     Some (as, o3) }"

definition null_text :: "u8 list" where
  "null_text = map of_char ''<NULL>''"

text \<open>The bytes that a string argument stands for: a pointer into the first page is printed as a text.\<close>

definition string_arg :: "u32 \<Rightarrow> mem \<Rightarrow> nat \<Rightarrow> u8" where
  "string_arg s m i = (if s < PAGE_SIZE then (if i < length null_text then null_text ! i else 0) else m (s + of_nat i))"

fun copy_string :: "u32 \<Rightarrow> u32 \<Rightarrow> (mem \<Rightarrow> nat \<Rightarrow> u8) \<Rightarrow> nat \<Rightarrow> nat \<Rightarrow> out \<Rightarrow> out" where
  "copy_string buf lim src i 0 mp = mp"
| "copy_string buf lim src i (Suc k) mp = copy_string buf lim src (Suc i) k (put buf lim (src (fst mp) i) mp)"

definition conv_string :: "u32 \<Rightarrow> u32 \<Rightarrow> int \<Rightarrow> int \<Rightarrow> u32 \<Rightarrow> u32 list \<Rightarrow> out \<Rightarrow> (u32 list \<times> out) option" where
  "conv_string buf lim width precision flags args mp = do {
     (s, as) \<leftarrow> va_arg args;
     let len = sint (strnlen 0 (of_int precision) (\<lambda>a. string_arg s (fst mp) (unat a)));
     let (w1, o1) = (if flags AND LEFT = 0 then pad_to buf lim (asc CHR '' '') len width mp else (width, mp));
     let o2 = copy_string buf lim (string_arg s) 0 (nat len) o1;
     let (_, o3) = pad_to buf lim (asc CHR '' '') len w1 o2;
     Some (as, o3) }"

definition conv_pointer :: "u32 \<Rightarrow> u32 \<Rightarrow> int \<Rightarrow> int \<Rightarrow> u32 \<Rightarrow> u32 list \<Rightarrow> out \<Rightarrow> (u32 list \<times> out) option" where
  "conv_pointer buf lim width precision flags args mp = do {
     let (w, fl) = (if width = - 1 then (8, flags OR ZEROPAD) else (width, flags));
     (a, as) \<leftarrow> va_arg args;
     mp1 \<leftarrow> number buf lim (ucast a) 16 w precision fl mp;
     Some (as, mp1) }"

text \<open>\<open>%n\<close>: the characters so far are stored, in four bytes for every qualifier.\<close>

definition store32 :: "u32 \<Rightarrow> u32 \<Rightarrow> mem \<Rightarrow> mem" where
  "store32 a v m = m(a := ucast v, a + 1 := ucast (drop_bit 8 v), a + 2 := ucast (drop_bit 16 v), a + 3 := ucast (drop_bit 24 v))"

definition conv_count :: "u32 list \<Rightarrow> out \<Rightarrow> (u32 list \<times> out) option" where
  "conv_count args mp = do {
     (ip, as) \<leftarrow> va_arg args;
     Some (as, store32 ip (of_nat (snd mp)) (fst mp), snd mp) }"

definition conv_int :: "u32 \<Rightarrow> u32 \<Rightarrow> int \<Rightarrow> u8 option \<Rightarrow> int \<Rightarrow> int \<Rightarrow> u32 \<Rightarrow> u32 list \<Rightarrow> out \<Rightarrow> (u32 list \<times> out) option" where
  "conv_int buf lim base qual width precision flags args mp = do {
     (num, as) \<leftarrow> get_number qual flags args;
     mp1 \<leftarrow> number buf lim num base width precision flags mp;
     Some (as, mp1) }"

text \<open>The switch over the conversion character; the byte 0 is the end of the format.\<close>

definition convert :: "u32 \<Rightarrow> u32 \<Rightarrow> u8 \<Rightarrow> directive \<Rightarrow> u32 list \<Rightarrow> out \<Rightarrow> (u32 list \<times> out) option" where
  "convert buf lim c d args0 mp = do {
     (width, flags, args1) \<leftarrow> get_width d args0;
     (precision, args) \<leftarrow> get_precision d args1;
     let qual = d_qual d;
     if c = asc CHR ''c'' then conv_char buf lim width flags args mp
     else if c = asc CHR ''s'' then conv_string buf lim width precision flags args mp
     else if c = asc CHR ''p'' then conv_pointer buf lim width precision flags args mp
     else if c = asc CHR ''n'' then conv_count args mp
     else if c = asc CHR ''%'' then Some (args, put buf lim (asc CHR ''%'') mp)
     else if c = asc CHR ''o'' then conv_int buf lim 8 qual width precision flags args mp
     else if c = asc CHR ''X'' then conv_int buf lim 16 qual width precision (flags OR LARGE) args mp
     else if c = asc CHR ''x'' then conv_int buf lim 16 qual width precision flags args mp
     else if c = asc CHR ''d'' \<or> c = asc CHR ''i'' then conv_int buf lim 10 qual width precision (flags OR SIGN) args mp
     else if c = asc CHR ''u'' then conv_int buf lim 10 qual width precision flags args mp
     else let o1 = put buf lim (asc CHR ''%'') mp in Some (args, if c \<noteq> 0 then put buf lim c o1 else o1) }"

section \<open>The loop over the format\<close>

lemma skip_atoi_length: "length (snd (skip_atoi i fmt)) \<le> length fmt"
  by (induction i fmt rule: skip_atoi.induct) auto

lemma parse_flags_length: "length (snd (parse_flags fl fmt)) \<le> length fmt"
  by (induction fl fmt rule: parse_flags.induct) auto

lemma parse_field_length: "length (snd (parse_field fmt)) \<le> length fmt"
  using skip_atoi_length [of 0 fmt] by (simp add: parse_field_def split_beta Let_def)

lemma parse_precision_length: "length (snd (parse_precision fmt)) \<le> length fmt"
proof -
  have "length (snd (parse_field (tl fmt))) \<le> length fmt"
    by (rule order_trans [OF parse_field_length]) simp
  then show ?thesis by (simp add: parse_precision_def split_beta Let_def)
qed

lemma parse_qualifier_length: "length (snd (parse_qualifier fmt)) \<le> length fmt"
  by (simp add: parse_qualifier_def)

lemma parse_directive_length: "length (snd (parse_directive fmt)) \<le> length fmt"
  unfolding parse_directive_def split_beta Let_def snd_conv
  by (meson order_trans parse_flags_length parse_field_length parse_precision_length parse_qualifier_length)

function format_loop :: "u32 \<Rightarrow> u32 \<Rightarrow> u8 list \<Rightarrow> u32 list \<Rightarrow> out \<Rightarrow> (u32 list \<times> out) option" where
  "format_loop buf lim [] args mp = Some (args, mp)"
| "format_loop buf lim (c # fmt) args mp =
     (if c \<noteq> asc CHR ''%'' then format_loop buf lim fmt args (put buf lim c mp)
      else Option.bind (convert buf lim (peek (snd (parse_directive fmt))) (fst (parse_directive fmt)) args mp)
             (\<lambda>(as, mp1). format_loop buf lim (tl (snd (parse_directive fmt))) as mp1))"
  by pat_completeness auto
termination
proof (relation "measure (\<lambda>(buf, lim, fmt, args, mp). length fmt)")
  fix fmt :: "u8 list"
  have "length (tl (snd (parse_directive fmt))) \<le> length fmt"
    using parse_directive_length [of fmt] by simp
  then show "((buf, lim, tl (snd (parse_directive fmt)), as, mp1), buf, lim, c # fmt, args, mp)
     \<in> measure (\<lambda>(buf, lim, fmt, args, mp). length fmt)" for buf lim :: u32 and c as args mp1 mp
    by simp
qed auto

section \<open>The entry points\<close>

text \<open>\<open>vsnprintf\<close>: the result, and memory.\<close>

definition vsnprintf :: "u32 \<Rightarrow> u32 \<Rightarrow> u8 list \<Rightarrow> u32 list \<Rightarrow> mem \<Rightarrow> (u32 \<times> mem) option" where
  "vsnprintf buf sz fmt args m =
     (let lim0 = buf + sz - 1;
          (lim, sz1) = (if lim0 < buf - 1 then (- 1, - 1 - buf + 1) else (lim0, sz))
      in do {
        (_, m1, p) \<leftarrow> format_loop buf lim fmt args (m, 0);
        let str = buf + of_nat p;
        let m2 = (if str \<le> lim then m1(str := 0) else if sz1 > 0 then m1(lim := 0) else m1);
        Some (of_nat p, m2) })"

text \<open>\<open>i\<close> is compared with the size as an unsigned number.\<close>

definition vscnprintf :: "u32 \<Rightarrow> u32 \<Rightarrow> u8 list \<Rightarrow> u32 list \<Rightarrow> mem \<Rightarrow> (u32 \<times> mem) option" where
  "vscnprintf buf sz fmt args m = do {
     (i, m1) \<leftarrow> vsnprintf buf sz fmt args m;
     Some (if i \<ge> sz then sz - 1 else i, m1) }"

definition sprintf :: "u32 \<Rightarrow> u32 \<Rightarrow> u8 list \<Rightarrow> u32 list \<Rightarrow> mem \<Rightarrow> (u32 \<times> mem) option" where
  "sprintf buf sz fmt args m = do { (written, m1) \<leftarrow> vsnprintf buf sz fmt args m; Some (1, m1) }"

end
