(* ===== verification/FormatProps.thy ===== *)
theory FormatProps
  imports Format LibcProps
begin

text \<open>
  What \<open>vsnprintf\<close> promises: the loops as appends of characters, the digits of a number, the layout of a
  converted number, termination, and the contract of the buffer.
\<close>

section \<open>Appending characters\<close>

definition puts :: "u32 \<Rightarrow> u32 \<Rightarrow> u8 list \<Rightarrow> out \<Rightarrow> out" where
  "puts buf lim bs mp = fold (put buf lim) bs mp"

lemma puts_simps [simp]:
  "puts buf lim [] mp = mp" "puts buf lim (c # bs) mp = puts buf lim bs (put buf lim c mp)"
  "puts buf lim (bs @ cs) mp = puts buf lim cs (puts buf lim bs mp)"
  by (simp_all add: puts_def)

lemma nat_step: "0 < (i :: int) \<Longrightarrow> nat i = Suc (nat (i - 1))"
  by simp

lemma pad_eq: "pad buf lim c sz mp = ((if 0 < sz then - 1 else sz - 1), puts buf lim (replicate (nat sz) c) mp)"
proof (induction buf lim c sz mp rule: pad.induct)
  case (1 buf lim c sz mp)
  show ?case
  proof (cases "0 < sz")
    case True
    then show ?thesis using "1.IH" by (simp add: pad.simps [of buf lim c sz] nat_step [OF True])
  qed (simp add: pad.simps [of buf lim c sz])
qed

lemma pad_pre_eq: "pad_pre buf lim c w mp = ((if 1 < w then 0 else w - 1), puts buf lim (replicate (nat (w - 1)) c) mp)"
proof (induction buf lim c w mp rule: pad_pre.induct)
  case (1 buf lim c w mp)
  show ?case
  proof (cases "0 < w - 1")
    case True
    then show ?thesis using "1.IH" by (simp add: pad_pre.simps [of buf lim c w] nat_step [OF True])
  qed (simp add: pad_pre.simps [of buf lim c w])
qed

lemma pad_to_eq: "pad_to buf lim c len w mp = ((if len < w then len - 1 else w - 1), puts buf lim (replicate (nat (w - len)) c) mp)"
proof (induction buf lim c len w mp rule: pad_to.induct)
  case (1 buf lim c len w mp)
  show ?case
  proof (cases "len < w")
    case True
    then have "nat (w - len) = Suc (nat (w - 1 - len))" by simp
    then show ?thesis using "1.IH" True by (simp add: pad_to.simps [of buf lim c len w])
  qed (simp add: pad_to.simps [of buf lim c len w])
qed

lemma put_digits_eq: "i \<le> length tmp \<Longrightarrow> put_digits buf lim tmp i mp = puts buf lim (rev (take i tmp)) mp"
  by (induction i arbitrary: mp) (simp_all add: take_Suc_conv_app_nth)

lemma copy_string_eq: "\<exists>bs. length bs = k \<and> copy_string buf lim src i k mp = puts buf lim bs mp"
proof (induction k arbitrary: i mp)
  case (Suc k)
  obtain bs where "length bs = k" "copy_string buf lim src (Suc i) k (put buf lim (src (fst mp) i) mp)
      = puts buf lim bs (put buf lim (src (fst mp) i) mp)" using Suc.IH by blast
  then show ?case by (intro exI [of _ "src (fst mp) i # bs"]) simp
qed simp

text \<open>Where the characters go: as long as the pointer does not come round to the buffer again.\<close>

lemma puts_snd: "snd (puts buf lim bs mp) = snd mp + length bs"
  by (induction bs arbitrary: mp) (simp_all add: put_def split_beta Let_def)

lemma puts_fst:
  assumes "p + length bs \<le> 4294967296"
  shows "fst (puts buf lim bs (m, p)) a =
     (let k = unat (a - buf) in if p \<le> k \<and> k < p + length bs \<and> a \<le> lim then bs ! (k - p) else m a)"
  using assms
proof (induction bs rule: rev_induct)
  case (snoc c bs)
  define k where "k = unat (a - buf)"
  define q where "q = p + length bs"
  obtain m1 where m1: "puts buf lim bs (m, p) = (m1, q)"
    using puts_snd [of buf lim bs "(m, p)"] by (cases "puts buf lim bs (m, p)") (auto simp: q_def)
  have ih: "m1 a = (if p \<le> k \<and> k < q \<and> a \<le> lim then bs ! (k - p) else m a)"
    using snoc m1 by (simp add: k_def q_def Let_def)
  have a: "(a = buf + of_nat q) = (k = q)"
  proof
    assume "a = buf + of_nat q"
    then have "k = unat (of_nat q :: u32)" by (simp add: k_def)
    also have "\<dots> = q" by (rule word32_of_nat_unat_id) (use snoc.prems in \<open>simp add: q_def\<close>)
    finally show "k = q" .
  next
    assume "k = q"
    then have "a - buf = of_nat q" unfolding k_def by (rule word_of_unat_eq)
    then show "a = buf + of_nat q" by (simp add: diff_eq_eq add.commute)
  qed
  have "fst (puts buf lim (bs @ [c]) (m, p)) a = (if buf + of_nat q \<le> lim \<and> a = buf + of_nat q then c else m1 a)"
    by (simp add: m1 put_def Let_def)
  also have "\<dots> = (if p \<le> k \<and> k < p + length (bs @ [c]) \<and> a \<le> lim then (bs @ [c]) ! (k - p) else m a)"
  proof (cases "k = q")
    case True
    then have "a = buf + of_nat q" using a by simp
    then show ?thesis using True ih by (auto simp: q_def)
  next
    case False
    then have "a \<noteq> buf + of_nat q" using a by simp
    then show ?thesis using False ih by (auto simp: q_def nth_append)
  qed
  finally show ?case by (simp add: k_def Let_def)
qed (auto simp: Let_def)

section \<open>Digits\<close>

text \<open>The digits of \<open>n\<close> to base \<open>b\<close>, the lowest first.\<close>

fun digs :: "nat \<Rightarrow> nat \<Rightarrow> nat list" where
  "digs b n = (if n = 0 \<or> b < 2 then [] else n mod b # digs b (n div b))"

declare digs.simps [simp del]

lemma digs_value: "2 \<le> b \<Longrightarrow> foldr (\<lambda>d v. d + b * v) (digs b n) 0 = n"
proof (induction b n rule: digs.induct)
  case (1 b n)
  show ?case using 1 by (cases "n = 0") (simp_all add: digs.simps [of b n] digs.simps [of b 0])
qed

lemma digs_less: "d \<in> set (digs b n) \<Longrightarrow> d < b"
proof (induction b n rule: digs.induct)
  case (1 b n)
  then show ?case by (auto simp: digs.simps [of b n] split: if_splits)
qed

lemma digs_top: "2 \<le> b \<Longrightarrow> n \<noteq> 0 \<Longrightarrow> digs b n \<noteq> [] \<and> last (digs b n) \<noteq> 0"
proof (induction b n rule: digs.induct)
  case (1 b n)
  show ?case
  proof (cases "n div b = 0")
    case True
    then have "n < b" using "1.prems" by (simp add: div_eq_0_iff)
    then show ?thesis using True "1.prems" by (simp add: digs.simps [of b n] digs.simps [of b 0])
  next
    case False
    then show ?thesis using "1.IH" "1.prems" by (simp add: digs.simps [of b n])
  qed
qed

lemma digs_length: "2 \<le> b \<Longrightarrow> n < 2 ^ k \<Longrightarrow> length (digs b n) \<le> k"
proof (induction k arbitrary: n)
  case (Suc k)
  have "n div b \<le> n div 2" using Suc.prems by (intro div_le_mono2) simp_all
  also have "\<dots> < 2 ^ k" using Suc.prems by simp
  finally have "n div b < 2 ^ k" .
  then show ?case using Suc.IH [of "n div b"] Suc.prems by (simp add: digs.simps [of b n])
qed (simp add: digs.simps)

lemma u64_unat_less [simp]: "unat (w :: u64) < 18446744073709551616"
  by (rule less_le_trans [OF unsigned_less]) simp

text \<open>The division loop of \<open>number\<close> ends, and its array of 66 characters is long enough.\<close>

lemma get_digits_eq:
  assumes "2 \<le> unat base"
  shows "get_digits ds num base tmp = Some (tmp @ map (\<lambda>d. ds ! d) (digs (unat base) (unat num)))"
proof (induction "unat num" arbitrary: num tmp rule: less_induct)
  case less
  show ?case
  proof (cases "num = 0")
    case False
    have b: "base \<noteq> 0" using assms by auto
    have n: "0 < unat num" using False by (simp add: unat_gt_0)
    define q where "q = (of_nat (unat num div unat base) :: u64)"
    have lt: "unat num div unat base < unat num" using n assms by simp
    then have q: "unat q = unat num div unat base"
      unfolding q_def by (intro word64_of_nat_unat_id) (rule less_trans [OF _ u64_unat_less])
    have "unat num mod unat base < 4294967296"
      using assms by (intro less_trans [OF mod_less_divisor unat_u32_less]) simp
    then have r: "unat (of_nat (unat num mod unat base) :: u32) = unat num mod unat base"
      by (rule word32_of_nat_unat_id)
    have "get_digits ds num base tmp = get_digits ds q base (tmp @ [ds ! (unat num mod unat base)])"
      using False by (subst get_digits.simps) (simp add: do_div8_spec [OF b] r q_def)
    also have "\<dots> = Some ((tmp @ [ds ! (unat num mod unat base)]) @ map (\<lambda>d. ds ! d) (digs (unat base) (unat q)))"
      by (rule less) (simp add: q lt)
    finally show ?thesis using n assms by (simp add: digs.simps [of "unat base" "unat num"] q)
  qed (simp add: get_digits.simps digs.simps)
qed

section \<open>The layout of a number\<close>

lemma flag_facts:
  fixes type :: u32
  defines "type1 \<equiv> (if type AND LEFT \<noteq> 0 then type AND NOT ZEROPAD else type)"
  shows "(type1 AND LEFT = 0) = (type AND LEFT = 0)" "(type1 AND SPECIAL = 0) = (type AND SPECIAL = 0)"
    "(type1 AND ZEROPAD = 0) = (type AND LEFT \<noteq> 0 \<or> type AND ZEROPAD = 0)"
    "(type1 AND (ZEROPAD + LEFT) = 0) = (type AND LEFT = 0 \<and> type AND ZEROPAD = 0)"
    "number_sign type1 num sz = number_sign type num sz"
proof -
  have b: "(w AND 2 ^ k = 0) = (\<not> bit w k)" if "k < 32" for w :: u32 and k
  proof -
    have "w AND 2 ^ k = (if bit w k then 2 ^ k else 0)" by (rule bit_eqI) (auto simp: bit_simps)
    then show ?thesis using that by (simp add: exp_eq_zero_iff)
  qed
  have c: "(w AND 17 = 0) = (\<not> bit w 0 \<and> \<not> bit w 4)" for w :: u32
  proof -
    have "(17 :: u32) = 2 ^ 0 OR 2 ^ 4" by simp
    then have "(w AND 17 = 0) = (w AND 2 ^ 0 = 0 \<and> w AND 2 ^ 4 = 0)"
      by (metis (no_types, lifting) bit.conj_disj_distrib or_eq_0_iff)
    then show ?thesis using b [of 0 w] b [of 4 w] by simp
  qed
  note bits = b [of 0, simplified] b [of 1, simplified] b [of 2, simplified] b [of 3, simplified] b [of 4, simplified] b [of 5, simplified]
  have n: "\<not> bit (1 :: u32) k \<longleftrightarrow> k \<noteq> 0" for k by (simp add: bit_1_iff)
  show "(type1 AND LEFT = 0) = (type AND LEFT = 0)" "(type1 AND SPECIAL = 0) = (type AND SPECIAL = 0)"
    "(type1 AND ZEROPAD = 0) = (type AND LEFT \<noteq> 0 \<or> type AND ZEROPAD = 0)"
    "(type1 AND (ZEROPAD + LEFT) = 0) = (type AND LEFT = 0 \<and> type AND ZEROPAD = 0)"
    by (simp_all add: type1_def flag_defs bits c bit_simps n)
  show "number_sign type1 num sz = number_sign type num sz"
    by (simp add: type1_def number_sign_def flag_defs bits bit_simps n)
qed

definition digit_string :: "u32 \<Rightarrow> int \<Rightarrow> u64 \<Rightarrow> u8 list" where
  "digit_string type base num =
     (let ds = (if type AND LARGE \<noteq> 0 then large_digits else small_digits)
      in if num = 0 then [asc CHR ''0''] else rev (map (\<lambda>d. ds ! d) (digs (nat base) (unat num))))"

definition number_prefix :: "u32 \<Rightarrow> int \<Rightarrow> u8 list" where
  "number_prefix type base =
     (if type AND SPECIAL = 0 then [] else if base = 8 then [asc CHR ''0'']
      else if base = 16 then [asc CHR ''0'', (if type AND LARGE \<noteq> 0 then large_digits else small_digits) ! 33] else [])"

text \<open>Blanks, sign, prefix, zeros for the width, zeros for the precision, digits, blanks.\<close>

definition number_bytes :: "u64 \<Rightarrow> int \<Rightarrow> int \<Rightarrow> int \<Rightarrow> u32 \<Rightarrow> u8 list" where
  "number_bytes num base sz precision type =
     (let (sign, num1, sz1) = number_sign type num sz; ds = digit_string type base num1;
          pre = number_prefix type base; n = max (int (length ds)) precision; fill = nat (sz1 - int (length pre) - n)
      in (if type AND LEFT = 0 \<and> type AND ZEROPAD = 0 then replicate fill (asc CHR '' '') else [])
         @ (if sign \<noteq> 0 then [sign] else []) @ pre
         @ (if type AND LEFT = 0 \<and> type AND ZEROPAD \<noteq> 0 then replicate fill (asc CHR ''0'') else [])
         @ replicate (nat (n - int (length ds))) (asc CHR ''0'') @ ds
         @ (if type AND LEFT \<noteq> 0 then replicate fill (asc CHR '' '') else []))"

lemma number_eq:
  assumes "2 \<le> base" "base \<le> 36"
  shows "number buf lim num base sz precision type mp = Some (puts buf lim (number_bytes num base sz precision type) mp)"
proof -
  define type1 where "type1 = (if type AND LEFT \<noteq> 0 then type AND NOT ZEROPAD else type)"
  note ff = flag_facts [of type, folded type1_def]
  obtain sign num1 sz1 where sg: "number_sign type num sz = (sign, num1, sz1)" by (cases "number_sign type num sz")
  define ds where "ds = (if type AND LARGE \<noteq> 0 then large_digits else small_digits)"
  define dst where "dst = digit_string type base num1"
  define tmp where "tmp = rev dst"
  have base: "unat (of_int base :: u32) = nat base"
  proof -
    obtain n where "base = int n" using assms nonneg_int_cases [of base] by auto
    then show ?thesis using assms by (simp add: word32_of_nat_unat_id)
  qed
  have tmp: "(if num1 = 0 then Some [asc CHR ''0''] else get_digits ds num1 (of_int base) []) = Some tmp"
    using assms by (simp add: tmp_def dst_def digit_string_def Let_def ds_def get_digits_eq base)
  have rv: "dst = rev tmp" by (simp add: tmp_def)
  show ?thesis
    using assms tmp
    unfolding number_def number_bytes_def Let_def type1_def [symmetric] ds_def [symmetric] ff sg prod.case dst_def [symmetric] rv
    by (cases "type AND LEFT = 0"; cases "type AND ZEROPAD = 0"; cases "type AND SPECIAL = 0")
       (simp_all add: pad_eq pad_to_eq put_digits_eq number_prefix_def ds_def max_def)
qed

section \<open>The conversions append characters\<close>

definition appends :: "u32 \<Rightarrow> u32 \<Rightarrow> out \<Rightarrow> out \<Rightarrow> bool" where
  "appends buf lim mp mp' \<longleftrightarrow> (\<exists>bs. mp' = puts buf lim bs mp)"

lemma appends_puts [intro, simp]: "appends buf lim mp (puts buf lim bs mp)"
  by (auto simp: appends_def)

lemma appends_refl [simp]: "appends buf lim mp mp"
  unfolding appends_def by (rule exI [of _ "[]"]) simp

lemma appends_trans: "appends buf lim a b \<Longrightarrow> appends buf lim b c \<Longrightarrow> appends buf lim a c"
  unfolding appends_def by (metis puts_simps(3))

lemma appends_put [simp]: "appends buf lim mp (put buf lim c mp)"
  using appends_puts [of buf lim mp "[c]"] by simp

lemma appends_put_trans: "appends buf lim a b \<Longrightarrow> appends buf lim a (put buf lim c b)"
  by (rule appends_trans [OF _ appends_put])

lemma appends_puts_trans: "appends buf lim a b \<Longrightarrow> appends buf lim a (puts buf lim bs b)"
  by (rule appends_trans [OF _ appends_puts])

lemma appends_copy [simp]: "appends buf lim mp (copy_string buf lim src i k mp)"
  using copy_string_eq [of k buf lim src i mp] by (auto simp: appends_def)

lemma number_appends: "number buf lim num base sz precision type mp = Some mp' \<Longrightarrow> appends buf lim mp mp'"
proof (cases "2 \<le> base \<and> base \<le> 36")
  case False
  moreover assume "number buf lim num base sz precision type mp = Some mp'"
  ultimately show ?thesis by (auto simp: number_def Let_def)
qed (auto simp: number_eq)

text \<open>The state after a conversion other than \<open>%n\<close>.\<close>

lemma conv_char_appends: "conv_char buf lim w fl args mp = Some (as, mp') \<Longrightarrow> appends buf lim mp mp'"
  by (auto simp: conv_char_def pad_pre_eq Let_def appends_put_trans appends_puts_trans
      split: prod.splits if_splits option.splits Option.bind_splits)

lemma conv_string_appends: "conv_string buf lim w pr fl args mp = Some (as, mp') \<Longrightarrow> appends buf lim mp mp'"
  by (auto simp: conv_string_def pad_to_eq Let_def intro!: appends_puts_trans appends_trans [OF _ appends_copy]
      split: prod.splits if_splits Option.bind_splits)

lemma convert_appends:
  assumes "convert buf lim c d args mp = Some (as, mp')" "c \<noteq> asc CHR ''n''"
  shows "appends buf lim mp mp'"
  using assms
  by (auto simp: convert_def conv_pointer_def conv_int_def Let_def appends_put_trans
      dest!: number_appends conv_char_appends conv_string_appends split: prod.splits if_splits Option.bind_splits)

text \<open>The conversion characters that a format uses.\<close>

function conversions :: "u8 list \<Rightarrow> u8 list" where
  "conversions [] = []"
| "conversions (c # fmt) =
     (if c \<noteq> asc CHR ''%'' then conversions fmt
      else peek (snd (parse_directive fmt)) # conversions (tl (snd (parse_directive fmt))))"
  by pat_completeness auto
termination
proof (relation "measure length")
  fix fmt :: "u8 list" and c
  have "length (tl (snd (parse_directive fmt))) \<le> length fmt"
    using parse_directive_length [of fmt] by simp
  then show "(tl (snd (parse_directive fmt)), c # fmt) \<in> measure length" by simp
qed auto

lemma format_loop_appends:
  "format_loop buf lim fmt args mp = Some (as, mp') \<Longrightarrow> asc CHR ''n'' \<notin> set (conversions fmt) \<Longrightarrow> appends buf lim mp mp'"
proof (induction buf lim fmt args mp rule: format_loop.induct)
  case (2 buf lim c fmt args mp)
  show ?case
  proof (cases "c = asc CHR ''%''")
    case False
    then have "appends buf lim (put buf lim c mp) mp'" using 2 by simp
    then show ?thesis by (rule appends_trans [OF appends_put])
  next
    case True
    define d where "d = fst (parse_directive fmt)"
    define r where "r = snd (parse_directive fmt)"
    obtain as1 mp1 where 1: "convert buf lim (peek r) d args mp = Some (as1, mp1)"
      "format_loop buf lim (tl r) as1 mp1 = Some (as, mp')"
      using 2(3) True by (auto simp: d_def r_def split: Option.bind_splits)
    have n: "peek r \<noteq> asc CHR ''n''" "asc CHR ''n'' \<notin> set (conversions (tl r))"
      using 2(4) True by (auto simp: r_def)
    have "appends buf lim mp mp1" by (rule convert_appends [OF 1(1) n(1)])
    moreover have "appends buf lim mp1 mp'"
      by (rule 2(2) [of "(as1, mp1)" as1 mp1]) (use True 1 n in \<open>simp_all add: d_def r_def\<close>)
    ultimately show ?thesis by (rule appends_trans)
  qed
qed simp

section \<open>Termination\<close>

text \<open>A conversion takes at most four words: a width, a precision and a long long value.\<close>

lemma va_arg_total: "0 < length args \<Longrightarrow> va_arg args = Some (hd args, tl args)"
  by (cases args) (simp_all add: va_arg_def)

lemma get_width_total: "0 < length args \<Longrightarrow> \<exists>w fl as. get_width d args = Some (w, fl, as) \<and> length args - 1 \<le> length as"
  by (cases "d_width d") (auto simp: get_width_def va_arg_total)

lemma get_precision_total: "0 < length args \<Longrightarrow> \<exists>p as. get_precision d args = Some (p, as) \<and> length args - 1 \<le> length as"
  by (cases "d_prec d") (auto simp: get_precision_def va_arg_total)

lemma two_args: "1 < length args \<Longrightarrow> \<exists>a b r. args = a # b # r"
  by (cases args; cases "tl args") auto

lemma get_number_total: "1 < length args \<Longrightarrow> \<exists>n as. get_number q fl args = Some (n, as) \<and> length args - 2 \<le> length as"
  by (drule two_args) (auto simp: get_number_def va_arg_def)

lemma conv_total:
  assumes "1 < length args"
  shows "\<exists>as mp'. conv_char buf lim w fl args mp = Some (as, mp') \<and> length args - 2 \<le> length as"
    "\<exists>as mp'. conv_string buf lim w pr fl args mp = Some (as, mp') \<and> length args - 2 \<le> length as"
    "\<exists>as mp'. conv_pointer buf lim w pr fl args mp = Some (as, mp') \<and> length args - 2 \<le> length as"
    "\<exists>as mp'. conv_count args mp = Some (as, mp') \<and> length args - 2 \<le> length as"
    "2 \<le> b \<Longrightarrow> b \<le> 36 \<Longrightarrow> \<exists>as mp'. conv_int buf lim b q w pr fl args mp = Some (as, mp') \<and> length args - 2 \<le> length as"
  using two_args [OF assms] get_number_total [OF assms, of q fl]
  by (auto simp: conv_char_def conv_string_def conv_pointer_def conv_count_def conv_int_def va_arg_def Let_def split_beta number_eq)

lemma convert_total:
  assumes "4 \<le> length args"
  shows "\<exists>as mp'. convert buf lim c d args mp = Some (as, mp') \<and> length args - 4 \<le> length as"
proof -
  obtain w fl a1 where 1: "get_width d args = Some (w, fl, a1)" "length args - 1 \<le> length a1"
    using get_width_total [OF order_less_le_trans [OF _ assms], of d] by auto
  have "0 < length a1" using assms 1(2) by linarith
  then obtain p a2 where 2: "get_precision d a1 = Some (p, a2)" "length a1 - 1 \<le> length a2"
    using get_precision_total [of a1 d] by auto
  have l: "1 < length a2" "length args - 2 \<le> length a2" using assms 1(2) 2(2) by linarith+
  have le: "length a2 - 2 \<le> k \<Longrightarrow> length args - 4 \<le> k" for k using l(2) by linarith
  have "length args - 4 \<le> length a2" using l(2) by linarith
  then show ?thesis
    using conv_total(1) [OF l(1), of buf lim w fl mp] conv_total(2) [OF l(1), of buf lim w p fl mp]
      conv_total(3) [OF l(1), of buf lim w p fl mp] conv_total(4) [OF l(1), of mp]
      conv_total(5) [OF l(1), of 8 buf lim "d_qual d" w p fl mp] conv_total(5) [OF l(1), of 16 buf lim "d_qual d" w p fl mp]
      conv_total(5) [OF l(1), of 16 buf lim "d_qual d" w p "fl OR LARGE" mp]
      conv_total(5) [OF l(1), of 10 buf lim "d_qual d" w p "fl OR SIGN" mp] conv_total(5) [OF l(1), of 10 buf lim "d_qual d" w p fl mp]
    by (auto simp: convert_def 1(1) 2(1) Let_def dest!: le)
qed

lemma format_loop_total:
  "4 * length fmt \<le> length args \<Longrightarrow> \<exists>as mp'. format_loop buf lim fmt args mp = Some (as, mp')"
proof (induction buf lim fmt args mp rule: format_loop.induct)
  case (2 buf lim c fmt args mp)
  show ?case
  proof (cases "c = asc CHR ''%''")
    case True
    define r where "r = snd (parse_directive fmt)"
    obtain as1 mp1 where 1: "convert buf lim (peek r) (fst (parse_directive fmt)) args mp = Some (as1, mp1)"
      "length args - 4 \<le> length as1"
      using convert_total [of args buf lim "peek r" "fst (parse_directive fmt)" mp] 2(3) by auto
    have "length (tl r) \<le> length fmt" using parse_directive_length [of fmt] by (simp add: r_def)
    then have l4: "4 * length (tl r) \<le> length as1" using 1(2) 2(3) by simp
    have "\<exists>as mp'. format_loop buf lim (tl r) as1 mp1 = Some (as, mp')"
      unfolding r_def by (rule 2(2) [of "(as1, mp1)" as1 mp1]) (use True 1 l4 in \<open>simp_all add: r_def\<close>)
    then show ?thesis using True 1(1) by (simp add: r_def)
  qed (use 2 in simp)
qed simp

section \<open>The buffer\<close>

lemma terminated_buffer:
  fixes buf sz :: u32 and bs m
  defines "lim \<equiv> buf + sz - 1" and "p \<equiv> length bs"
  assumes "buf \<noteq> 0" "in_memory buf sz" "unat buf + length bs < 4294967296"
  defines "m1 \<equiv> fst (puts buf lim bs (m, 0))"
  defines "m2 \<equiv> (if buf + of_nat p \<le> lim then m1(buf + of_nat p := 0) else if sz > 0 then m1(lim := 0) else m1)"
  shows "sz \<le> a - buf \<Longrightarrow> m2 a = m a"
    "0 < sz \<Longrightarrow> i < min p (unat sz - 1) \<Longrightarrow> m2 (buf + of_nat i) = bs ! i"
    "0 < sz \<Longrightarrow> m2 (buf + of_nat (min p (unat sz - 1))) = 0"
proof -
  have b: "0 < unat buf" using assms(3) by (simp add: unat_gt_0)
  have s: "unat buf + unat sz \<le> 4294967296" using assms(4) by (simp add: in_memory_def)
  have at: "unat (buf + of_nat k) = unat buf + k" if "unat buf + k < 4294967296" for k
  proof -
    have k: "unat (of_nat k :: u32) = k" using that by (intro word32_of_nat_unat_id) simp
    show ?thesis using that unat_add_small [of buf "of_nat k"] unfolding k by simp
  qed
  have lim: "unat lim = unat buf + unat sz - 1"
  proof (cases "sz = 0")
    case True
    then show ?thesis using assms(3) by (simp add: lim_def unat_minus_one)
  next
    case False
    then have z: "0 < unat sz" by (simp add: unat_gt_0)
    have e: "lim = buf + of_nat (unat sz - 1)" using z by (simp add: lim_def of_nat_diff)
    show ?thesis unfolding e using at [of "unat sz - 1"] s z by simp
  qed
  have e: "(buf + of_nat k \<le> lim) = (k < unat sz)" if "unat buf + k < 4294967296" for k
    unfolding word_le_nat_alt at [OF that] lim using b by linarith
  have m1: "m1 a = (if unat (a - buf) < p \<and> a \<le> lim then bs ! unat (a - buf) else m a)" for a
    using puts_fst [of 0 bs buf lim m a] assms(5) by (simp add: m1_def p_def Let_def)
  have off: "unat (buf + of_nat k - buf :: u32) = k" if "unat buf + k < 4294967296" for k
    using that word32_of_nat_unat_id [of k] by simp
  have limk: "lim = buf + of_nat (unat sz - 1)" if "0 < sz"
  proof -
    have "1 \<le> unat sz" using that by (simp add: word_less_nat_alt)
    then show ?thesis by (simp add: lim_def of_nat_diff)
  qed
  have p: "unat buf + p < 4294967296" using assms(5) by (simp add: p_def)
  show "m2 a = m a" if "sz \<le> a - buf"
  proof -
    have le: "unat sz \<le> unat (a - buf)" using that by (simp add: word_le_nat_alt)
    have nl: "\<not> a \<le> lim" if "unat (a - buf) < p"
    proof -
      have "unat buf + unat (a - buf) < 4294967296" using that p by linarith
      from e [OF this] le show ?thesis by simp
    qed
    have "a \<noteq> buf + of_nat p" if "buf + of_nat p \<le> lim"
      using off [OF p] e [OF p] that le by auto
    moreover have "a \<noteq> lim" if "0 < sz"
    proof
      assume "a = lim"
      moreover have "unat buf + (unat sz - 1) < 4294967296" using s that by (simp add: word_less_nat_alt)
      ultimately have "unat (a - buf) = unat sz - 1" using off [of "unat sz - 1"] unfolding limk [OF that] by metis
      then show False using le that by (simp add: word_less_nat_alt)
    qed
    ultimately show ?thesis using m1 [of a] nl by (auto simp: m2_def)
  qed
  assume z: "0 < sz"
  have zz: "0 < unat sz" using z by (simp add: word_less_nat_alt)
  show "m2 (buf + of_nat i) = bs ! i" if i: "i < min p (unat sz - 1)"
  proof -
    have bi: "unat buf + i < 4294967296" using i p by simp
    have "buf + of_nat i \<noteq> buf + of_nat p" using off [OF bi] off [OF p] i by (metis min_less_iff_conj less_irrefl)
    moreover have "buf + of_nat i \<noteq> lim"
    proof
      assume "buf + of_nat i = lim"
      moreover have "unat buf + (unat sz - 1) < 4294967296" using s zz by linarith
      ultimately have "i = unat sz - 1" using off [OF bi] off [of "unat sz - 1"] unfolding limk [OF z] by metis
      then show False using i by simp
    qed
    moreover have "i < unat sz" using i by linarith
    then have "m1 (buf + of_nat i) = bs ! i" using m1 [of "buf + of_nat i"] off [OF bi] e [OF bi] i by simp
    ultimately show ?thesis by (simp add: m2_def)
  qed
  show "m2 (buf + of_nat (min p (unat sz - 1))) = 0"
  proof (cases "p < unat sz")
    case True
    then have "min p (unat sz - 1) = p" by simp
    then show ?thesis using e [OF p] True by (simp add: m2_def)
  next
    case False
    then have "min p (unat sz - 1) = unat sz - 1" using zz by simp
    then show ?thesis using e [OF p] False limk [OF z] z by (simp add: m2_def)
  qed
qed

lemma vsnprintf_puts:
  assumes "buf \<noteq> 0" "in_memory buf sz"
    and f: "format_loop buf (buf + sz - 1) fmt args (m, 0) = Some (as, puts buf (buf + sz - 1) bs (m, 0))"
  shows "\<exists>m'. vsnprintf buf sz fmt args m = Some (of_nat (length bs), m')
     \<and> (unat buf + length bs < 4294967296 \<longrightarrow>
          (\<forall>a. sz \<le> a - buf \<longrightarrow> m' a = m a)
        \<and> (0 < sz \<longrightarrow> (\<forall>i < min (length bs) (unat sz - 1). m' (buf + of_nat i) = bs ! i)
             \<and> m' (buf + of_nat (min (length bs) (unat sz - 1))) = 0))"
proof -
  define lim where "lim = buf + sz - 1"
  have p: "puts buf lim bs (m, 0) = (fst (puts buf lim bs (m, 0)), length bs)"
    using puts_snd [of buf lim bs "(m, 0)"] by (simp add: prod_eq_iff)
  have nl: "\<not> lim < buf - 1"
  proof -
    have b: "0 < unat buf" using assms(1) by (simp add: unat_gt_0)
    have s: "unat buf + unat sz \<le> 4294967296" using assms(2) by (simp add: in_memory_def)
    have "lim = (buf - 1) + sz" by (simp add: lim_def)
    moreover have "unat (buf - 1) + unat sz < 4294967296" using b s assms(1) by (simp add: unat_minus_one)
    ultimately show ?thesis using unat_add_small [of "buf - 1" sz] by (simp add: word_less_nat_alt)
  qed
  define m1 where "m1 = fst (puts buf lim bs (m, 0))"
  define m2 where "m2 = (if buf + of_nat (length bs) \<le> lim then m1(buf + of_nat (length bs) := 0)
     else if sz > 0 then m1(lim := 0) else m1)"
  have "format_loop buf lim fmt args (m, 0) = Some (as, m1, length bs)"
    using f p by (simp add: lim_def m1_def)
  then have v: "vsnprintf buf sz fmt args m = Some (of_nat (length bs), m2)"
    using nl by (simp add: vsnprintf_def lim_def [symmetric] m2_def Let_def)
  have "(\<forall>a. sz \<le> a - buf \<longrightarrow> m2 a = m a)
     \<and> (0 < sz \<longrightarrow> (\<forall>i < min (length bs) (unat sz - 1). m2 (buf + of_nat i) = bs ! i)
          \<and> m2 (buf + of_nat (min (length bs) (unat sz - 1))) = 0)" if "unat buf + length bs < 4294967296"
    using terminated_buffer [OF assms(1,2) that, where m = m, folded lim_def, folded m1_def, folded m2_def] by blast
  with v show ?thesis by blast
qed

lemma format_loop_puts:
  assumes "4 * length fmt \<le> length args" "asc CHR ''n'' \<notin> set (conversions fmt)"
  shows "\<exists>as bs. format_loop buf lim fmt args mp = Some (as, puts buf lim bs mp)"
proof -
  obtain as mp' where f: "format_loop buf lim fmt args mp = Some (as, mp')"
    using format_loop_total [OF assms(1)] by blast
  then show ?thesis using format_loop_appends [OF f assms(2)] by (auto simp: appends_def)
qed

section \<open>Reading a printed number back\<close>

lemma small_digit_decimal: "d < 10 \<Longrightarrow> small_digits ! d = of_nat (48 + d)"
proof -
  assume "d < 10"
  then have "d \<in> set [0..<10]" by simp
  moreover have "\<forall>d \<in> set [0..<10]. small_digits ! d = of_nat (48 + d)" by code_simp
  ultimately show ?thesis by blast
qed

lemma decimal_char: "d < 10 \<Longrightarrow> isdigit (of_nat (48 + d)) \<and> unat (of_nat (48 + d) :: u8) = 48 + d"
proof -
  assume "d < 10"
  then have "d \<in> set [0..<10]" by simp
  moreover have "\<forall>d \<in> set [0..<10]. isdigit (of_nat (48 + d)) \<and> unat (of_nat (48 + d) :: u8) = 48 + d" by code_simp
  ultimately show ?thesis by blast
qed

lemma skip_atoi_digits:
  "(\<And>d. d \<in> set ds \<Longrightarrow> d < 10) \<Longrightarrow> skip_atoi (int i) (map (\<lambda>d. small_digits ! d) ds) = (int (foldl (\<lambda>v d. d + 10 * v) i ds), [])"
proof (induction ds arbitrary: i)
  case (Cons d ds)
  have d: "d < 10" using Cons.prems by simp
  have "skip_atoi (int (d + 10 * i)) (map (\<lambda>d. small_digits ! d) ds) = (int (foldl (\<lambda>v d. d + 10 * v) (d + 10 * i) ds), [])"
    by (rule Cons.IH) (use Cons.prems in simp)
  moreover have "int i * 10 + int (48 + d) - 48 = int (d + 10 * i)" by simp
  ultimately show ?case
    unfolding list.map small_digit_decimal [OF d] skip_atoi.simps(2) foldl_Cons using decimal_char [OF d] by (simp only: if_True)
qed simp

lemma skip_atoi_zero: "skip_atoi 0 [asc CHR ''0''] = (0, [])"
  by (simp add: isdigit_def)

lemma decimal_roundtrip:
  assumes "type AND LARGE = 0"
  shows "skip_atoi 0 (digit_string type 10 num) = (int (unat num), [])"
proof (cases "num = 0")
  case False
  have "skip_atoi (int 0) (map (\<lambda>d. small_digits ! d) (rev (digs 10 (unat num))))
     = (int (foldl (\<lambda>v d. d + 10 * v) 0 (rev (digs 10 (unat num)))), [])"
    by (rule skip_atoi_digits) (use digs_less in auto)
  also have "foldl (\<lambda>v d. d + 10 * v) 0 (rev (digs 10 (unat num))) = unat num"
    by (simp add: foldl_conv_foldr digs_value)
  finally show ?thesis using False assms by (simp add: digit_string_def Let_def rev_map)
qed (simp add: digit_string_def isdigit_def)

section \<open>The properties\<close>



text \<open>
  C33: \<open>number\<close> produces exactly the reference layout: blanks, sign, prefix, zeros up to the width
  and the precision, the digits, blanks. Its division loop ends within 64 digits for every value.
\<close>

theorem number_layout:
  assumes "2 \<le> base" and "base \<le> 36"
  shows "number buf lim num base sz precision type mp = Some (puts buf lim (number_bytes num base sz precision type) mp)
     \<and> length (digit_string type base num) \<le> 64"
proof -
  have "length (digs (nat base) (unat num)) \<le> 64"
    by (rule digs_length) (use assms u64_unat_less [of num] in simp_all)
  then show ?thesis using number_eq [OF assms] by (simp add: digit_string_def Let_def)
qed

theorem number_layout_witness:
  "number 0x1000 0x10ff 255 16 6 (- 1) SPECIAL (\<lambda>a. 7, 0) = Some (puts 0x1000 0x10ff (number_bytes 255 16 6 (- 1) SPECIAL) (\<lambda>a. 7, 0))
     \<and> number_bytes 255 16 6 (- 1) SPECIAL = map of_char ''  0xff''"
proof
  show "number_bytes 255 16 6 (- 1) SPECIAL = map of_char ''  0xff''"
  proof -
    have "digs 16 255 = [15, 15]" by (simp add: digs.simps [of 16 255] digs.simps [of 16 15] digs.simps [of 16 0])
    moreover have "replicate 2 (32 :: u8) = [32, 32]" by (simp add: numeral_2_eq_2)
    ultimately show ?thesis
      by (simp add: number_bytes_def number_sign_def digit_string_def number_prefix_def flag_defs small_digits_def Let_def)
  qed
qed (use number_layout [of 16] in simp)


lemma word_pred_less: "(w :: u32) \<noteq> 0 \<Longrightarrow> w - 1 < w"
  by (metis unat_gt_0 unat_minus_one word_less_nat_alt diff_less less_numeral_extra(1))

text \<open>
  \<open>vscnprintf\<close> returns less than the size of any nonempty buffer; for the size 0 it returns -1.
\<close>

theorem vscnprintf_bounds:
  assumes "vscnprintf buf sz fmt args m = Some (r, m')"
  shows "if sz = 0 then r = - 1 else r < sz"
  using assms by (auto simp: vscnprintf_def word_pred_less split: Option.bind_splits if_splits)

theorem vscnprintf_bounds_witness:
  "\<exists>r m'. vscnprintf 0x1000 0 [] [] (\<lambda>a. 7) = Some (r, m') \<and> r = - 1"
proof -
  have "\<exists>r m'. vscnprintf 0x1000 0 [] [] (\<lambda>a. 7) = Some (r, m')"
    by (simp add: vscnprintf_def vsnprintf_def Let_def)
  then show ?thesis using vscnprintf_bounds [of "0x1000" 0 "[]" "[]" "\<lambda>a. 7"] by fastforce
qed

end
