(* ===== verification/Console.thy ===== *)
theory Console
  imports Format Irq "HOL-Library.Signed_Division"
begin

text \<open>
  Output and input: the text terminal (\<open>kernel/arch/i386/tty.c\<close>, \<open>vga.h\<close>), the kernel log
  (\<open>kernel/kernel/printk.c\<close>), \<open>putchar\<close>, \<open>puts\<close> and \<open>printf\<close> of \<open>libc/stdio/\<close>, and the
  keyboard interrupt (\<open>kernel/arch/i386/kbddriver.c\<close>). An operation that does not return is \<^const>\<open>None\<close>.
\<close>

section \<open>Screen cells\<close>

definition VGA_COLOR_BLACK :: u8 where "VGA_COLOR_BLACK = 0"
definition VGA_COLOR_LIGHT_GREY :: u8 where "VGA_COLOR_LIGHT_GREY = 7"

definition vga_entry_color :: "u8 \<Rightarrow> u8 \<Rightarrow> u8" where
  "vga_entry_color fg bg = fg OR push_bit 4 bg"

definition vga_entry :: "u8 \<Rightarrow> u8 \<Rightarrow> u16" where
  "vga_entry uc color = ucast uc OR push_bit 8 (ucast color)"

definition VGA_WIDTH :: u32 where "VGA_WIDTH = 80"
definition VGA_HEIGHT :: u32 where "VGA_HEIGHT = 25"
definition RING_SIZE :: int where "RING_SIZE = 32000"

section \<open>State\<close>

text \<open>
  \<open>screen i\<close> is the cell at \<open>VGA_MEMORY[i]\<close> and \<open>ring i\<close> the cell at \<open>terminal_ringbuffer[i]\<close>,
  also for an index outside of the array. \<open>log_buf\<close> is the ring of \<open>printk\<close>.
\<close>

record console =
  screen :: "int \<Rightarrow> u16"
  ring :: "int \<Rightarrow> u16"
  pos_now :: int
  pos_base :: int
  term_row :: u32
  term_column :: u32
  term_color :: u8
  log_buf :: "u32 \<Rightarrow> u8"
  log_start :: u32
  log_end :: u32
  unknown_log_level :: bool
  cmem :: mem

section \<open>The terminal\<close>

text \<open>The copying loop; it writes through the pointer itself and not through an index.\<close>

partial_function (option) flush_loop :: "int \<Rightarrow> int \<Rightarrow> (int \<Rightarrow> u16) \<Rightarrow> (int \<Rightarrow> u16) option" where
  "flush_loop i j scr = (if i \<noteq> j then flush_loop ((i + 1) smod RING_SIZE) j (scr(0 := scr i)) else Some scr)"

definition flush_ringbuffer_to_buffer :: "console \<Rightarrow> console option" where
  "flush_ringbuffer_to_buffer s =
     map_option (\<lambda>scr. s\<lparr>screen := scr\<rparr>) (flush_loop (pos_base s) (pos_now s) (screen s))"

text \<open>The two loops over the rows and the columns of the screen.\<close>

fun clear_row :: "nat \<Rightarrow> nat list \<Rightarrow> console \<Rightarrow> console" where
  "clear_row y [] s = s"
| "clear_row y (x # xs) s = clear_row y xs
     (s\<lparr>screen := (screen s)(int (y * unat VGA_WIDTH + x) := vga_entry (asc CHR '' '') (term_color s))\<rparr>)"

fun clear_rows :: "nat list \<Rightarrow> console \<Rightarrow> console" where
  "clear_rows [] s = s"
| "clear_rows (y # ys) s = clear_rows ys (clear_row y [0..<unat VGA_WIDTH] s)"

definition terminal_initialize :: "console \<Rightarrow> console" where
  "terminal_initialize s =
     (let s1 = s\<lparr>term_row := 0, term_column := 0, pos_now := 0, pos_base := 0,
                 term_color := vga_entry_color VGA_COLOR_LIGHT_GREY VGA_COLOR_BLACK,
                 ring := (\<lambda>i. if 0 \<le> i \<and> i < RING_SIZE then 0 else ring s i)\<rparr>
      in clear_rows [0..<unat VGA_HEIGHT] s1)"

definition terminal_setcolor :: "u8 \<Rightarrow> console \<Rightarrow> console" where
  "terminal_setcolor color s = s\<lparr>term_color := color\<rparr>"

definition terminal_putentryat :: "u8 \<Rightarrow> u8 \<Rightarrow> u32 \<Rightarrow> u32 \<Rightarrow> console \<Rightarrow> console" where
  "terminal_putentryat c color x y s =
     s\<lparr>screen := (screen s)(int (unat (y * VGA_WIDTH + x)) := vga_entry c color)\<rparr>"

text \<open>\<open>for (i = terminal_pos_now; i < t; i++)\<close>.\<close>

function blank_ring :: "int \<Rightarrow> int \<Rightarrow> u16 \<Rightarrow> (int \<Rightarrow> u16) \<Rightarrow> int \<Rightarrow> u16" where
  "blank_ring i t blank rg = (if i < t then blank_ring (i + 1) t blank (rg(i := blank)) else rg)"
  by auto
termination by (relation "measure (\<lambda>(i, t, blank, rg). nat (t - i))") auto

declare blank_ring.simps [simp del]

text \<open>
  \<open>terminal_putchar\<close>. The positions are \<open>int\<close>; with \<open>VGA_WIDTH\<close> and \<open>VGA_HEIGHT\<close> they are
  computed and compared as unsigned numbers.
\<close>

definition terminal_putchar :: "u8 \<Rightarrow> console \<Rightarrow> console option" where
  "terminal_putchar c s =
     (let s1 = (if c = 10 then
                  let t = sint ((word_of_int (pos_now s) + VGA_WIDTH - 1) div VGA_WIDTH * VGA_WIDTH)
                  in s\<lparr>ring := blank_ring (pos_now s) t (vga_entry (asc CHR '' '') (term_color s)) (ring s), pos_now := t\<rparr>
                else s\<lparr>ring := (ring s)(pos_now s := vga_entry c (term_color s)), pos_now := (pos_now s + 1) smod RING_SIZE\<rparr>);
          first = word_of_int (pos_now s1) - VGA_WIDTH * VGA_HEIGHT;
          s2 = (if word_of_int (pos_base s1) < first then s1\<lparr>pos_base := sint first\<rparr> else s1)
      in flush_ringbuffer_to_buffer s2)"

fun terminal_write :: "u8 list \<Rightarrow> console \<Rightarrow> console option" where
  "terminal_write [] s = Some s"
| "terminal_write (c # cs) s = Option.bind (terminal_putchar c s) (terminal_write cs)"

text \<open>A string in memory up to its zero byte.\<close>

definition bytes_at :: "mem \<Rightarrow> u32 \<Rightarrow> nat \<Rightarrow> u8 list" where
  "bytes_at m p n = map (\<lambda>i. m (p + of_nat i)) [0..<n]"

definition terminal_writestring :: "u32 \<Rightarrow> console \<Rightarrow> console option" where
  "terminal_writestring data s = do {
     n \<leftarrow> strlen data (cmem s);
     terminal_write (bytes_at (cmem s) data (unat n)) s }"

section \<open>The kernel log\<close>

definition CONFIG_LOG_BUG_SHIFT :: nat where "CONFIG_LOG_BUG_SHIFT = 15"
definition LOG_BUF_LEN :: u32 where "LOG_BUF_LEN = push_bit CONFIG_LOG_BUG_SHIFT 1"
definition LOG_BUF_MASK :: u32 where "LOG_BUF_MASK = LOG_BUF_LEN - 1"
definition DEAULT_MESSAGE_LEVEL :: u8 where "DEAULT_MESSAGE_LEVEL = 4"

definition emit_log_char :: "u8 \<Rightarrow> console \<Rightarrow> console" where
  "emit_log_char c s =
     (let s1 = s\<lparr>log_buf := (log_buf s)(log_end s AND LOG_BUF_MASK := c)\<rparr>;
          s2 = s1\<lparr>log_end := log_end s1 + 1\<rparr>
      in if log_end s2 - log_start s2 > LOG_BUF_LEN then s2\<lparr>log_start := log_end s2 - LOG_BUF_LEN\<rparr> else s2)"

text \<open>One round of the loop of \<open>printk\<close> at the character \<open>p\<close>.\<close>

definition printk_step :: "u32 \<Rightarrow> console \<Rightarrow> console" where
  "printk_step p s =
     (let m = cmem s;
          s1 = (if unknown_log_level s then
                  let t = (if m p \<noteq> asc CHR ''<'' \<or> m (p + 1) <s asc CHR ''0'' \<or> asc CHR ''7'' <s m (p + 1) \<or> m (p + 2) \<noteq> asc CHR ''>''
                           then emit_log_char (asc CHR ''>'') (emit_log_char (DEAULT_MESSAGE_LEVEL + asc CHR ''0'') (emit_log_char (asc CHR ''<'') s))
                           else s)
                  in t\<lparr>unknown_log_level := False\<rparr>
                else s);
          s2 = emit_log_char (m p) s1
      in if m p = 10 then s2\<lparr>unknown_log_level := True\<rparr> else s2)"

partial_function (option) printk_loop :: "u32 \<Rightarrow> console \<Rightarrow> console option" where
  "printk_loop p s = (if cmem s p \<noteq> 0 then printk_loop (p + 1) (printk_step p s) else Some s)"

text \<open>\<open>printk\<close> with its static array at the address \<open>lb\<close>.\<close>

definition printk :: "u32 \<Rightarrow> u8 list \<Rightarrow> u32 list \<Rightarrow> console \<Rightarrow> (u32 \<times> console) option" where
  "printk lb fmt args s = do {
     (printed_len, m1) \<leftarrow> vsnprintf lb 1024 fmt args (cmem s);
     s1 \<leftarrow> printk_loop lb (s\<lparr>cmem := m1\<rparr>);
     Some (1, s1) }"

section \<open>Standard output\<close>

definition EOF :: u32 where "EOF = - 1"

definition putchar :: "u32 \<Rightarrow> console \<Rightarrow> (u32 \<times> console) option" where
  "putchar ic s = map_option (\<lambda>t. (ic, t)) (terminal_write [ucast ic] s)"

text \<open>\<open>print\<close>: \<open>n\<close> bytes from the index \<open>i\<close> on.\<close>

fun print_from :: "u32 \<Rightarrow> nat \<Rightarrow> nat \<Rightarrow> console \<Rightarrow> (bool \<times> console) option" where
  "print_from data i 0 s = Some (True, s)"
| "print_from data i (Suc n) s = do {
     (r, t) \<leftarrow> putchar (ucast (cmem s (data + of_nat i))) s;
     if r = EOF then Some (False, t) else print_from data (Suc i) n t }"

text \<open>\<open>printf\<close> with its local array of 2024 characters at the address \<open>tb\<close>.\<close>

definition printf :: "u32 \<Rightarrow> u32 \<Rightarrow> u8 list \<Rightarrow> u32 list \<Rightarrow> console \<Rightarrow> (u32 \<times> console) option" where
  "printf tb lb fmt args s = do {
     (written, m1) \<leftarrow> vsnprintf tb 2024 fmt args (cmem s);
     (ok, s1) \<leftarrow> print_from tb 0 (unat written) (s\<lparr>cmem := m1\<rparr>);
     s2 \<leftarrow> (if ok then Some s1 else map_option snd (printk lb (map of_char ''printf is wrong !!!'' @ [10]) [] s1));
     Some (1, s2) }"

definition puts_line :: "u32 \<Rightarrow> u32 \<Rightarrow> u32 \<Rightarrow> u32 list \<Rightarrow> console \<Rightarrow> (u32 \<times> console) option" where
  "puts_line tb lb str stack s = printf tb lb (map of_char ''%s'' @ [10]) (str # stack) s"

section \<open>The keyboard\<close>

definition KEY_Q :: u8 where "KEY_Q = 16"
definition KEY_P :: u8 where "KEY_P = 25"
definition KEY_A :: u8 where "KEY_A = 30"
definition KEY_L :: u8 where "KEY_L = 38"
definition KEY_Z :: u8 where "KEY_Z = 44"
definition KEY_M :: u8 where "KEY_M = 50"

definition QP_GAP :: u8 where "QP_GAP = KEY_Q"
definition AL_GAP :: u8 where "AL_GAP = KEY_A - KEY_P + QP_GAP - 1"
definition ZM_GAP :: u8 where "ZM_GAP = KEY_Z - KEY_L + AL_GAP - 1"

definition keymap :: "u8 list" where
  "keymap = map of_char ''qwertyuiopasdfghjklzxcvbnm''"

definition codeToChar :: "u8 \<Rightarrow> u8" where
  "codeToChar code =
     (if KEY_Q \<le> code \<and> code \<le> KEY_P then keymap ! unat (code - QP_GAP)
      else if KEY_A \<le> code \<and> code \<le> KEY_L then keymap ! unat (code - AL_GAP)
      else if KEY_Z \<le> code \<and> code \<le> KEY_M then keymap ! unat (code - ZM_GAP)
      else 0)"

text \<open>\<open>stack\<close>: the words that follow the arguments of the call on the stack.\<close>

definition kbd_interrupt ::
    "device \<Rightarrow> u32 \<Rightarrow> u32 \<Rightarrow> u32 list \<Rightarrow> iolog \<times> console \<Rightarrow> (u32 \<times> iolog \<times> console) option" where
  "kbd_interrupt dev tb lb stack ls = do {
     let (l, s) = ls;
     let (scancode, l1) = inb dev 0x60 l;
     let c = codeToChar scancode;
     s1 \<leftarrow> (if asc CHR ''a'' \<le> c \<and> c \<le> asc CHR ''z''
             then map_option snd (printf tb lb (map of_char ''%c'') (ucast c # stack) s) else Some s);
     Some (IRQ_HANDLED, l1, s1) }"

text \<open>\<open>irq1\<close> is action 1 of the machine.\<close>

definition IRQ1_ACTION :: nat where "IRQ1_ACTION = 1"

definition intr_init_hook :: "irqs \<Rightarrow> irqs option" where
  "intr_init_hook s = map_option snd (setup_irq 1 IRQ1_ACTION s)"

section \<open>Abort\<close>

text \<open>\<open>abort\<close> of \<open>libc/stdlib\<close>, as the library for the kernel is built, and its endless loop.\<close>

partial_function (option) spin_forever :: "console \<Rightarrow> console option" where
  "spin_forever s = spin_forever s"

definition abort :: "u32 \<Rightarrow> u32 \<Rightarrow> u32 list \<Rightarrow> console \<Rightarrow> console option" where
  "abort tb lb stack s = do {
     (r, s1) \<leftarrow> printf tb lb (map of_char ''kernel: panic: abort()'' @ [10]) stack s;
     spin_forever s1 }"

end
