(* ===== verification/ConsoleProps.thy ===== *)
theory ConsoleProps
  imports Console FormatProps
begin

text \<open>
  The terminal (what it does to the screen, and when it hangs), the kernel log as a bounded queue,
  \<open>printf\<close> on long outputs, and the keyboard.
\<close>

section \<open>The copying loop of the terminal\<close>

lemma smod_small: "- RING_SIZE < k \<Longrightarrow> k < RING_SIZE \<Longrightarrow> k smod RING_SIZE = k"
  by (cases "0 \<le> k") (simp_all add: signed_modulo_int_def RING_SIZE_def sgn_if)

lemma flush_loop_up:
  "- RING_SIZE < i \<Longrightarrow> i \<le> j \<Longrightarrow> j < RING_SIZE \<Longrightarrow> \<exists>scr'. flush_loop i j scr = Some scr' \<and> (\<forall>k. k \<noteq> 0 \<longrightarrow> scr' k = scr k)"
proof (induction "nat (j - i)" arbitrary: i scr)
  case 0
  then show ?case by (simp add: flush_loop.simps)
next
  case (Suc n)
  have ne: "i \<noteq> j" using Suc.hyps(2) by auto
  have "\<exists>scr'. flush_loop (i + 1) j (scr(0 := scr i)) = Some scr' \<and> (\<forall>k. k \<noteq> 0 \<longrightarrow> scr' k = (scr(0 := scr i)) k)"
    by (rule Suc.hyps(1)) (use Suc.hyps(2) Suc.prems ne in auto)
  moreover have "(i + 1) smod RING_SIZE = i + 1" using Suc.prems ne by (intro smod_small) auto
  ultimately show ?case using ne by (subst flush_loop.simps) auto
qed

text \<open>No index that the loop can reach is the size of the ring itself.\<close>

lemma flush_loop_never:
  "flush_loop i j scr = Some scr' \<Longrightarrow> - RING_SIZE < i \<Longrightarrow> i < RING_SIZE \<Longrightarrow> j = RING_SIZE \<Longrightarrow> False"
proof (induction i j scr scr' rule: flush_loop.raw_induct [rotated, consumes 1, case_names step])
  case (step f i j scr scr')
  have "i \<noteq> j" using step.prems by auto
  with step(2) have f: "f ((i + 1) smod RING_SIZE) j (scr(0 := scr i)) = Some scr'" by simp
  have "- RING_SIZE < (i + 1) smod RING_SIZE \<and> (i + 1) smod RING_SIZE < RING_SIZE"
  proof (cases "i + 1 = RING_SIZE")
    case True
    then show ?thesis by (simp add: signed_modulo_int_def RING_SIZE_def)
  next
    case False
    then show ?thesis using smod_small [of "i + 1"] step.prems by auto
  qed
  then show ?case using step(1) [OF f] step.prems by simp
qed

section \<open>The positions\<close>

definition tty_inv :: "console \<Rightarrow> bool" where
  "tty_inv s \<longleftrightarrow> 0 \<le> pos_now s \<and> pos_now s < RING_SIZE \<and> - 2000 \<le> pos_base s \<and> pos_base s \<le> pos_now s"

lemma of_int_u32_less:
  assumes "- 2147483648 \<le> a" "a < 2147483648" "- 2147483648 \<le> b" "b < 2147483648"
  shows "((word_of_int a :: u32) < word_of_int b) = (if 0 \<le> a then b < 0 \<or> a < b else b < 0 \<and> a < b)"
proof -
  have u: "uint (word_of_int x :: u32) = (if 0 \<le> x then x else x + 4294967296)"
    if "- 2147483648 \<le> x" "x < 2147483648" for x
  proof -
    have "x mod 4294967296 = (if 0 \<le> x then x else x + 4294967296)"
    proof (cases "0 \<le> x")
      case False
      then have "(x + 4294967296) mod 4294967296 = x + 4294967296" using that by (intro mod_pos_pos_trivial) simp_all
      then show ?thesis using False by simp
    qed (use that in simp)
    then show ?thesis using that by (simp add: unsigned_of_int take_bit_eq_mod)
  qed
  show ?thesis unfolding word_less_def u [OF assms(1,2)] u [OF assms(3,4)] using assms by auto
qed

lemma first_cell: "word_of_int n - VGA_WIDTH * VGA_HEIGHT = word_of_int (n - 2000)"
  by (simp add: VGA_WIDTH_def VGA_HEIGHT_def)

lemma sint_of_int_small: "- 2147483648 \<le> k \<Longrightarrow> k < 2147483648 \<Longrightarrow> sint (word_of_int k :: u32) = k"
  by (simp add: signed_take_bit_int_eq_self signed_of_int)

text \<open>The end of the line of a position.\<close>

lemma line_end:
  assumes "0 \<le> n" "n < RING_SIZE"
  shows "sint ((word_of_int n + VGA_WIDTH - 1) div VGA_WIDTH * VGA_WIDTH) = (n + 79) div 80 * 80"
proof -
  have n: "n < 32000" using assms by (simp add: RING_SIZE_def)
  have e: "word_of_int n + VGA_WIDTH - 1 = word_of_int (n + 79)" by (simp add: VGA_WIDTH_def)
  have "uint (word_of_int (n + 79) :: u32) = n + 79"
    using assms(1) n by (simp only: unsigned_of_int) (simp add: take_bit_int_eq_self)
  then have "(word_of_int (n + 79) :: u32) div VGA_WIDTH = word_of_int ((n + 79) div 80)"
    by (simp add: word_div_def VGA_WIDTH_def)
  then have q: "(word_of_int (n + 79) :: u32) div VGA_WIDTH * VGA_WIDTH = word_of_int ((n + 79) div 80 * 80)"
    by (simp add: VGA_WIDTH_def)
  have "0 \<le> (n + 79) div 80 * 80 \<and> (n + 79) div 80 * 80 \<le> n + 79"
    using assms(1) div_mult_mod_eq [of "n + 79" 80] by (simp add: pos_imp_zdiv_nonneg_iff)
  then show ?thesis unfolding e q by (intro sint_of_int_small) (use n in linarith)+
qed

text \<open>A character that keeps the position inside the ring keeps the positions in order.\<close>

definition next_pos :: "u8 \<Rightarrow> int \<Rightarrow> int" where
  "next_pos c n = (if c = 10 then (n + 79) div 80 * 80 else (n + 1) smod RING_SIZE)"

lemma next_pos_range:
  assumes "0 \<le> n" "n < RING_SIZE" "c \<noteq> 10 \<or> n \<le> 31920"
  shows "0 \<le> next_pos c n \<and> next_pos c n < RING_SIZE \<and> (next_pos c n = 0 \<or> n \<le> next_pos c n)"
proof (cases "c = 10")
  case True
  define q r where "q = (n + 79) div 80" and "r = (n + 79) mod 80"
  have "n + 79 = q * 80 + r" "0 \<le> r" "r < 80" by (simp_all add: q_def r_def)
  moreover have "q \<le> 399" using True assms(3) zdiv_mono1 [of "n + 79" "31999" 80] by (simp add: q_def)
  moreover have "0 \<le> q" using assms(1) by (simp add: q_def pos_imp_zdiv_nonneg_iff)
  ultimately have "0 \<le> q * 80 \<and> q * 80 < 32000 \<and> n \<le> q * 80" by linarith
  then show ?thesis using True by (simp add: next_pos_def RING_SIZE_def q_def)
next
  case False
  show ?thesis
  proof (cases "n + 1 = RING_SIZE")
    case True
    then show ?thesis using False by (simp add: next_pos_def signed_modulo_int_def RING_SIZE_def)
  next
    case ne: False
    then show ?thesis using False assms smod_small [of "n + 1"] by (simp add: next_pos_def)
  qed
qed

definition next_ring :: "u8 \<Rightarrow> console \<Rightarrow> int \<Rightarrow> u16" where
  "next_ring c s = (if c = 10 then blank_ring (pos_now s) (next_pos c (pos_now s)) (vga_entry (asc CHR '' '') (term_color s)) (ring s)
     else (ring s)(pos_now s := vga_entry c (term_color s)))"

definition next_base :: "int \<Rightarrow> int \<Rightarrow> int" where
  "next_base b n = (if (word_of_int b :: u32) < word_of_int (n - 2000) then sint (word_of_int (n - 2000) :: u32) else b)"

lemma terminal_putchar_eq:
  fixes c :: u8
  assumes "0 \<le> pos_now s" "pos_now s < RING_SIZE"
  defines "n \<equiv> next_pos c (pos_now s)"
  shows "terminal_putchar c s =
     map_option (\<lambda>scr. s\<lparr>ring := next_ring c s, pos_now := n, pos_base := next_base (pos_base s) n, screen := scr\<rparr>)
       (flush_loop (next_base (pos_base s) n) n (screen s))"
proof (cases "c = 10")
  case True
  then have "n = (pos_now s + 79) div 80 * 80" by (simp add: n_def next_pos_def)
  then show ?thesis
    using True unfolding terminal_putchar_def Let_def line_end [OF assms(1,2)] first_cell next_base_def
    by (simp add: next_ring_def next_pos_def flush_ringbuffer_to_buffer_def option.map_comp comp_def del: of_int_diff of_int_mult)
next
  case False
  then show ?thesis
    unfolding terminal_putchar_def Let_def first_cell next_base_def n_def
    by (simp add: next_ring_def next_pos_def flush_ringbuffer_to_buffer_def option.map_comp comp_def del: of_int_diff of_int_mult)
qed

lemma terminal_putchar_one_cell:
  assumes inv: "tty_inv s" and c: "c \<noteq> 10 \<or> pos_now s \<le> 31920"
  shows "\<exists>s'. terminal_putchar c s = Some s' \<and> tty_inv s' \<and> (\<forall>k. k \<noteq> 0 \<longrightarrow> screen s' k = screen s k)
     \<and> pos_now s' = next_pos c (pos_now s) \<and> cmem s' = cmem s
     \<and> (c \<noteq> 10 \<longrightarrow> ring s' = (ring s)(pos_now s := vga_entry c (term_color s)))"
proof -
  define n where "n = next_pos c (pos_now s)"
  define b where "b = next_base (pos_base s) n"
  have i: "0 \<le> pos_now s" "pos_now s < RING_SIZE" "- 2000 \<le> pos_base s" "pos_base s \<le> pos_now s"
    using inv by (simp_all add: tty_inv_def)
  have n: "0 \<le> n" "n < 32000" "n = 0 \<or> pos_now s \<le> n"
    using next_pos_range [OF i(1,2) c] by (simp_all add: n_def RING_SIZE_def)
  have p: "pos_now s < 32000" using i(2) by (simp add: RING_SIZE_def)
  have b: "- 2000 \<le> b" "b \<le> n"
    using i n p of_int_u32_less [of "pos_base s" "n - 2000"] sint_of_int_small [of "n - 2000"] unfolding b_def next_base_def
    by (auto split: if_splits)
  obtain scr where f: "flush_loop b n (screen s) = Some scr" "\<forall>k. k \<noteq> 0 \<longrightarrow> scr k = screen s k"
    using flush_loop_up [of b n "screen s"] b n by (auto simp: RING_SIZE_def)
  have "terminal_putchar c s = Some (s\<lparr>ring := next_ring c s, pos_now := n, pos_base := b, screen := scr\<rparr>)"
    using terminal_putchar_eq [OF i(1,2), of c] f(1) unfolding n_def [symmetric] b_def [symmetric] by simp
  then show ?thesis using f(2) b n by (simp add: tty_inv_def RING_SIZE_def n_def next_ring_def)
qed

lemma newline_hangs:
  assumes "tty_inv s" "31920 < pos_now s"
  shows "terminal_putchar 10 s = None"
proof -
  have i: "0 \<le> pos_now s" "pos_now s < 32000" "- 2000 \<le> pos_base s" "pos_base s \<le> pos_now s"
    using assms(1) by (simp_all add: tty_inv_def RING_SIZE_def)
  have "(pos_now s + 79) div 80 = 400"
    using zdiv_mono1 [of 32000 "pos_now s + 79" 80] zdiv_mono1 [of "pos_now s + 79" 32079 80] assms(2) i(2) by simp
  then have n: "next_pos 10 (pos_now s) = RING_SIZE" by (simp add: next_pos_def RING_SIZE_def)
  define b where "b = next_base (pos_base s) RING_SIZE"
  have b: "- RING_SIZE < b" "b < RING_SIZE"
    using i sint_of_int_small [of 30000] unfolding b_def next_base_def by (simp_all add: RING_SIZE_def)
  have "flush_loop b RING_SIZE (screen s) = None"
    using flush_loop_never [OF _ b refl] by (cases "flush_loop b RING_SIZE (screen s)") auto
  then show ?thesis
    using terminal_putchar_eq [of s 10] i unfolding n b_def [symmetric] by (auto simp: RING_SIZE_def)
qed

lemma terminal_write_one_cell:
  assumes "tty_inv s" "10 \<notin> set cs"
  shows "\<exists>s'. terminal_write cs s = Some s' \<and> tty_inv s' \<and> (\<forall>k. k \<noteq> 0 \<longrightarrow> screen s' k = screen s k) \<and> cmem s' = cmem s"
  using assms
proof (induction cs arbitrary: s)
  case (Cons c cs)
  obtain s1 where 1: "terminal_putchar c s = Some s1" "tty_inv s1" "\<forall>k. k \<noteq> 0 \<longrightarrow> screen s1 k = screen s k" "cmem s1 = cmem s"
    using terminal_putchar_one_cell [OF Cons.prems(1), of c] Cons.prems(2) by auto
  obtain s2 where "terminal_write cs s1 = Some s2" "tty_inv s2" "\<forall>k. k \<noteq> 0 \<longrightarrow> screen s2 k = screen s1 k" "cmem s2 = cmem s1"
    using Cons.IH [OF 1(2)] Cons.prems(2) by auto
  then show ?case using 1 by simp
qed simp

lemma terminal_putchar_cmem: "terminal_putchar c s = Some s' \<Longrightarrow> cmem s' = cmem s"
  by (auto simp: terminal_putchar_def flush_ringbuffer_to_buffer_def Let_def split: if_splits)

lemma terminal_write_cmem: "terminal_write cs s = Some s' \<Longrightarrow> cmem s' = cmem s"
  by (induction cs arbitrary: s) (auto split: Option.bind_splits dest: terminal_putchar_cmem)

section \<open>The log\<close>

definition log_contents :: "console \<Rightarrow> u8 list" where
  "log_contents s = map (\<lambda>k. log_buf s ((log_start s + of_nat k) AND LOG_BUF_MASK)) [0..<unat (log_end s - log_start s)]"

definition log_inv :: "console \<Rightarrow> bool" where
  "log_inv s \<longleftrightarrow> log_end s - log_start s \<le> LOG_BUF_LEN"

lemma LOG_BUF_LEN_eq: "LOG_BUF_LEN = 32768"
  by (simp add: LOG_BUF_LEN_def CONFIG_LOG_BUG_SHIFT_def)

lemma slot_mod: "unat (w AND LOG_BUF_MASK) = unat w mod 32768"
proof -
  have "LOG_BUF_MASK = mask 15" by (simp add: LOG_BUF_MASK_def LOG_BUF_LEN_eq mask_eq_exp_minus_1)
  then have "w AND LOG_BUF_MASK = take_bit 15 w" by (simp add: take_bit_eq_mask)
  moreover have "unat (take_bit 15 w) = unat w mod 32768"
    unfolding unsigned_take_bit_eq by (simp add: take_bit_eq_mod)
  ultimately show ?thesis by simp
qed

lemma slot_distinct:
  assumes "k < n" "n - k < 32768" "n \<le> 32768"
  shows "(x + of_nat k) AND LOG_BUF_MASK \<noteq> (x + of_nat n) AND LOG_BUF_MASK"
proof
  assume e: "(x + of_nat k) AND LOG_BUF_MASK = (x + of_nat n) AND LOG_BUF_MASK"
  have u: "unat (x + of_nat j) mod 32768 = (unat x + j) mod 32768" if "j \<le> 32768" for j
  proof -
    have "unat (x + of_nat j) = (unat x + j) mod 4294967296"
      using that by (simp add: unat_word_ariths word32_of_nat_unat_id)
    then show ?thesis using mod_mod_cancel [of 32768 4294967296 "unat x + j"] by simp
  qed
  have "(unat x + k) mod 32768 = (unat x + n) mod 32768"
    using arg_cong [OF e, of unat] u [of k] u [of n] assms by (simp add: slot_mod)
  moreover have "unat x + n = (unat x + k) + (n - k)" using assms(1) by simp
  ultimately have "(n - k) mod 32768 = 0" by (metis mod_eq_dvd_iff_nat add_diff_cancel_left' le_add1 dvd_imp_mod_0)
  then show False using assms by simp
qed

lemma emit_log_char_spec:
  assumes "log_inv s"
  shows "log_inv (emit_log_char c s) \<and> log_contents (emit_log_char c s)
     = drop (Suc (length (log_contents s)) - 32768) (log_contents s @ [c])"
proof -
  define n where "n = unat (log_end s - log_start s)"
  have n: "n \<le> 32768" using assms by (simp add: log_inv_def LOG_BUF_LEN_eq n_def word_le_nat_alt)
  have e: "log_end s = log_start s + of_nat n" by (simp add: n_def)
  have len: "length (log_contents s) = n" by (simp add: log_contents_def n_def)
  have n1: "unat (of_nat n + 1 :: u32) = Suc n" using word32_of_nat_unat_id [of "Suc n"] n by (simp add: add.commute)
  have d: "log_end s + 1 - log_start s = of_nat n + 1" by (simp add: e)
  show ?thesis
  proof (cases "n < 32768")
    case True
    then have "\<not> log_end s + 1 - log_start s > LOG_BUF_LEN"
      unfolding d LOG_BUF_LEN_eq word_less_nat_alt n1 by simp
    then have r: "emit_log_char c s = s\<lparr>log_buf := (log_buf s)(log_end s AND LOG_BUF_MASK := c), log_end := log_end s + 1\<rparr>"
      by (simp add: emit_log_char_def)
    have "log_contents (emit_log_char c s) = log_contents s @ [c]"
      unfolding r log_contents_def using d n1 True
      by (simp add: n_def [symmetric]) (use slot_distinct [of _ n "log_start s"] True word32_of_nat_unat_id [of n] in \<open>auto simp: e\<close>)
    moreover have "log_inv (emit_log_char c s)"
      unfolding r log_inv_def LOG_BUF_LEN_eq word_le_nat_alt using True by (simp add: d n1)
    ultimately show ?thesis using len True by simp
  next
    case False
    then have f: "n = 32768" using n by simp
    have "log_end s + 1 - log_start s > LOG_BUF_LEN"
      unfolding d LOG_BUF_LEN_eq word_less_nat_alt n1 f by simp
    then have r: "emit_log_char c s = s\<lparr>log_buf := (log_buf s)(log_end s AND LOG_BUF_MASK := c), log_end := log_end s + 1,
        log_start := log_end s + 1 - LOG_BUF_LEN\<rparr>"
      by (simp add: emit_log_char_def)
    have s1: "log_end s + 1 - LOG_BUF_LEN = log_start s + 1" by (simp add: e f LOG_BUF_LEN_eq)
    have "log_contents (emit_log_char c s) = map (\<lambda>k. ((log_buf s)(log_end s AND LOG_BUF_MASK := c))
        ((log_start s + of_nat (Suc k)) AND LOG_BUF_MASK)) [0..<32768]"
      unfolding r log_contents_def s1 by (simp add: e f add.assoc)
    also have "\<dots> = map (\<lambda>k. ((log_buf s)(log_end s AND LOG_BUF_MASK := c))
        ((log_start s + of_nat k) AND LOG_BUF_MASK)) [Suc 0..<Suc 32768]"
      by (simp only: map_Suc_upt [symmetric] map_map comp_def)
    also have "\<dots> = map (\<lambda>k. log_buf s ((log_start s + of_nat k) AND LOG_BUF_MASK)) [Suc 0..<32768] @ [c]"
    proof -
      have "(log_start s + of_nat k) AND LOG_BUF_MASK \<noteq> log_end s AND LOG_BUF_MASK" if "k \<in> set [Suc 0..<32768]" for k
        using slot_distinct [of k 32768 "log_start s"] that by (simp add: e f)
      moreover have "[Suc 0..<Suc 32768] = [Suc 0..<32768] @ [32768]" by (rule upt_Suc_append) simp
      ultimately show ?thesis by (simp add: e f cong: map_cong)
    qed
    also have "\<dots> = tl (log_contents s) @ [c]"
      by (simp only: log_contents_def n_def [symmetric] f map_tl [symmetric] tl_upt)
    finally have "log_contents (emit_log_char c s) = tl (log_contents s) @ [c]" .
    moreover have "log_inv (emit_log_char c s)" unfolding r log_inv_def by simp
    ultimately show ?thesis using len f by (simp add: drop_Suc)
  qed
qed

section \<open>Printing\<close>

lemma print_from_eq:
  "print_from data i n s = map_option (Pair True) (terminal_write (map (\<lambda>k. cmem s (data + of_nat k)) [i..<i + n]) s)"
proof (induction n arbitrary: i s)
  case (Suc n)
  have ne: "(ucast (c :: u8) :: u32) \<noteq> EOF" for c
  proof
    assume "(ucast c :: u32) = EOF"
    then have "bit (ucast c :: u32) 31" by (simp add: EOF_def bit_simps)
    then show False by (auto simp: bit_simps dest: bit_imp_le_length)
  qed
  have u: "[i..<i + Suc n] = i # [Suc i..<Suc i + n]" by (simp add: upt_conv_Cons)
  have c: "(ucast (ucast (c :: u8) :: u32) :: u8) = c" for c by (rule bit_eqI) (auto simp: bit_simps)
  show ?case
  proof (cases "terminal_putchar (cmem s (data + of_nat i)) s")
    case None
    then show ?thesis unfolding u by (simp add: putchar_def c)
  next
    case (Some t)
    then have "cmem t = cmem s" by (rule terminal_putchar_cmem)
    then show ?thesis unfolding u using Some Suc.IH [of "Suc i" t] by (simp add: putchar_def c ne)
  qed
qed simp

lemma unat_of_nat_len: "unat tb + n < 4294967296 \<Longrightarrow> unat (of_nat n :: u32) = n"
  by (rule word32_of_nat_unat_id) simp

text \<open>What \<open>printf\<close> sends to the terminal when the whole output is \<open>bs\<close>: the array has 2024 bytes.\<close>

definition printf_bytes :: "u32 \<Rightarrow> mem \<Rightarrow> u8 list \<Rightarrow> u8 list" where
  "printf_bytes tb m bs =
     (if length bs \<le> 2023 then bs
      else take 2023 bs @ [0] @ map (\<lambda>k. m (tb + of_nat k)) [2024..<length bs])"

lemma printf_eq:
  assumes "tb \<noteq> 0" "in_memory tb 2024"
    and f: "format_loop tb (tb + 2024 - 1) fmt args (cmem s, 0) = Some (as, puts tb (tb + 2024 - 1) bs (cmem s, 0))"
  shows "\<exists>m'. (vsnprintf tb 2024 fmt args (cmem s) = Some (of_nat (length bs), m'))
     \<and> (unat tb + length bs < 4294967296 \<longrightarrow>
          printf tb lb fmt args s = map_option (Pair 1) (terminal_write (printf_bytes tb (cmem s) bs) (s\<lparr>cmem := m'\<rparr>)))"
proof -
  obtain m' where v: "vsnprintf tb 2024 fmt args (cmem s) = Some (of_nat (length bs), m')"
    and c: "unat tb + length bs < 4294967296 \<Longrightarrow> (\<forall>a. 2024 \<le> a - tb \<longrightarrow> m' a = cmem s a)
       \<and> (\<forall>i < min (length bs) 2023. m' (tb + of_nat i) = bs ! i) \<and> m' (tb + of_nat (min (length bs) 2023)) = 0"
    using vsnprintf_puts [OF assms] by auto
  have "printf tb lb fmt args s = map_option (Pair 1) (terminal_write (printf_bytes tb (cmem s) bs) (s\<lparr>cmem := m'\<rparr>))"
    if l: "unat tb + length bs < 4294967296"
  proof -
    note cc = c [OF l]
    have "map (\<lambda>k. m' (tb + of_nat k)) [0..<length bs] = printf_bytes tb (cmem s) bs"
    proof (rule nth_equalityI)
      fix i
      assume i: "i < length (map (\<lambda>k. m' (tb + of_nat k)) [0..<length bs])"
      then have "unat (of_nat i :: u32) = i" using l by (intro word32_of_nat_unat_id) simp
      then have "m' (tb + of_nat i) = cmem s (tb + of_nat i)" if "2024 \<le> i"
        using cc that by (simp add: word_le_nat_alt)
      moreover have "m' (tb + of_nat i) = bs ! i" if "i < 2023" using cc that i by simp
      moreover have "m' (tb + of_nat 2023) = 0" if "2023 < length bs" using cc that by (simp add: min_def split: if_splits)
      ultimately show "map (\<lambda>k. m' (tb + of_nat k)) [0..<length bs] ! i = printf_bytes tb (cmem s) bs ! i"
        using i by (cases "i < 2023"; cases "i = 2023") (auto simp: printf_bytes_def nth_append nth_Cons' min_def)
    qed (auto simp: printf_bytes_def)
    then show ?thesis
      unfolding printf_def v using unat_of_nat_len [OF l]
      by (simp add: print_from_eq option.map_comp) (cases "terminal_write (printf_bytes tb (cmem s) bs) (s\<lparr>cmem := m'\<rparr>)"; simp)
  qed
  with v show ?thesis by blast
qed

section \<open>The keyboard\<close>

lemma codeToChar_cases:
  "codeToChar code = 0 \<or> (asc CHR ''a'' \<le> codeToChar code \<and> codeToChar code \<le> asc CHR ''z'')"
proof -
  have "unat code \<in> set [0..<256]" by simp
  moreover have "\<forall>n \<in> set [0..<256]. codeToChar (of_nat n) = 0 \<or> (asc CHR ''a'' \<le> codeToChar (of_nat n) \<and> codeToChar (of_nat n) \<le> asc CHR ''z'')"
    by code_simp
  ultimately have "codeToChar (of_nat (unat code)) = 0 \<or> (asc CHR ''a'' \<le> codeToChar (of_nat (unat code)) \<and> codeToChar (of_nat (unat code)) \<le> asc CHR ''z'')"
    by blast
  then show ?thesis by simp
qed

lemma codeToChar_letters:
  "distinct (filter (\<lambda>c. c \<noteq> 0) (map (\<lambda>n. codeToChar (of_nat n)) [0..<256]))
   \<and> length (filter (\<lambda>c. c \<noteq> 0) (map (\<lambda>n. codeToChar (of_nat n)) [0..<256])) = 26"
  by code_simp

text \<open>The format of a single character.\<close>

lemma format_char: "format_loop buf lim (map of_char ''%c'') (a # args) mp = Some (args, put buf lim (ucast a) mp)"
proof -
  have d: "parse_directive [99] = (\<lparr>d_flags = 0, d_width = Absent, d_prec = Absent, d_qual = None\<rparr>, [99])"
    by (simp add: parse_directive_def parse_field_def parse_precision_def parse_qualifier_def peek_def isdigit_def)
  have p: "pad_pre buf lim c (- 1) mp = (- 2, mp)" "pad_pre buf lim c (- 2) mp = (- 3, mp)" for c mp
    by (simp_all add: pad_pre.simps)
  have "convert buf lim 99 \<lparr>d_flags = 0, d_width = Absent, d_prec = Absent, d_qual = None\<rparr> (a # args) mp
      = Some (args, put buf lim (ucast a) mp)"
    by (simp add: convert_def get_width_def get_precision_def conv_char_def va_arg_def p)
  then show ?thesis by (simp add: d peek_def)
qed

lemma printf_char:
  assumes "tb \<noteq> 0" "in_memory tb 2024"
  shows "\<exists>m'. printf tb lb (map of_char ''%c'') (a # stack) s = map_option (Pair 1) (terminal_putchar (ucast a) (s\<lparr>cmem := m'\<rparr>))"
proof -
  have "format_loop tb (tb + 2024 - 1) (map of_char ''%c'') (a # stack) (cmem s, 0)
      = Some (stack, puts tb (tb + 2024 - 1) [ucast a] (cmem s, 0))"
    unfolding format_char by simp
  moreover have "unat tb + length [ucast a :: u8] < 4294967296" using assms(2) by (simp add: in_memory_def)
  ultimately obtain m' where "printf tb lb (map of_char ''%c'') (a # stack) s
      = map_option (Pair 1) (terminal_write (printf_bytes tb (cmem s) [ucast a]) (s\<lparr>cmem := m'\<rparr>))"
    using printf_eq [OF assms, of "map of_char ''%c''" "a # stack" s] by blast
  moreover have "terminal_write [ucast a] t = terminal_putchar (ucast a) t" for t
    by (cases "terminal_putchar (ucast a) t") simp_all
  ultimately show ?thesis by (intro exI [of _ m']) (simp add: printf_bytes_def del: terminal_write.simps)
qed

section \<open>The properties\<close>

definition demo_console :: console where
  "demo_console = \<lparr>screen = (\<lambda>i. 0), ring = (\<lambda>i. 0), pos_now = 31930, pos_base = - 1, term_row = 0, term_column = 0,
     term_color = 7, log_buf = (\<lambda>i. 0), log_start = 0, log_end = 0, unknown_log_level = True, cmem = (\<lambda>a. 0)\<rparr>"

lemma demo_console_inv: "tty_inv demo_console" "log_inv demo_console"
  by (simp_all add: tty_inv_def log_inv_def demo_console_def RING_SIZE_def)

text \<open>
  Whatever text without line ends is written, the terminal returns with its positions in the ring, and
  only the first cell of the screen changes: the copying loop stores every cell to the same place.
\<close>

theorem terminal_shows_one_cell:
  assumes "tty_inv s" and "10 \<notin> set cs"
  shows "\<exists>s'. terminal_write cs s = Some s' \<and> tty_inv s' \<and> (\<forall>k. k \<noteq> 0 \<longrightarrow> screen s' k = screen s k)"
  using terminal_write_one_cell [OF assms] by blast

theorem terminal_shows_one_cell_witness:
  "\<exists>s'. terminal_write (map of_char ''hello'') demo_console = Some s' \<and> screen s' 1 = 0"
proof -
  have "10 \<notin> set (map of_char ''hello'' :: u8 list)" by simp
  from terminal_shows_one_cell [OF demo_console_inv(1) this] show ?thesis by (auto simp: demo_console_def)
qed

text \<open>
  C36: a line end in the last line of the ring never returns: the position becomes the size of the ring,
  which the index of the copying loop never reaches.
\<close>

theorem newline_at_end_hangs:
  assumes "tty_inv s" and "31920 < pos_now s"
  shows "terminal_write (10 # cs) s = None"
  using newline_hangs [OF assms] by simp

theorem newline_at_end_hangs_witness:
  "terminal_write (10 # map of_char ''x'') demo_console = None"
  by (rule newline_at_end_hangs [OF demo_console_inv(1)]) (simp add: demo_console_def)

text \<open>
  C35: the kernel log is a queue of the last 32768 characters: emitting a character appends it and drops the oldest
  one when the queue is full, also when the counters wrap round.
\<close>

theorem log_is_bounded_queue:
  assumes "log_inv s"
  shows "log_inv (emit_log_char c s) \<and> log_contents (emit_log_char c s)
     = drop (Suc (length (log_contents s)) - 32768) (log_contents s @ [c])"
  by (rule emit_log_char_spec [OF assms])

theorem log_is_bounded_queue_witness:
  "log_contents (emit_log_char 65 demo_console) = [65]"
  using log_is_bounded_queue [OF demo_console_inv(2), of 65] by (simp add: log_contents_def demo_console_def)



text \<open>
  Every scan code is a letter or nothing, each of the 26 letters has exactly one code, and the keyboard
  interrupt prints the letter of the code it reads.
\<close>

theorem keyboard_prints_letter:
  assumes "tb \<noteq> 0" and "in_memory tb 2024" and "codeToChar (dev l 0x60) \<noteq> 0"
  shows "(\<exists>m'. kbd_interrupt dev tb lb stack (l, s) = map_option (\<lambda>t. (IRQ_HANDLED, l @ [In 0x60 (dev l 0x60)], t))
       (terminal_putchar (codeToChar (dev l 0x60)) (s\<lparr>cmem := m'\<rparr>)))
     \<and> distinct (filter (\<lambda>c. c \<noteq> 0) (map (\<lambda>n. codeToChar (of_nat n)) [0..<256]))
     \<and> length (filter (\<lambda>c. c \<noteq> 0) (map (\<lambda>n. codeToChar (of_nat n)) [0..<256])) = 26"
proof -
  define c where "c = codeToChar (dev l 0x60)"
  have letter: "asc CHR ''a'' \<le> c" "c \<le> asc CHR ''z''"
    using codeToChar_cases [of "dev l 0x60"] assms(3) by (simp_all add: c_def)
  have u: "(ucast (ucast c :: u32) :: u8) = c" by (rule bit_eqI) (auto simp: bit_simps)
  obtain m' where p: "printf tb lb (map of_char ''%c'') (ucast c # stack) s = map_option (Pair 1) (terminal_putchar c (s\<lparr>cmem := m'\<rparr>))"
    using printf_char [OF assms(1,2), of lb "ucast c" stack s] unfolding u by blast
  have "kbd_interrupt dev tb lb stack (l, s) = map_option (\<lambda>t. (IRQ_HANDLED, l @ [In 0x60 (dev l 0x60)], t)) (terminal_putchar c (s\<lparr>cmem := m'\<rparr>))"
    using letter p unfolding kbd_interrupt_def Let_def inb_def prod.case c_def [symmetric]
    by (cases "terminal_putchar c (s\<lparr>cmem := m'\<rparr>)") simp_all
  then show ?thesis unfolding c_def using codeToChar_letters by blast
qed

theorem keyboard_prints_letter_witness:
  "\<exists>m'. kbd_interrupt (\<lambda>l p. 16) 0x1000 0x3000 [] ([], demo_console)
     = map_option (\<lambda>t. (IRQ_HANDLED, [In 0x60 16], t)) (terminal_putchar (asc CHR ''q'') (demo_console\<lparr>cmem := m'\<rparr>))"
proof -
  have "codeToChar 16 = asc CHR ''q''" by code_simp
  then show ?thesis
    using keyboard_prints_letter [of "0x1000" "\<lambda>l p. 16" "[]" "0x3000" "[]" demo_console] by (simp add: in_memory_def)
qed

section \<open>Abort\<close>

lemma spin_forever_None: "spin_forever s = None"
proof -
  have "spin_forever s = Some t \<Longrightarrow> False" for t
    by (induction s t rule: spin_forever.raw_induct [rotated, consumes 1, case_names step])
  then show ?thesis by (cases "spin_forever s") auto
qed

lemma abort_never_returns: "abort tb lb stack s = None"
  by (simp add: abort_def spin_forever_None split: Option.bind_split)

end
