(* ===== verification/Slab.thy ===== *)
theory Slab
  imports Buddy Console
begin

text \<open>
  The slab allocator: \<open>kernel/kernel/slab.c\<close>, \<open>slub.c\<close>, \<open>slab.h\<close>, and \<open>jump_num\<close> of \<open>test.c\<close>.

  The structures are typed heaps from addresses: \<open>caches\<close>, \<open>cpus\<close>, and \<open>nr_partial\<close> for the field of
  that name of the node structures; the lists of nodes and caches are nodes of the list heap. \<open>wds\<close> is the
  memory of the free lists, one word at each address. The code follows null pointers: \<open>boot.S\<close> maps the first
  4 MiB at address 0, so this reads and writes \<open>wds\<close> at low addresses. An operation that never returns,
  or that goes on through a pointer that points to no structure of the right type, is \<^const>\<open>None\<close>.
\<close>

section \<open>Structures\<close>

record kmem_cache =
  kc_cpu_slab :: u32
  kc_flags :: u32
  kc_min_partial :: u32
  kc_pointer_size :: u32
  kc_size :: u32
  kc_object_size :: u32
  kc_offset :: u32
  kc_cpu_partial :: u32
  kc_allocflags :: u32
  kc_cache_order :: u32
  kc_ctor :: u32
  kc_inuse :: u32
  kc_node :: u32

text \<open>A \<open>struct page *\<close> of a processor's structure: \<^const>\<open>None\<close> is null.\<close>

record kmem_cache_cpu =
  freelist :: u32
  cpage :: "nat option"
  cpartial :: "nat option"

text \<open>The addresses of the static structures of \<open>slab.c\<close>.\<close>

record slab_statics =
  kmem_cache_cache :: u32
  kmem_cache_cpu_cache :: u32
  kmem_cache_node_cache :: u32
  t1 :: u32
  t2 :: u32
  t3 :: u32
  n1 :: u32
  n2 :: u32
  n3 :: u32

text \<open>
  \<open>kmalloc_small\<close> is the array, and what follows it in memory from index 12 on. \<open>zones0\<close> is
  \<open>node_zonelists[0]\<close>. \<open>nbytes\<close> holds the names of the caches, \<open>printed\<close> the messages given to
  \<open>printk\<close>.
\<close>

record slabs =
  smm :: mm
  wds :: "u32 \<Rightarrow> u32"
  caches :: "u32 \<Rightarrow> kmem_cache"
  cpus :: "u32 \<Rightarrow> kmem_cache_cpu"
  nr_partial :: "u32 \<Rightarrow> u32"
  kmalloc_small :: "nat \<Rightarrow> u32"
  zones0 :: "nat list"
  nbytes :: mem
  printed :: "string list"
  statics :: slab_statics

definition on_mm :: "(mm \<Rightarrow> mm) \<Rightarrow> slabs \<Rightarrow> slabs" where
  "on_mm f s = s\<lparr>smm := f (smm s)\<rparr>"

definition upd_cache :: "u32 \<Rightarrow> (kmem_cache \<Rightarrow> kmem_cache) \<Rightarrow> slabs \<Rightarrow> slabs" where
  "upd_cache k f s = s\<lparr>caches := (caches s)(k := f (caches s k))\<rparr>"

definition upd_cpu :: "u32 \<Rightarrow> (kmem_cache_cpu \<Rightarrow> kmem_cache_cpu) \<Rightarrow> slabs \<Rightarrow> slabs" where
  "upd_cpu c f s = s\<lparr>cpus := (cpus s)(c := f (cpus s c))\<rparr>"

definition set_word :: "u32 \<Rightarrow> u32 \<Rightarrow> slabs \<Rightarrow> slabs" where
  "set_word a v s = s\<lparr>wds := (wds s)(a := v)\<rparr>"

definition page_of :: "nat \<Rightarrow> slabs \<Rightarrow> page" where
  "page_of p s = mem_map (smm s) p"

definition cpu_of :: "u32 \<Rightarrow> slabs \<Rightarrow> u32" where
  "cpu_of k s = kc_cpu_slab (caches s k)"

text \<open>
  The counters of a page behind a pointer that may be null: in a descriptor, \<open>pobjects\<close> is at
  offset 44, and the word with \<open>inuse\<close>, \<open>objects\<close>, \<open>buddy\<close> and \<open>frozen\<close> (from the lowest bit up) at 24.
\<close>

definition get_pobjects :: "nat option \<Rightarrow> slabs \<Rightarrow> u32" where
  "get_pobjects q s = (case q of None \<Rightarrow> wds s 44 | Some p \<Rightarrow> pg_pobjects (page_of p s))"

definition set_pobjects :: "nat option \<Rightarrow> u32 \<Rightarrow> slabs \<Rightarrow> slabs" where
  "set_pobjects q v s =
     (case q of None \<Rightarrow> set_word 44 v s | Some p \<Rightarrow> on_mm (upd_page p (\<lambda>d. d\<lparr>pg_pobjects := v\<rparr>)) s)"

definition get_objects :: "nat option \<Rightarrow> slabs \<Rightarrow> u32" where
  "get_objects q s =
     (case q of None \<Rightarrow> take_bit 15 (drop_bit 15 (wds s 24)) | Some p \<Rightarrow> ucast (pg_objects (page_of p s)))"

definition clear_frozen :: "nat option \<Rightarrow> slabs \<Rightarrow> slabs" where
  "clear_frozen q s =
     (case q of None \<Rightarrow> set_word 24 (unset_bit 31 (wds s 24)) s
      | Some p \<Rightarrow> on_mm (upd_page p (\<lambda>d. d\<lparr>pg_frozen := 0\<rparr>)) s)"

text \<open>\<open>pg->next\<close>, the first word of the union with \<open>lru\<close>.\<close>

definition next_page :: "nat \<Rightarrow> slabs \<Rightarrow> nat option option" where
  "next_page p s =
     (case prev (lists (smm s)) (Lru p) of NullN \<Rightarrow> Some None | PageN q \<Rightarrow> Some (Some q) | _ \<Rightarrow> None)"

definition set_next :: "nat \<Rightarrow> lnode \<Rightarrow> slabs \<Rightarrow> slabs" where
  "set_next p v s = on_mm (on_lists (set_prev (Lru p) v)) s"

lemmas slab_upd_defs [code_defs] = on_mm_def upd_cache_def upd_cpu_def set_word_def page_of_def cpu_of_def
  get_pobjects_def set_pobjects_def get_objects_def clear_frozen_def next_page_def set_next_def

section \<open>Limits and layout\<close>

definition MAX_PARTIAL :: u32 where "MAX_PARTIAL = 10"
definition MIN_PARTIAL :: u32 where "MIN_PARTIAL = 5"

definition set_min_partial :: "u32 \<Rightarrow> kmem_cache \<Rightarrow> kmem_cache" where
  "set_min_partial min_obj k =
     k\<lparr>kc_min_partial := (if min_obj < MIN_PARTIAL then MIN_PARTIAL else if min_obj > MAX_PARTIAL then MAX_PARTIAL else min_obj)\<rparr>"

text \<open>The first comparison is with an unsigned constant, the others are signed.\<close>

definition set_cpu_partial :: "kmem_cache \<Rightarrow> kmem_cache" where
  "set_cpu_partial k =
     k\<lparr>kc_cpu_partial := (if PAGE_SIZE \<le> kc_size k then 2 else if 1024 \<le>s kc_size k then 6 else if 256 \<le>s kc_size k then 13 else 30)\<rparr>"

text \<open>\<open>tmp_size\<close> and \<open>obj_size\<close>; pointers have four bytes.\<close>

definition slab_layout :: "u32 \<Rightarrow> u32 \<Rightarrow> u32 \<times> u32" where
  "slab_layout sz align =
     (let pointer_size = 4;
          pointer_align_mask = pointer_size - 1;
          tmp_size = (sz + pointer_align_mask) AND NOT pointer_align_mask;
          align_mask = align - 1
      in (tmp_size, (tmp_size + pointer_size + align_mask) AND NOT align_mask))"

definition set_layout :: "u32 \<Rightarrow> u32 \<Rightarrow> kmem_cache \<Rightarrow> kmem_cache" where
  "set_layout sz align k =
     (let (tmp_size, obj_size) = slab_layout sz align
      in k\<lparr>kc_size := sz, kc_object_size := obj_size, kc_pointer_size := tmp_size, kc_offset := tmp_size\<rparr>)"

section \<open>Slabs\<close>

text \<open>The loop over the pages of a new slab.\<close>

fun mark_slab_pages :: "u32 \<Rightarrow> nat \<Rightarrow> nat list \<Rightarrow> slabs \<Rightarrow> slabs" where
  "mark_slab_pages cachep pg [] s = s"
| "mark_slab_pages cachep pg (i # is) s =
     (let s1 = on_mm (upd_page (pg + i) SetPageSlab) s;
          s2 = (if i \<noteq> 0 then on_mm (upd_page (pg + i) (\<lambda>d. d\<lparr>pg_buddy := 1\<rparr>)) (set_next (pg + i) (PageN pg) s1) else s1)
      in mark_slab_pages cachep pg is (on_mm (upd_page pg (\<lambda>d. d\<lparr>pg_cache_p := cachep\<rparr>)) s2))"

definition kmem_getpages :: "u32 \<Rightarrow> u32 \<Rightarrow> slabs \<Rightarrow> (nat \<times> slabs) option" where
  "kmem_getpages cachep flags s =
     (let cache_o = unat (kc_cache_order (caches s cachep));
          (pg, m) = alloc_pages 0 cache_o (zones0 s) (smm s)
      in case pg of
           PPage p \<Rightarrow> Some (p, on_mm (upd_page p (\<lambda>d. d\<lparr>pg_buddy := 0\<rparr>)) (mark_slab_pages cachep p [0..<2 ^ cache_o] (s\<lparr>smm := m\<rparr>)))
         | _ \<Rightarrow> None)"

fun clear_slab_pages :: "nat \<Rightarrow> nat list \<Rightarrow> slabs \<Rightarrow> slabs" where
  "clear_slab_pages pg [] s = s"
| "clear_slab_pages pg (i # is) s = clear_slab_pages pg is (on_mm (upd_page (pg + i) ClearPageSlab) s)"

definition kmem_freepages :: "u32 \<Rightarrow> nat \<Rightarrow> slabs \<Rightarrow> slabs option" where
  "kmem_freepages cachep pg s =
     (let cache_o = unat (kc_cache_order (caches s cachep));
          s1 = clear_slab_pages pg [0..<2 ^ cache_o] s
      in map_option (\<lambda>m. s1\<lparr>smm := m\<rparr>) (free_pages pg cache_o (smm s1)))"

text \<open>The loop that links the free objects: the last link, their number less one, and memory.\<close>

partial_function (option) free_list_loop ::
    "u32 \<Rightarrow> u32 \<Rightarrow> u32 \<Rightarrow> u32 \<Rightarrow> (u32 \<Rightarrow> u32) \<Rightarrow> (u32 \<times> u32 \<times> (u32 \<Rightarrow> u32)) option" where
  "free_list_loop osz slab_limit p obj_num w =
     (if p + osz < slab_limit then free_list_loop osz slab_limit (p + osz) (obj_num + 1) (w(p := p + osz))
      else Some (p, obj_num, w))"

definition new_slab :: "u32 \<Rightarrow> u32 \<Rightarrow> slabs \<Rightarrow> (nat \<times> slabs) option" where
  "new_slab cachep flags s = do {
     (page, s1) \<leftarrow> kmem_getpages cachep (kc_cache_order (caches s cachep)) s;
     let k = caches s1 cachep;
     let pg = page_address page;
     let slab_limit = pg + push_bit PAGE_SHIFT (push_bit (unat (kc_cache_order k)) 1);
     (p, n, w) \<leftarrow> free_list_loop (kc_object_size k) slab_limit (pg + kc_offset k) 0 (wds s1);
     let obj_num = n + 1;
     let s2 = s1\<lparr>wds := w(p := 0)\<rparr>;
     let s3 = on_mm (upd_page page (\<lambda>d. d\<lparr>pg_objects := ucast obj_num, pg_inuse := ucast obj_num, pg_frozen := 1\<rparr>)) s2;
     Some (page, upd_cpu (kc_cpu_slab k) (\<lambda>c. c\<lparr>freelist := pg + kc_offset k\<rparr>) s3) }"

section \<open>Allocation\<close>

text \<open>
  The branch for a current slab: the first object of the free list is taken. When the word at the new head
  is zero, the slab is given up; \<open>c->page\<close> is null by the time its counters are written.
\<close>

definition take_object :: "u32 \<Rightarrow> slabs \<Rightarrow> u32 \<times> slabs" where
  "take_object cachep s =
     (let k = caches s cachep;
          c = kc_cpu_slab k;
          free_list_head = freelist (cpus s c);
          s1 = upd_cpu c (\<lambda>x. x\<lparr>freelist := wds s free_list_head\<rparr>) s
      in (free_list_head - kc_offset k,
          if wds s1 (freelist (cpus s1 c)) = 0
          then let s2 = upd_cpu c (\<lambda>x. x\<lparr>cpage := None, freelist := 0\<rparr>) s1
               in clear_frozen (cpage (cpus s2 c)) (set_pobjects (cpage (cpus s2 c)) 0 s2)
          else s1))"

text \<open>
  The label \<open>seeknode\<close>. A slab from the list of the node is found through \<open>list_entry\<close> with the field
  \<open>free_list\<close> where the nodes are \<open>lru\<close> fields, so the pointer is four bytes off every descriptor.
\<close>

definition seeknode :: "u32 \<Rightarrow> u32 \<Rightarrow> slabs \<Rightarrow> slabs option" where
  "seeknode cachep flags s =
     (if list_empty (NodePartial (kc_node (caches s cachep))) (lists (smm s)) then do {
        (pg, s1) \<leftarrow> new_slab cachep flags s;
        Some (upd_cpu (cpu_of cachep s1) (\<lambda>c. c\<lparr>cpage := Some pg\<rparr>) s1) }
      else None)"

text \<open>\<open>goto restart\<close> is taken with \<open>c->page\<close> set.\<close>

definition kmem_cache_alloc :: "u32 \<Rightarrow> u32 \<Rightarrow> slabs \<Rightarrow> (u32 \<times> slabs) option" where
  "kmem_cache_alloc cachep flags s =
     (let c = cpu_of cachep s in
      if cpage (cpus s c) \<noteq> None then Some (take_object cachep s)
      else case cpartial (cpus s c) of
             Some q \<Rightarrow> do {
               nq \<leftarrow> next_page q s;
               Some (take_object cachep (upd_cpu c (\<lambda>x. x\<lparr>cpage := Some q, freelist := pg_free_list (page_of q s), cpartial := nq\<rparr>) s)) }
           | None \<Rightarrow> map_option (take_object cachep) (seeknode cachep flags s))"

section \<open>Creating caches\<close>

definition init_cpu_slub :: "u32 \<Rightarrow> u32 \<Rightarrow> slabs \<Rightarrow> slabs option" where
  "init_cpu_slub kmem flags s = do {
     (c, s1) \<leftarrow> kmem_cache_alloc (kmem_cache_cpu_cache (statics s)) flags s;
     Some (upd_cpu c (\<lambda>x. x\<lparr>freelist := 0, cpage := None, cpartial := None\<rparr>) (upd_cache kmem (\<lambda>k. k\<lparr>kc_cpu_slab := c\<rparr>) s1)) }"

text \<open>There is one node.\<close>

definition init_pernode_slab :: "u32 \<Rightarrow> u32 \<Rightarrow> slabs \<Rightarrow> slabs option" where
  "init_pernode_slab kmem flags s = do {
     (n, s1) \<leftarrow> kmem_cache_alloc (kmem_cache_node_cache (statics s)) flags s;
     let s2 = upd_cache kmem (\<lambda>k. k\<lparr>kc_node := n\<rparr>) s1;
     let s3 = on_mm (on_lists (init_list (NodePartial n))) s2;
     Some (s3\<lparr>nr_partial := (nr_partial s3)(n := 0)\<rparr>) }"

text \<open>The field \<open>name\<close> of 32 bytes is at offset 72 of the structure.\<close>

definition set_name :: "u32 \<Rightarrow> u8 list \<Rightarrow> slabs \<Rightarrow> slabs option" where
  "set_name cachep fmt s = map_option (\<lambda>(r, m). s\<lparr>nbytes := m\<rparr>) (sprintf (cachep + 72) 32 fmt [] (nbytes s))"

text \<open>\<open>name\<close> is the string, \<^const>\<open>None\<close> for a null pointer; null is also the result then.\<close>

definition kmem_cache_create ::
    "u8 list option \<Rightarrow> u32 \<Rightarrow> u32 \<Rightarrow> u32 \<Rightarrow> u32 \<Rightarrow> u32 \<Rightarrow> slabs \<Rightarrow> (u32 \<times> slabs) option" where
  "kmem_cache_create name sz align flags cache_order ctor s =
     (case name of
        None \<Rightarrow> Some (0, s)
      | Some nm \<Rightarrow> do {
          (desc, s1) \<leftarrow> kmem_cache_alloc (kmem_cache_cache (statics s)) flags s;
          s2 \<leftarrow> set_name desc nm (upd_cache desc (\<lambda>k. k\<lparr>kc_allocflags := flags, kc_ctor := ctor\<rparr>) s1);
          let s3 = upd_cache desc (\<lambda>k. set_min_partial (word_of_int (ilog2 False sz sdiv 2))
                     (set_cpu_partial (set_layout sz align k\<lparr>kc_cache_order := cache_order\<rparr>))) s2;
          s4 \<leftarrow> init_cpu_slub desc flags s3;
          s5 \<leftarrow> init_pernode_slab desc flags s4;
          Some (desc, on_mm (on_lists (list_add CacheListHead (CacheHead desc))) s5) })"

definition init_static_cache :: "u32 \<Rightarrow> u32 \<Rightarrow> u32 \<Rightarrow> string \<Rightarrow> u32 \<Rightarrow> slabs \<Rightarrow> slabs option" where
  "init_static_cache kc c n nm sz s = do {
     s1 \<leftarrow> set_name kc (map of_char nm) (upd_cache kc (\<lambda>k. k\<lparr>kc_cache_order := 1, kc_inuse := 0\<rparr>) s);
     let s2 = upd_cache kc (\<lambda>k. (set_min_partial (word_of_int (ilog2 True sz sdiv 2))
                (set_cpu_partial (set_layout sz 128 k)))\<lparr>kc_cpu_slab := c, kc_node := n\<rparr>) s1;
     Some (on_mm (on_lists (init_list (NodePartial n))) s2) }"

definition SIZEOF_KMEM_CACHE :: u32 where "SIZEOF_KMEM_CACHE = 116"
definition SIZEOF_KMEM_CACHE_CPU :: u32 where "SIZEOF_KMEM_CACHE_CPU = 12"
definition SIZEOF_KMEM_CACHE_NODE :: u32 where "SIZEOF_KMEM_CACHE_NODE = 12"

definition init_kmem_cache :: "slabs \<Rightarrow> slabs option" where
  "init_kmem_cache s =
     (let y = statics s;
          s1 = on_mm (on_lists (\<lambda>h. list_add CacheListHead (CacheHead (kmem_cache_cpu_cache y))
                 (list_add CacheListHead (CacheHead (kmem_cache_node_cache y))
                   (list_add CacheListHead (CacheHead (kmem_cache_cache y)) (init_list CacheListHead h))))) s
      in do {
        s2 \<leftarrow> init_static_cache (kmem_cache_cache y) (t1 y) (n1 y) ''kernel used kmem cache(original cache)'' SIZEOF_KMEM_CACHE s1;
        s3 \<leftarrow> init_static_cache (kmem_cache_cpu_cache y) (t2 y) (n2 y) ''kernel used kmem cpu cache(original cache)'' SIZEOF_KMEM_CACHE_CPU s2;
        init_static_cache (kmem_cache_node_cache y) (t3 y) (n3 y) ''kernel used kmem node cache(original cache)'' SIZEOF_KMEM_CACHE_NODE s3 })"

section \<open>Freeing\<close>

text \<open>The page of an object; a page that is not the first of its slab points to the first.\<close>

definition slab_head :: "u32 \<Rightarrow> slabs \<Rightarrow> nat option" where
  "slab_head objp s =
     (let pg = kaddr_to_page objp
      in if pg_buddy (page_of pg s) = 1 then Option.bind (next_page pg s) id else Some pg)"

partial_function (option) find_place :: "u32 \<Rightarrow> (u32 \<Rightarrow> u32) \<Rightarrow> u32 \<Rightarrow> u32 option" where
  "find_place objp w head =
     (if w head \<noteq> 0 then if w head > objp then Some head else find_place objp w (w head) else Some head)"

text \<open>The object's link goes behind \<open>head\<close>.\<close>

definition link_after :: "u32 \<Rightarrow> u32 \<Rightarrow> (u32 \<Rightarrow> u32) \<Rightarrow> u32 \<Rightarrow> u32" where
  "link_after head lnk w =
     (let nx = w head; w1 = w(head := lnk); head1 = w1 head in if head1 \<noteq> 0 then w1(head1 := nx) else w1)"

definition insert_object :: "u32 \<Rightarrow> u32 \<Rightarrow> u32 \<Rightarrow> slabs \<Rightarrow> slabs option" where
  "insert_object head objp offset s =
     map_option (\<lambda>h. s\<lparr>wds := link_after h (objp + offset) (wds s)\<rparr>) (find_place objp (wds s) head)"

text \<open>The branch for the current slab. It looks at the list from its second object on.\<close>

definition free_to_current :: "u32 \<Rightarrow> u32 \<Rightarrow> slabs \<Rightarrow> slabs option" where
  "free_to_current cachep objp s =
     (let head = wds s (freelist (cpus s (cpu_of cachep s)))
      in if head = 0 then Some (s\<lparr>printed := printed s @ [''full page still in current front???'' @ [CHR 0x0A]]\<rparr>)
         else insert_object head objp (kc_offset (caches s cachep)) s)"

text \<open>The branch for a slab without free objects: it goes to the processor's list, or to the node's.\<close>

definition revive_slab :: "u32 \<Rightarrow> nat \<Rightarrow> u32 \<Rightarrow> slabs \<Rightarrow> slabs" where
  "revive_slab cachep pg objp s =
     (let k = caches s cachep; c = kc_cpu_slab k;
          s1 = set_word (objp + kc_offset k) 0 (on_mm (upd_page pg (\<lambda>d. d\<lparr>pg_free_list := objp + kc_offset k\<rparr>)) s);
          s2 = on_mm (upd_page pg (\<lambda>d. d\<lparr>pg_inuse := pg_inuse d - 1\<rparr>)) s1
      in case cpartial (cpus s2 c) of
           Some tmp_p \<Rightarrow>
             let total = pg_pobjects (page_of pg s2) + pg_pobjects (page_of tmp_p s2) + 1;
                 s3 = on_mm (upd_page pg (\<lambda>d. d\<lparr>pg_pobjects := total\<rparr>)) s2
             in if total < kc_cpu_partial k
                then set_next pg (PageN tmp_p) (upd_cpu c (\<lambda>x. x\<lparr>cpartial := Some pg\<rparr>) s3)
                else let s4 = on_mm (on_lists (list_add (NodePartial (kc_node k)) (Lru pg))) s3
                     in s4\<lparr>nr_partial := (nr_partial s4)(kc_node k := nr_partial s4 (kc_node k) + 1)\<rparr>
         | None \<Rightarrow>
             set_next pg NullN (on_mm (upd_page pg (\<lambda>d. d\<lparr>pg_pobjects := pg_pobjects d + 1\<rparr>))
               (upd_cpu c (\<lambda>x. x\<lparr>cpartial := Some pg\<rparr>) s2)))"

text \<open>The walk along the processor's list to the page before \<open>pg\<close>.\<close>

partial_function (option) find_pred :: "nat \<Rightarrow> slabs \<Rightarrow> nat \<Rightarrow> nat option" where
  "find_pred pg s q =
     (case next_page q s of
        Some (Some r) \<Rightarrow> if r = pg then Some q else find_pred pg s r
      | _ \<Rightarrow> None)"

definition unlink_partial :: "u32 \<Rightarrow> nat \<Rightarrow> slabs \<Rightarrow> slabs option" where
  "unlink_partial c pg s =
     (case cpartial (cpus s c) of
        None \<Rightarrow> None
      | Some q \<Rightarrow>
          if q = pg then map_option (\<lambda>nq. upd_cpu c (\<lambda>x. x\<lparr>cpartial := nq\<rparr>) s) (next_page pg s)
          else map_option (\<lambda>r. set_next r (prev (lists (smm s)) (Lru pg)) s) (find_pred pg s q))"

text \<open>An empty slab goes back to the page allocator when the node has more than \<open>min_partial\<close> slabs.\<close>

definition release_slab :: "u32 \<Rightarrow> nat \<Rightarrow> slabs \<Rightarrow> slabs option" where
  "release_slab cachep pg s =
     (let k = caches s cachep; c = kc_cpu_slab k in do {
        s1 \<leftarrow> (if pg_frozen (page_of pg s) = 1 then
                 let all_nums_slab = get_pobjects (cpage (cpus s c)) s + 1 - get_objects (cpage (cpus s c)) s
                 in map_option (set_pobjects (cpage (cpus s c)) all_nums_slab) (unlink_partial c pg s)
               else
                 let s0 = on_mm (on_lists (list_del (Lru pg))) s
                 in Some (s0\<lparr>nr_partial := (nr_partial s0)(kc_node k := nr_partial s0 (kc_node k) - 1)\<rparr>));
        kmem_freepages cachep pg s1 })"

definition kmem_cache_free :: "u32 \<Rightarrow> u32 \<Rightarrow> slabs \<Rightarrow> slabs option" where
  "kmem_cache_free cachep objp s = do {
     pg \<leftarrow> slab_head objp s;
     let k = caches s cachep;
     if cpage (cpus s (kc_cpu_slab k)) = Some pg then free_to_current cachep objp s
     else let head = pg_free_list (page_of pg s) in
       if head = 0 then Some (revive_slab cachep pg objp s)
       else do {
         s1 \<leftarrow> insert_object head objp (kc_offset k) s;
         let s2 = on_mm (upd_page pg (\<lambda>d. d\<lparr>pg_inuse := pg_inuse d - 1\<rparr>)) s1;
         if pg_inuse (page_of pg s2) = 0 \<and> kc_min_partial k < nr_partial s2 (kc_node k) then release_slab cachep pg s2
         else if pg_frozen (page_of pg s2) = 1 then
           let q = cpartial (cpus s2 (kc_cpu_slab k)) in Some (set_pobjects q (get_pobjects q s2 + 1) s2)
         else Some s2 } }"

section \<open>Memory by size\<close>

function order_loop :: "int \<Rightarrow> nat \<Rightarrow> nat" where
  "order_loop sz res = (if sz \<noteq> 0 then order_loop (sz sdiv 2) (Suc res) else res)"
  by auto
termination
  by (relation "measure (\<lambda>(sz, res). nat \<bar>sz\<bar>)") (auto simp: signed_divide_int_def abs_mult)

declare order_loop.simps [simp del]

definition get_order :: "u32 \<Rightarrow> nat" where
  "get_order sz = (if sz = 1 then 0 else order_loop (sint sz) 0)"

text \<open>\<open>nb\<close> is the address of the local array of 300 characters.\<close>

fun kmalloc_caches :: "u32 \<Rightarrow> nat list \<Rightarrow> slabs \<Rightarrow> slabs option" where
  "kmalloc_caches nb [] s = Some s"
| "kmalloc_caches nb (i # is) s = do {
     (r, m) \<leftarrow> sprintf nb 300 (map of_char ''kmalloc %dth'') [of_nat i] (nbytes s);
     len \<leftarrow> strlen nb m;
     (k, s1) \<leftarrow> kmem_cache_create (Some (bytes_at m nb (unat len))) (push_bit i 1) (push_bit i 1) 0 0 0 (s\<lparr>nbytes := m\<rparr>);
     kmalloc_caches nb is (s1\<lparr>kmalloc_small := (kmalloc_small s1)(i := k)\<rparr>) }"

definition kmalloc_init :: "u32 \<Rightarrow> slabs \<Rightarrow> slabs option" where
  "kmalloc_init nb s = kmalloc_caches nb [0..<PAGE_SHIFT] s"

fun mark_kmem_pages :: "nat \<Rightarrow> u32 \<Rightarrow> nat list \<Rightarrow> slabs \<Rightarrow> slabs" where
  "mark_kmem_pages pg n [] s = s"
| "mark_kmem_pages pg n (i # is) s = mark_kmem_pages pg n is
     (on_mm (upd_page (pg + i) (\<lambda>d. (SetPageKmem d)\<lparr>pg_cache_p := (if i = 0 then n else - 1)\<rparr>)) s)"

text \<open>\<open>size\<close> is an \<open>int\<close> compared with unsigned constants. Requests above four pages get null.\<close>

definition kmalloc :: "u32 \<Rightarrow> slabs \<Rightarrow> (u32 \<times> slabs) option" where
  "kmalloc sz s =
     (if sz < PAGE_SIZE then kmem_cache_alloc (kmalloc_small s (get_order sz)) 0 s
      else if sz > 4 * PAGE_SIZE then Some (0, s)
      else
        let pages_nums = (sz + PAGE_SIZE - 1) div PAGE_SIZE;
            (pg, m) = alloc_pages 0 (get_order pages_nums) (zones0 s) (smm s)
        in case pg of
             PPage p \<Rightarrow> Some (page_address p, mark_kmem_pages p pages_nums [0..<unat pages_nums] (s\<lparr>smm := m\<rparr>))
           | _ \<Rightarrow> None)"

fun free_each :: "nat list \<Rightarrow> mm \<Rightarrow> mm option" where
  "free_each [] m = Some m"
| "free_each (p # ps) m = Option.bind (free_page p m) (free_each ps)"

definition kfree :: "u32 \<Rightarrow> slabs \<Rightarrow> slabs option" where
  "kfree obj s =
     (let pg = kaddr_to_page obj; d = page_of pg s in
      if PageKmem d then
        let kmem_size = pg_cache_p d in
        if kmem_size = - 1 then Some s
        else map_option (\<lambda>m. s\<lparr>smm := m\<rparr>) (free_each [pg..<pg + nat (sint kmem_size)] (smm s))
      else if PageSlab d then kmem_cache_free (pg_cache_p d) obj s
      else Some s)"

text \<open>The length of a free list, of \<open>test.c\<close>.\<close>

partial_function (option) jump_from :: "(u32 \<Rightarrow> u32) \<Rightarrow> u32 \<Rightarrow> u32 \<Rightarrow> u32 option" where
  "jump_from w p ret = (if w p \<noteq> 0 then jump_from w (w p) (ret + 1) else Some ret)"

definition jump_num :: "(u32 \<Rightarrow> u32) \<Rightarrow> u32 \<Rightarrow> u32 option" where
  "jump_num w p = map_option (\<lambda>n. n + 1) (jump_from w p 0)"

end
