(* ===== verification/PageSource.thy ===== *)
theory PageSource
  imports BuddyProps
begin

text \<open>
  The page allocator as its clients see it: a source that grants each page once. The interface is a locale,
  interpreted on \<open>__alloc_pages\<close> of order 0. A client writes to the descriptors of its pages and to lists of its own
  between two requests; the interface says which of its changes the source allows.
\<close>

section \<open>The interface\<close>

text \<open>Requests that are granted, each followed by a change of the client.\<close>

inductive page_run :: "('m \<Rightarrow> (nat \<times> 'm) option) \<Rightarrow> ('m \<Rightarrow> 'm \<Rightarrow> bool) \<Rightarrow> 'm \<Rightarrow> nat list \<Rightarrow> 'm \<Rightarrow> bool"
  for grant touch where
  run_done: "page_run grant touch m [] m"
| run_page: "grant m = Some (p, m1) \<Longrightarrow> touch m1 m2 \<Longrightarrow> page_run grant touch m2 ps m3 \<Longrightarrow> page_run grant touch m (p # ps) m3"

inductive_cases page_run_ConsE: "page_run grant touch m (p # ps) m3"

text \<open>\<open>stock m F\<close>: the source in state \<open>m\<close> can grant the pages of \<open>F\<close>.\<close>

locale page_source =
  fixes grant :: "'m \<Rightarrow> (nat \<times> 'm) option"
    and touch :: "'m \<Rightarrow> 'm \<Rightarrow> bool"
    and stock :: "'m \<Rightarrow> nat set \<Rightarrow> bool"
  assumes grants: "stock m F \<Longrightarrow> F \<noteq> {} \<Longrightarrow> \<exists>p m'. grant m = Some (p, m') \<and> p \<in> F \<and> stock m' (F - {p})"
    and refuses: "stock m {} \<Longrightarrow> grant m = None"
    and stock_touch: "stock m F \<Longrightarrow> touch m m' \<Longrightarrow> stock m' F"
begin

lemma run_pages:
  "page_run grant touch m ps m' \<Longrightarrow> stock m F \<Longrightarrow> distinct ps \<and> set ps \<subseteq> F \<and> stock m' (F - set ps)"
proof (induction m ps m' arbitrary: F rule: page_run.induct)
  case (run_page m p m1 m2 ps m3)
  have "F \<noteq> {}" using refuses run_page.hyps(1) run_page.prems by force
  with grants [OF run_page.prems] run_page.hyps(1) have p: "p \<in> F" "stock m1 (F - {p})" by auto
  from run_page.IH [OF stock_touch [OF p(2) run_page.hyps(2)]] p(1) show ?case by (auto simp: insert_Diff_if Diff_insert2 [symmetric])
qed simp

lemma run_append:
  "page_run grant touch m ps m1 \<Longrightarrow> page_run grant touch m1 qs m2 \<Longrightarrow> page_run grant touch m (ps @ qs) m2"
  by (induction m ps m1 rule: page_run.induct) (auto intro: page_run.intros)

text \<open>A run can go on until the stock is exhausted, and no longer.\<close>

lemma run_next:
  assumes "page_run grant touch m ps m'" "stock m F"
  shows "grant m' = None \<longleftrightarrow> F \<subseteq> set ps"
proof -
  have s: "stock m' (F - set ps)" using run_pages [OF assms] by blast
  show ?thesis
  proof (cases "F - set ps = {}")
    case True
    with s refuses show ?thesis by auto
  next
    case False
    with grants [OF s] show ?thesis by auto
  qed
qed

lemma run_length:
  assumes "page_run grant touch m ps m'" "stock m F" "finite F"
  shows "length ps \<le> card F" and "length ps = card F \<Longrightarrow> set ps = F"
proof -
  have d: "distinct ps" "set ps \<subseteq> F" using run_pages [OF assms(1,2)] by auto
  then have c: "card (set ps) = length ps" by (simp add: distinct_card)
  show "length ps \<le> card F" using card_mono [OF assms(3) d(2)] c by simp
  show "set ps = F" if "length ps = card F" using card_subset_eq [OF assms(3) d(2)] c that by simp
qed

end

section \<open>What an order-0 request leaves of other lists\<close>

text \<open>Nodes that are neither list heads of the allocator nor fields of descriptors.\<close>

fun foreign :: "lnode \<Rightarrow> bool" where
  "foreign (NodePartial n) = True"
| "foreign CacheListHead = True"
| "foreign (CacheHead c) = True"
| "foreign _ = False"

definition others_kept :: "mm \<Rightarrow> mm \<Rightarrow> bool" where
  "others_kept s s' \<longleftrightarrow> (\<forall>x. foreign x \<longrightarrow> prev (lists s') x = prev (lists s) x \<and> nxt (lists s') x = nxt (lists s) x)
     \<and> (\<forall>x. z_pcp (zones s' x) = z_pcp (zones s x))"

lemma others_kept_refl [simp]: "others_kept s s"
  by (simp add: others_kept_def)

lemma others_kept_trans: "others_kept s t \<Longrightarrow> others_kept t u \<Longrightarrow> others_kept s u"
  by (simp add: others_kept_def)

lemma others_kept_idle: "others_kept s t \<Longrightarrow> pcp_idle s \<Longrightarrow> pcp_idle t"
  by (simp add: others_kept_def pcp_idle_def)

lemma others_kept_round:
  assumes "\<not> foreign (prev (lists s) (FreeHead z fa))"
  shows "others_kept s (expand_round z q fa sz s)"
  unfolding others_kept_def expand_round_simps
proof (intro conjI allI impI)
  fix x assume "foreign x"
  with assms have "x \<notin> {Lru q, FreeHead z fa, prev (lists s) (FreeHead z fa)}" by auto
  from list_add_tail_frame [OF this]
  show "prev (list_add_tail (FreeHead z fa) (Lru q) (lists s)) x = prev (lists s) x"
    "nxt (list_add_tail (FreeHead z fa) (Lru q) (lists s)) x = nxt (lists s) x" by simp_all
qed simp

lemma others_kept_expand:
  assumes "\<And>i. fa - (high + 1 - low) \<le> i \<Longrightarrow> i < fa \<Longrightarrow> \<not> foreign (prev (lists s) (FreeHead z i))"
  shows "others_kept s (expand_loop z pg low high fa sz s)"
  using assms
proof (induction "nat (high + 1 - low)" arbitrary: low fa sz s)
  case 0
  then show ?case by (subst expand_loop_round) simp
next
  case (Suc n)
  let ?sz = "drop_bit 1 sz"
  let ?s = "expand_round z (pg + unat ?sz) (fa - 1) ?sz s"
  have k: "others_kept s ?s" using Suc.hyps(2) by (intro others_kept_round Suc.prems) simp_all
  have "others_kept ?s (expand_loop z pg (low + 1) high (fa - 1) ?sz ?s)"
  proof (rule Suc.hyps(1))
    fix i assume i: "fa - 1 - (high + 1 - (low + 1)) \<le> i" "i < fa - 1"
    then have "\<not> foreign (prev (lists s) (FreeHead z i))" by (intro Suc.prems) simp_all
    moreover have "prev (lists ?s) (FreeHead z i) \<in> {prev (lists s) (FreeHead z i), Lru (pg + unat ?sz)}"
      by (simp add: list_add_tail_def list_add_between_def set_prev_def set_nxt_def)
    ultimately show "\<not> foreign (prev (lists ?s) (FreeHead z i))" by auto
  qed (use Suc.hyps(2) in simp)
  then have "others_kept s (expand_loop z pg (low + 1) high (fa - 1) ?sz ?s)" by (rule others_kept_trans [OF k])
  then show ?case using Suc.hyps(2) by (subst expand_loop_round) simp
qed

lemma ring_neighbours_own:
  assumes "alloc_inv s Z fl" "z \<in> Z" "k < MAX_ORDER"
  shows "\<not> foreign (prev (lists s) (FreeHead z (int k)))"
    and "p \<in> set (fl z k) \<Longrightarrow> \<not> foreign (prev (lists s) (Lru p)) \<and> \<not> foreign (nxt (lists s) (Lru p))"
    and "p \<in> set (fl z k) \<Longrightarrow> prev (lists s) (Lru p) \<noteq> Lru p"
    and "p \<in> set (fl z k) \<Longrightarrow> i \<noteq> int k \<Longrightarrow> nxt (lists s) (Lru p) \<noteq> FreeHead z i \<and> prev (lists s) (Lru p) \<noteq> FreeHead z i"
proof -
  have r: "ring (lists s) (FreeHead z (int k)) (map Lru (fl z k))"
    using family_rep [of ring "flI Z" flH "lists s" "flL fl" "(z, k)"] assms by (simp add: alloc_inv_def flI_def)
  show "\<not> foreign (prev (lists s) (FreeHead z (int k)))"
    using ring_prev [OF r] by (cases "fl z k" rule: rev_cases) auto
  {
    assume "p \<in> set (fl z k)"
    then obtain xs ys where f: "fl z k = xs @ p # ys" by (auto dest: split_list)
    then have r': "ring (lists s) (FreeHead z (int k)) (map Lru xs @ Lru p # map Lru ys)" using r by simp
    note n = ring_split [OF r']
    have d: "Lru p \<notin> set (map Lru xs)" using ring_distinct [OF r'] by simp
    show "\<not> foreign (prev (lists s) (Lru p)) \<and> \<not> foreign (nxt (lists s) (Lru p))"
      unfolding n by (cases xs rule: rev_cases; cases ys) auto
    show "prev (lists s) (Lru p) \<noteq> Lru p"
      unfolding n using d by (cases xs rule: rev_cases) auto
    show "i \<noteq> int k \<Longrightarrow> nxt (lists s) (Lru p) \<noteq> FreeHead z i \<and> prev (lists s) (Lru p) \<noteq> FreeHead z i"
      unfolding n by (cases xs rule: rev_cases; cases ys) auto
  }
qed

lemma rmqueue_hit_others:
  assumes inv: "alloc_inv s Z fl" and z: "z \<in> Z"
    and H: "ord \<le> h" "h < MAX_ORDER" "fl z h = p # ps" "\<And>i. ord \<le> i \<Longrightarrow> i < h \<Longrightarrow> fl z i = []"
  shows "others_kept s (snd (rmqueue z ord s))"
proof -
  let ?u = "unlinked z ord h p s"
  have fam: "family ring (flI Z) flH (lists s) (flL fl)" using inv by (simp add: alloc_inv_def)
  have e: "snd (rmqueue z ord s) = expand_loop z p (int ord) (int h) (int h) (2 ^ h) ?u"
    using rmqueue_hit [OF fam z H(1,2,3)] H(4) by simp
  have p: "p \<in> set (fl z h)" using H(3) by simp
  note own = ring_neighbours_own [OF inv z H(2)]
  have del: "prev (lists ?u) x = prev (lists s) x" "nxt (lists ?u) x = nxt (lists s) x"
    if "x \<notin> {nxt (lists s) (Lru p), prev (lists s) (Lru p)}" for x
    using list_del_frame [OF that own(3) [OF p]] by simp_all
  have "others_kept s ?u"
    unfolding others_kept_def
  proof (intro conjI allI impI)
    fix x assume "foreign x"
    with own(2) [OF p] have "x \<notin> {nxt (lists s) (Lru p), prev (lists s) (Lru p)}" by auto
    from del [OF this] show "prev (lists ?u) x = prev (lists s) x" "nxt (lists ?u) x = nxt (lists s) x" .
  qed (simp add: unlinked_def)
  moreover have "others_kept ?u (expand_loop z p (int ord) (int h) (int h) (2 ^ h) ?u)"
  proof (rule others_kept_expand)
    fix i assume i: "int h - (int h + 1 - int ord) \<le> i" "i < int h"
    have "prev (lists ?u) (FreeHead z i) = prev (lists s) (FreeHead z i)"
      using own(4) [OF p, of i] i by (intro del(1)) auto
    moreover have "\<not> foreign (prev (lists s) (FreeHead z i))"
    proof (cases "i = - 1")
      case True
      then show ?thesis using inv z unfolding alloc_inv_def slot_ok_def by force
    next
      case False
      with i have "i = int (nat i)" "nat i < MAX_ORDER" using H(2) by simp_all
      with ring_neighbours_own(1) [OF inv z, of "nat i"] show ?thesis by simp
    qed
    ultimately show "\<not> foreign (prev (lists ?u) (FreeHead z i))" by simp
  qed
  ultimately show ?thesis unfolding e by (rule others_kept_trans)
qed

lemma rmqueue_order0_others:
  assumes inv: "alloc_inv s Z fl" and z: "z \<in> Z"
  shows "others_kept s (snd (rmqueue z 0 s))"
proof (cases "free_set fl z = {}")
  case True
  with rmqueue_order0_cases [OF inv z] show ?thesis unfolding page_taken_def by auto
next
  case False
  then obtain k where k: "fl z k \<noteq> []" "0 \<le> k" "k < MAX_ORDER" by (auto simp: free_set_empty_iff)
  obtain h p ps where H: "h < MAX_ORDER" "fl z h = p # ps" "\<And>i. 0 \<le> i \<Longrightarrow> i < h \<Longrightarrow> fl z i = []"
    by (rule least_nonempty [of fl z k 0]) (use k in simp_all)
  show ?thesis by (rule rmqueue_hit_others [OF inv z _ H]) simp_all
qed

lemma alloc_pages_others:
  assumes "alloc_inv s Z fl" "set zs \<subseteq> Z" "pcp_idle s"
  shows "others_kept s (snd (alloc_pages g 0 zs s))"
  using assms(2)
proof (induction zs)
  case (Cons z zs)
  have z: "z \<in> Z" "set zs \<subseteq> Z" using Cons.prems by simp_all
  from rmqueue_order0_cases [OF assms(1) z(1)] Cons.IH [OF z(2)] rmqueue_order0_others [OF assms(1) z(1)]
  show ?case by (auto simp: buffered_rmqueue_idle [OF assms(3)])
qed simp

section \<open>The source\<close>

text \<open>An order-0 request to a list of zones.\<close>

definition grant_page :: "nat list \<Rightarrow> mm \<Rightarrow> (nat \<times> mm) option" where
  "grant_page zs m = (case alloc_pages 0 0 zs m of (PPage p, m') \<Rightarrow> Some (p, m') | _ \<Rightarrow> None)"

definition page_stock :: "nat list \<Rightarrow> mm \<Rightarrow> nat set \<Rightarrow> bool" where
  "page_stock zs m F \<longleftrightarrow> pcp_idle m \<and> (\<exists>fl. alloc_inv m (set zs) fl \<and> all_free (set zs) fl = F)"

text \<open>A client changes descriptors, or lists of its own.\<close>

definition client_change :: "mm \<Rightarrow> mm \<Rightarrow> bool" where
  "client_change m m' \<longleftrightarrow> zones m' = zones m
     \<and> (\<forall>x. \<not> foreign x \<longrightarrow> prev (lists m') x = prev (lists m) x \<and> nxt (lists m') x = nxt (lists m) x)"

definition descs_only :: "mm \<Rightarrow> mm \<Rightarrow> bool" where
  "descs_only m m' \<longleftrightarrow> lists m' = lists m \<and> zones m' = zones m"

lemma descs_only_client: "descs_only m m' \<Longrightarrow> client_change m m'"
  by (simp add: descs_only_def client_change_def)

lemma client_change_trans: "client_change m m1 \<Longrightarrow> client_change m1 m2 \<Longrightarrow> client_change m m2"
  by (simp add: client_change_def)

lemma family_not_foreign: "x \<in> family_nodes (flI Z) flH (flL fl) \<Longrightarrow> \<not> foreign x"
  by (auto simp: family_nodes_def)

lemma alloc_inv_client:
  assumes inv: "alloc_inv m Z fl" and c: "client_change m m'"
  shows "alloc_inv m' Z fl"
proof -
  have z: "zones m' = zones m" using c by (simp add: client_change_def)
  have l: "prev (lists m') x = prev (lists m) x" "nxt (lists m') x = nxt (lists m) x" if "\<not> foreign x" for x
    using c that by (simp_all add: client_change_def)
  have "family ring (flI Z) flH (lists m) (flL fl)" using inv by (simp add: alloc_inv_def)
  then have "family ring (flI Z) flH (lists m') (flL fl)"
    by (rule family_ring_frame) (auto intro: l dest: family_not_foreign)
  moreover have "slot_ok m' Z fl" using inv by (simp add: alloc_inv_def slot_ok_def l)
  ultimately show ?thesis
    using inv by (simp add: alloc_inv_def z zones_apart_def block_at_def zone_pages_def zone_base_def zone_span_def)
qed

lemma page_stock_client: "page_stock zs m F \<Longrightarrow> client_change m m' \<Longrightarrow> page_stock zs m' F"
  by (auto simp: page_stock_def intro: alloc_inv_client) (simp add: pcp_idle_def client_change_def)

lemma page_stock_grants:
  assumes "page_stock zs m F" "F \<noteq> {}"
  shows "\<exists>p m'. grant_page zs m = Some (p, m') \<and> p \<in> F \<and> page_stock zs m' (F - {p})"
proof -
  obtain fl where fl: "alloc_inv m (set zs) fl" "all_free (set zs) fl = F" and idle: "pcp_idle m"
    using assms(1) by (auto simp: page_stock_def)
  have "\<exists>z\<in>set zs. free_set fl z \<noteq> {}" using assms(2) fl(2) by (auto simp: all_free_def)
  from split_list_first_prop [OF this] obtain xs z ys where zs: "zs = xs @ z # ys" "free_set fl z \<noteq> {}"
      "\<forall>x\<in>set xs. \<not> free_set fl x \<noteq> {}" by (elim exE bexE conjE) (rule that)
  obtain p m' where p: "alloc_pages 0 0 zs m = (PPage p, m')" "page_taken m (set zs) fl z p m'"
    using alloc_pages_first [OF fl(1) _ idle _ zs(2), of xs ys 0] zs(1,3) by auto
  have z: "z \<in> set zs" using zs(1) by simp
  obtain fl' where fl': "alloc_inv m' (set zs) fl'" "all_free (set zs) fl' = F - {p}" "p \<in> F"
    by (rule page_taken_all_free [OF fl(1) z p(2), unfolded fl(2)])
  have "others_kept m m'" using alloc_pages_others [OF fl(1) subset_refl idle, of 0] p(1) by simp
  then have "pcp_idle m'" using idle by (rule others_kept_idle)
  with fl' p(1) show ?thesis by (auto simp: grant_page_def page_stock_def)
qed

lemma page_stock_refuses: "page_stock zs m {} \<Longrightarrow> grant_page zs m = None"
proof -
  assume "page_stock zs m {}"
  then obtain fl where fl: "alloc_inv m (set zs) fl" "all_free (set zs) fl = {}" and idle: "pcp_idle m"
    by (auto simp: page_stock_def)
  then have "\<And>z. z \<in> set zs \<Longrightarrow> free_set fl z = {}" by (auto simp: all_free_def)
  from alloc_pages_none [OF fl(1) subset_refl idle this] show ?thesis by (simp add: grant_page_def)
qed

interpretation pages: page_source "grant_page zs" client_change "page_stock zs" for zs
  by unfold_locales (simp_all add: page_stock_grants page_stock_refuses page_stock_client)

lemma grant_page_others:
  assumes "page_stock zs m F" "grant_page zs m = Some (p, m')"
  shows "others_kept m m'"
proof -
  obtain fl where "alloc_inv m (set zs) fl" "pcp_idle m" using assms(1) by (auto simp: page_stock_def)
  from alloc_pages_others [OF this(1) subset_refl this(2), of 0] assms(2) show ?thesis
    by (auto simp: grant_page_def split: prod.splits pgptr.splits)
qed

end
