(* ===== verification/SlabProps.thy ===== *)
theory SlabProps
  imports Slab PageSource
begin

text \<open>
  Properties of the slab allocator: the chain of free objects that \<open>new_slab\<close> builds, what a cache hands out,
  where a freed object goes, the layout of objects and the size classes of \<open>kmalloc\<close>.
\<close>

section \<open>Free lists as chains of words\<close>

text \<open>\<open>wchain w p as\<close>: from the pointer \<open>p\<close> the links at the addresses \<open>as\<close> lead to null.\<close>

fun wchain :: "(u32 \<Rightarrow> u32) \<Rightarrow> u32 \<Rightarrow> u32 list \<Rightarrow> bool" where
  "wchain w p [] \<longleftrightarrow> p = 0"
| "wchain w p (a # as) \<longleftrightarrow> p = a \<and> a \<noteq> 0 \<and> wchain w (w a) as"

lemma wchain_upd [simp]: "a \<notin> set as \<Longrightarrow> wchain (w(a := v)) p as = wchain w p as"
  by (induction as arbitrary: p) auto

lemma wchain_unique: "wchain w p as \<Longrightarrow> wchain w p bs \<Longrightarrow> as = bs"
proof (induction as arbitrary: p bs)
  case (Cons a as)
  then show ?case by (cases bs) auto
qed (metis wchain.elims(2) wchain.simps(1) wchain.simps(2))

lemma wchain_nonzero: "wchain w p as \<Longrightarrow> 0 \<notin> set as"
  by (induction as arbitrary: p) auto

lemma wchain_suffix: "wchain w p (as @ a # bs) \<Longrightarrow> wchain w a (a # bs)"
  by (induction as arbitrary: p) auto

lemma wchain_distinct: "wchain w p as \<Longrightarrow> distinct as"
proof (induction as arbitrary: p)
  case (Cons a as)
  have "a \<notin> set as"
  proof
    assume "a \<in> set as"
    then obtain xs ys where as: "as = xs @ a # ys" by (auto dest: split_list)
    with Cons.prems have "wchain w (w a) (xs @ a # ys)" by simp
    from wchain_suffix [OF this] have "wchain w (w a) ys" by simp
    with Cons.prems have "as = ys" using wchain_unique by auto
    with as show False by simp
  qed
  with Cons show ?case by auto
qed simp

text \<open>\<open>jump_num\<close> counts the links.\<close>

lemma jump_from_wchain: "wchain w p (p # as) \<Longrightarrow> jump_from w p n = Some (n + of_nat (length as))"
proof (induction as arbitrary: p n)
  case Nil
  then show ?case by (subst jump_from.simps) simp
next
  case (Cons b as)
  then have "w p = b" "b \<noteq> 0" "wchain w b (b # as)" by simp_all
  with Cons.IH [of b "n + 1"] show ?case by (subst jump_from.simps) (simp add: ac_simps)
qed

lemma jump_num_wchain: "wchain w p as \<Longrightarrow> as \<noteq> [] \<Longrightarrow> jump_num w p = Some (of_nat (length as))"
  by (cases as) (auto simp: jump_num_def jump_from_wchain)

section \<open>The links of a new slab\<close>

definition links_from :: "u32 \<Rightarrow> u32 \<Rightarrow> nat \<Rightarrow> u32 list" where
  "links_from p osz n = map (\<lambda>i. p + of_nat i * osz) [0..<n]"

lemma links_from_Suc: "links_from p osz (Suc n) = p # links_from (p + osz) osz n"
proof -
  have "[0..<Suc n] = 0 # map Suc [0..<n]" by (simp add: upt_conv_Cons map_Suc_upt del: upt_Suc)
  then show ?thesis by (simp add: links_from_def algebra_simps comp_def del: upt_Suc)
qed

lemma links_from_0: "links_from p osz 0 = []"
  by (simp add: links_from_def)

lemma links_from_unat:
  assumes "unat (p :: u32) + n * unat osz < 4294967296" "i \<le> n"
  shows "unat (p + of_nat i * osz) = unat p + i * unat osz"
proof -
  have "i * unat osz \<le> n * unat osz" using assms(2) by simp
  with assms(1) have b: "unat p + i * unat osz < 4294967296" by linarith
  have "p + of_nat i * osz = of_nat (unat p + i * unat osz)" by simp
  then have "unat (p + of_nat i * osz) = unat (of_nat (unat p + i * unat osz) :: u32)" by (simp only:)
  also have "\<dots> = unat p + i * unat osz" using b by (rule word32_of_nat_unat_id)
  finally show ?thesis .
qed

text \<open>
  The loop makes \<open>n\<close> links after the first when the limit lies behind exactly that many; the last
  comparison must not wrap.
\<close>

lemma free_list_loop_spec:
  assumes "unat p + n * unat osz < unat lim" "unat lim \<le> unat p + Suc n * unat osz"
    and "unat lim + unat osz < 4294967296" "0 < unat osz"
  shows "\<exists>w'. free_list_loop osz lim p k w = Some (p + of_nat n * osz, k + of_nat n, w')
    \<and> wchain (w'(p + of_nat n * osz := 0)) p (links_from p osz (Suc n)) = (p \<noteq> 0)
    \<and> (\<forall>a. a \<notin> set (links_from p osz (Suc n)) \<longrightarrow> w' a = w a)"
  using assms(1,2)
proof (induction n arbitrary: p k w)
  case 0
  have "unat (p + osz) = unat p + unat osz" using 0 assms(3) by (intro unat_add_small) simp
  then have "\<not> p + osz < lim" using 0 by (simp add: word_less_nat_alt)
  then have "free_list_loop osz lim p k w = Some (p, k, w)" by (subst free_list_loop.simps) simp
  then show ?case by (simp add: links_from_def)
next
  case (Suc n)
  have u: "unat (p + osz) = unat p + unat osz" using Suc.prems assms(3) by (intro unat_add_small) simp
  have l: "p + osz < lim"
  proof -
    have "unat osz \<le> Suc n * unat osz" by simp
    then show ?thesis using Suc.prems u by (simp add: word_less_nat_alt)
  qed
  have nz: "p + osz \<noteq> 0" using u assms(4) by (metis add_gr_0 less_numeral_extra(3) unat_0)
  have prems: "unat (p + osz) + n * unat osz < unat lim" "unat lim \<le> unat (p + osz) + Suc n * unat osz"
    using Suc.prems u by simp_all
  note ih = Suc.IH [OF prems, of "k + 1" "w(p := p + osz)"]
  obtain w' where w': "free_list_loop osz lim (p + osz) (k + 1) (w(p := p + osz))
      = Some (p + osz + of_nat n * osz, k + 1 + of_nat n, w')"
    "wchain (w'(p + osz + of_nat n * osz := 0)) (p + osz) (links_from (p + osz) osz (Suc n))"
    "\<forall>a. a \<notin> set (links_from (p + osz) osz (Suc n)) \<longrightarrow> w' a = (w(p := p + osz)) a"
    using ih nz by blast
  have notin: "p \<notin> set (links_from (p + osz) osz (Suc n))"
  proof
    assume "p \<in> set (links_from (p + osz) osz (Suc n))"
    then have "\<exists>i<Suc n. p = p + osz + of_nat i * osz" by (auto simp: links_from_def simp del: upt_Suc)
    then obtain i where i: "i < Suc n" "p = p + osz + of_nat i * osz" by blast
    have e: "unat (p + osz + of_nat i * osz) = unat (p + osz) + i * unat osz"
      using i(1) Suc.prems(1) u assms(3) by (intro links_from_unat [of _ n]) simp_all
    have "unat p = unat (p + osz) + i * unat osz" using e unfolding i(2) [symmetric] .
    with u assms(4) show False by linarith
  qed
  have e: "p + osz + of_nat n * osz = p + of_nat (Suc n) * osz" by (simp add: algebra_simps)
  have ne: "p + of_nat (Suc n) * osz \<noteq> p"
    using notin unfolding e [symmetric] links_from_def by fastforce
  have wp: "w' p = p + osz" using w'(3) notin by simp
  have "free_list_loop osz lim p k w = Some (p + of_nat (Suc n) * osz, k + of_nat (Suc n), w')"
    using w'(1) l unfolding e by (subst free_list_loop.simps) (simp add: ac_simps)
  moreover have "wchain (w'(p + of_nat (Suc n) * osz := 0)) p (links_from p osz (Suc (Suc n))) = (p \<noteq> 0)"
    unfolding links_from_Suc [of p osz "Suc n"] using w'(2) ne wp unfolding e by simp
  moreover have "w' a = w a" if "a \<notin> set (links_from p osz (Suc (Suc n)))" for a
    using w'(3) that unfolding links_from_Suc [of p osz "Suc n"] by auto
  ultimately show ?case by blast
qed

section \<open>A new slab\<close>

definition slab_bytes :: "kmem_cache \<Rightarrow> nat" where
  "slab_bytes k = 4096 * 2 ^ unat (kc_cache_order k)"

text \<open>One less than the number of objects of a slab: the links lie inside the slab.\<close>

definition slab_last :: "kmem_cache \<Rightarrow> nat" where
  "slab_last k = (slab_bytes k - Suc (unat (kc_offset k))) div unat (kc_object_size k)"

text \<open>The slab at the page \<open>p\<close> and one more object lie in the address space.\<close>

definition slab_room :: "kmem_cache \<Rightarrow> nat \<Rightarrow> bool" where
  "slab_room k p \<longleftrightarrow> 0 < unat (page_address p)
     \<and> unat (page_address p) + slab_bytes k + unat (kc_object_size k) < 4294967296
     \<and> unat (kc_offset k) < unat (kc_object_size k) \<and> unat (kc_offset k) < slab_bytes k"

definition slab_links :: "kmem_cache \<Rightarrow> nat \<Rightarrow> u32 list" where
  "slab_links k p = links_from (page_address p + kc_offset k) (kc_object_size k) (Suc (slab_last k))"

lemma slab_last_bounds:
  assumes "slab_room k p"
  shows "unat (kc_offset k) + slab_last k * unat (kc_object_size k) < slab_bytes k"
    and "slab_bytes k \<le> unat (kc_offset k) + Suc (slab_last k) * unat (kc_object_size k)"
proof -
  let ?o = "unat (kc_object_size k)" and ?d = "slab_bytes k - Suc (unat (kc_offset k))"
  have pos: "0 < ?o" and fits: "unat (kc_offset k) < slab_bytes k" using assms by (simp_all add: slab_room_def)
  have "?d div ?o * ?o \<le> ?d" by (rule div_times_less_eq_dividend)
  then show "unat (kc_offset k) + slab_last k * ?o < slab_bytes k" using fits unfolding slab_last_def by linarith
  have "?d < Suc (?d div ?o) * ?o" using pos dividend_less_times_div [of ?o ?d] by (simp add: mult.commute)
  then show "slab_bytes k \<le> unat (kc_offset k) + Suc (slab_last k) * ?o" using fits unfolding slab_last_def by linarith
qed

lemma slab_limit_unat:
  assumes "slab_room k p"
  shows "unat (page_address p + push_bit PAGE_SHIFT (push_bit (unat (kc_cache_order k)) 1)) = unat (page_address p) + slab_bytes k"
proof -
  have "push_bit PAGE_SHIFT (push_bit (unat (kc_cache_order k)) 1) = (of_nat (slab_bytes k) :: u32)"
    by (simp add: push_bit_eq_mult PAGE_SHIFT_def slab_bytes_def)
  moreover have "unat (of_nat (slab_bytes k) :: u32) = slab_bytes k"
    using assms by (intro word32_of_nat_unat_id) (simp add: slab_room_def)
  ultimately show ?thesis using assms by (simp add: unat_add_small slab_room_def del: unat_of_nat)
qed

lemma mark_slab_pages_simps [simp]:
  "wds (mark_slab_pages c p is s) = wds s" "caches (mark_slab_pages c p is s) = caches s"
  "cpus (mark_slab_pages c p is s) = cpus s" "nr_partial (mark_slab_pages c p is s) = nr_partial s"
  "zones0 (mark_slab_pages c p is s) = zones0 s" "kmalloc_small (mark_slab_pages c p is s) = kmalloc_small s"
  "statics (mark_slab_pages c p is s) = statics s" "nbytes (mark_slab_pages c p is s) = nbytes s"
  by (induction c p "is" s rule: mark_slab_pages.induct) (simp_all add: Let_def on_mm_def set_next_def)

text \<open>
  \<open>slab_ready k p w w'\<close>: the words \<open>w'\<close> hold the chain of all links of the slab and agree with \<open>w\<close> elsewhere.
\<close>

definition slab_ready :: "kmem_cache \<Rightarrow> nat \<Rightarrow> (u32 \<Rightarrow> u32) \<Rightarrow> (u32 \<Rightarrow> u32) \<Rightarrow> bool" where
  "slab_ready k p w w' \<longleftrightarrow> wchain w' (page_address p + kc_offset k) (slab_links k p)
     \<and> (\<forall>a. a \<notin> set (slab_links k p) \<longrightarrow> w' a = w a)"

lemma kmem_getpages_some:
  assumes "alloc_pages 0 (unat (kc_cache_order (caches s cachep))) (zones0 s) (smm s) = (PPage p, m)"
  shows "kmem_getpages cachep fl s = Some (p, on_mm (upd_page p (\<lambda>d. d\<lparr>pg_buddy := 0\<rparr>))
    (mark_slab_pages cachep p [0..<2 ^ unat (kc_cache_order (caches s cachep))] (s\<lparr>smm := m\<rparr>)))"
  using assms by (simp add: kmem_getpages_def)

lemma new_slab_some:
  assumes alloc: "alloc_pages 0 (unat (kc_cache_order (caches s cachep))) (zones0 s) (smm s) = (PPage p, m)"
    and room: "slab_room (caches s cachep) p"
  shows "\<exists>s'. new_slab cachep fl s = Some (p, s') \<and> slab_ready (caches s cachep) p (wds s) (wds s')
    \<and> caches s' = caches s \<and> nr_partial s' = nr_partial s \<and> zones0 s' = zones0 s
    \<and> cpus s' = (cpus s)(cpu_of cachep s := (cpus s (cpu_of cachep s))\<lparr>freelist := page_address p + kc_offset (caches s cachep)\<rparr>)
    \<and> pg_objects (page_of p s') = of_nat (Suc (slab_last (caches s cachep)))
    \<and> pg_inuse (page_of p s') = of_nat (Suc (slab_last (caches s cachep))) \<and> pg_frozen (page_of p s') = 1
    \<and> (kc_cache_order (caches s cachep) = 0 \<longrightarrow> descs_only m (smm s'))"
proof -
  let ?k = "caches s cachep"
  let ?f = "page_address p + kc_offset ?k" and ?n = "slab_last ?k" and ?osz = "kc_object_size ?k"
  let ?lim = "page_address p + push_bit PAGE_SHIFT (push_bit (unat (kc_cache_order ?k)) 1)"
  note b = slab_last_bounds [OF room] and l = slab_limit_unat [OF room]
  have r: "0 < unat (page_address p)" "unat (page_address p) + slab_bytes ?k + unat ?osz < 4294967296"
      "unat (kc_offset ?k) < unat ?osz" "unat (kc_offset ?k) < slab_bytes ?k"
    using room by (simp_all add: slab_room_def)
  have f: "unat ?f = unat (page_address p) + unat (kc_offset ?k)"
    using r by (intro unat_add_small) simp
  then have nz: "?f \<noteq> 0" using r(1) by (metis add_is_0 less_numeral_extra(3) unat_0)
  have "\<exists>w'. free_list_loop ?osz ?lim ?f 0 (wds s) = Some (?f + of_nat ?n * ?osz, 0 + of_nat ?n, w')
    \<and> wchain (w'(?f + of_nat ?n * ?osz := 0)) ?f (links_from ?f ?osz (Suc ?n)) = (?f \<noteq> 0)
    \<and> (\<forall>a. a \<notin> set (links_from ?f ?osz (Suc ?n)) \<longrightarrow> w' a = wds s a)"
  proof (rule free_list_loop_spec)
    show "unat ?f + ?n * unat ?osz < unat ?lim" "unat ?lim \<le> unat ?f + Suc ?n * unat ?osz"
        "unat ?lim + unat ?osz < 4294967296" "0 < unat ?osz"
      unfolding f l using b r by linarith+
  qed
  then obtain w' where w': "free_list_loop ?osz ?lim ?f 0 (wds s) = Some (?f + of_nat ?n * ?osz, of_nat ?n, w')"
    "wchain (w'(?f + of_nat ?n * ?osz := 0)) ?f (slab_links ?k p)"
    "\<forall>a. a \<notin> set (slab_links ?k p) \<longrightarrow> w' a = wds s a"
    using nz by (auto simp: slab_links_def)
  have last: "?f + of_nat ?n * ?osz \<in> set (slab_links ?k p)" by (simp add: slab_links_def links_from_def)
  have "ucast (of_nat (Suc ?n) :: u32) = (of_nat (Suc ?n) :: 15 word)"
    by (simp add: unsigned_of_nat word_of_nat_eq_iff del: of_nat_Suc)
  moreover have "of_nat ?n + 1 = (of_nat (Suc ?n) :: u32)" by simp
  ultimately have u: "ucast (of_nat ?n + 1 :: u32) = (of_nat (Suc ?n) :: 15 word)" by (simp only:)
  show ?thesis
    unfolding new_slab_def kmem_getpages_some [OF alloc]
    using w' last by (auto simp: Let_def on_mm_def upd_cpu_def cpu_of_def page_of_def slab_ready_def u descs_only_def)
qed

section \<open>What a cache hands out\<close>

fun alloc_many :: "u32 \<Rightarrow> u32 \<Rightarrow> nat \<Rightarrow> slabs \<Rightarrow> (u32 list \<times> slabs) option" where
  "alloc_many cachep fl 0 s = Some ([], s)"
| "alloc_many cachep fl (Suc n) s = do {
     (x, s1) \<leftarrow> kmem_cache_alloc cachep fl s;
     (xs, s2) \<leftarrow> alloc_many cachep fl n s1;
     Some (x # xs, s2) }"

definition my_cpu :: "u32 \<Rightarrow> slabs \<Rightarrow> kmem_cache_cpu" where
  "my_cpu cachep s = cpus s (cpu_of cachep s)"

lemma take_object_more:
  assumes "wchain (wds s) (freelist (my_cpu cachep s)) (a # b # c # as)"
  shows "take_object cachep s
    = (a - kc_offset (caches s cachep), upd_cpu (cpu_of cachep s) (\<lambda>x. x\<lparr>freelist := b\<rparr>) s)"
  using assms by (simp add: take_object_def my_cpu_def cpu_of_def upd_cpu_def Let_def)

text \<open>The counters written through the null pointer.\<close>

definition null_marks :: "(u32 \<Rightarrow> u32) \<Rightarrow> u32 \<Rightarrow> u32" where
  "null_marks w = w(44 := 0, 24 := unset_bit 31 (w 24))"

lemma take_object_last_but_one:
  assumes "wchain (wds s) (freelist (my_cpu cachep s)) [a, b]"
  shows "take_object cachep s = (a - kc_offset (caches s cachep),
    (upd_cpu (cpu_of cachep s) (\<lambda>x. x\<lparr>cpage := None, freelist := 0\<rparr>) s)
      \<lparr>wds := null_marks (wds s)\<rparr>)"
  using assms
  by (simp add: take_object_def my_cpu_def cpu_of_def upd_cpu_def Let_def set_pobjects_def clear_frozen_def set_word_def
      null_marks_def)

lemma take_object_last:
  assumes "wchain (wds s) (freelist (my_cpu cachep s)) [a]" "wds s 0 \<noteq> 0"
  shows "take_object cachep s
    = (a - kc_offset (caches s cachep), upd_cpu (cpu_of cachep s) (\<lambda>x. x\<lparr>freelist := 0\<rparr>) s)"
  using assms by (simp add: take_object_def my_cpu_def cpu_of_def upd_cpu_def Let_def)

lemma take_object_fst: "fst (take_object cachep s) = freelist (my_cpu cachep s) - kc_offset (caches s cachep)"
  by (simp add: take_object_def my_cpu_def cpu_of_def Let_def)

lemma kmem_cache_alloc_current:
  "cpage (my_cpu cachep s) = Some p \<Longrightarrow> kmem_cache_alloc cachep fl s = Some (take_object cachep s)"
  by (simp add: kmem_cache_alloc_def my_cpu_def)

lemma two_front: "\<exists>d e ds. as @ b # c # cs = d # e # ds"
  by (cases as; cases "tl as") auto

text \<open>As long as two objects remain, requests take the objects from the front.\<close>

lemma alloc_many_wchain:
  assumes "cpage (my_cpu cachep s) = Some p"
    and "wchain (wds s) (freelist (my_cpu cachep s)) (as @ b # c # cs)"
  shows "alloc_many cachep fl (length as) s = Some (map (\<lambda>a. a - kc_offset (caches s cachep)) as,
    upd_cpu (cpu_of cachep s) (\<lambda>x. x\<lparr>freelist := b\<rparr>) s)"
  using assms
proof (induction as arbitrary: s)
  case Nil
  then show ?case by (simp add: upd_cpu_def my_cpu_def fun_upd_idem)
next
  case (Cons a as)
  obtain d e ds where split: "as @ b # c # cs = d # e # ds"
    using two_front by metis
  let ?s1 = "upd_cpu (cpu_of cachep s) (\<lambda>x. x\<lparr>freelist := d\<rparr>) s"
  have t: "kmem_cache_alloc cachep fl s = Some (a - kc_offset (caches s cachep), ?s1)"
    using Cons.prems take_object_more [of s cachep a d e ds] split by (simp add: kmem_cache_alloc_current)
  have same: "cpu_of cachep ?s1 = cpu_of cachep s" "caches ?s1 = caches s" "wds ?s1 = wds s"
      "my_cpu cachep ?s1 = (my_cpu cachep s)\<lparr>freelist := d\<rparr>"
    by (simp_all add: cpu_of_def upd_cpu_def my_cpu_def)
  have "wchain (wds s) d (as @ b # c # cs)" using Cons.prems(2) split by auto
  then have "alloc_many cachep fl (length as) ?s1 = Some (map (\<lambda>a. a - kc_offset (caches s cachep)) as,
      upd_cpu (cpu_of cachep s) (\<lambda>x. x\<lparr>freelist := b\<rparr>) ?s1)"
    using Cons.IH [of ?s1] Cons.prems(1) unfolding same by simp
  moreover have "upd_cpu (cpu_of cachep s) (\<lambda>x. x\<lparr>freelist := b\<rparr>) ?s1 = upd_cpu (cpu_of cachep s) (\<lambda>x. x\<lparr>freelist := b\<rparr>) s"
    by (simp add: upd_cpu_def)
  ultimately show ?case using t by simp
qed

text \<open>The request that leaves one object gives the slab up.\<close>

lemma alloc_many_gives_up:
  assumes "cpage (my_cpu cachep s) = Some p"
    and "wchain (wds s) (freelist (my_cpu cachep s)) (as @ [b, c])"
  shows "\<exists>s'. alloc_many cachep fl (Suc (length as)) s = Some (map (\<lambda>a. a - kc_offset (caches s cachep)) (as @ [b]), s')
    \<and> my_cpu cachep s' = (my_cpu cachep s)\<lparr>cpage := None, freelist := 0\<rparr> \<and> smm s' = smm s
    \<and> wds s' = null_marks (wds s) \<and> caches s' = caches s \<and> zones0 s' = zones0 s"
  using assms
proof (induction as arbitrary: s)
  case Nil
  then have "take_object cachep s = (b - kc_offset (caches s cachep),
      (upd_cpu (cpu_of cachep s) (\<lambda>x. x\<lparr>cpage := None, freelist := 0\<rparr>) s)
        \<lparr>wds := null_marks (wds s)\<rparr>)"
    by (intro take_object_last_but_one [where b = c]) simp
  with Nil(1) show ?case by (simp add: kmem_cache_alloc_current) (auto simp: my_cpu_def upd_cpu_def cpu_of_def)
next
  case (Cons a as)
  obtain d e ds where split: "as @ [b, c] = d # e # ds"
    using two_front by metis
  let ?s1 = "upd_cpu (cpu_of cachep s) (\<lambda>x. x\<lparr>freelist := d\<rparr>) s"
  have t: "kmem_cache_alloc cachep fl s = Some (a - kc_offset (caches s cachep), ?s1)"
    using Cons.prems take_object_more [of s cachep a d e ds] split by (simp add: kmem_cache_alloc_current)
  have same: "caches ?s1 = caches s" "wds ?s1 = wds s" "smm ?s1 = smm s" "zones0 ?s1 = zones0 s"
      "my_cpu cachep ?s1 = (my_cpu cachep s)\<lparr>freelist := d\<rparr>"
    by (simp_all add: cpu_of_def upd_cpu_def my_cpu_def)
  have "wchain (wds s) d (as @ [b, c])" using Cons.prems(2) split by auto
  then obtain s' where s': "alloc_many cachep fl (Suc (length as)) ?s1 = Some (map (\<lambda>a. a - kc_offset (caches s cachep)) (as @ [b]), s')"
      "my_cpu cachep s' = (my_cpu cachep s)\<lparr>cpage := None, freelist := 0\<rparr>" "smm s' = smm s"
      "wds s' = null_marks (wds s)" "caches s' = caches s" "zones0 s' = zones0 s"
    using Cons.IH [of ?s1] Cons.prems(1) unfolding same by auto
  have "alloc_many cachep fl (Suc (Suc (length as))) s = Some (map (\<lambda>a. a - kc_offset (caches s cachep)) (a # as @ [b]), s')"
    using t s'(1) by (subst alloc_many.simps) (simp del: alloc_many.simps)
  with s' show ?case by (auto simp del: alloc_many.simps)
qed

text \<open>A cache without slabs that is granted the page \<open>p\<close>.\<close>

definition cache_empty :: "u32 \<Rightarrow> slabs \<Rightarrow> bool" where
  "cache_empty cachep s \<longleftrightarrow> cpage (my_cpu cachep s) = None \<and> cpartial (my_cpu cachep s) = None
     \<and> list_empty (NodePartial (kc_node (caches s cachep))) (lists (smm s))"

lemma alloc_many_fresh:
  assumes empty: "cache_empty cachep s"
    and alloc: "alloc_pages 0 (unat (kc_cache_order (caches s cachep))) (zones0 s) (smm s) = (PPage p, m)"
    and room: "slab_room (caches s cachep) p"
  shows "\<exists>s1. (\<forall>n. alloc_many cachep fl (Suc n) s = alloc_many cachep fl (Suc n) s1) \<and> caches s1 = caches s
    \<and> cpage (my_cpu cachep s1) = Some p \<and> wchain (wds s1) (freelist (my_cpu cachep s1)) (slab_links (caches s cachep) p)
    \<and> pg_frozen (page_of p s1) = 1 \<and> zones0 s1 = zones0 s \<and> cpartial (my_cpu cachep s1) = None
    \<and> (kc_cache_order (caches s cachep) = 0 \<longrightarrow> descs_only m (smm s1))"
proof -
  obtain t where t: "new_slab cachep fl s = Some (p, t)" "slab_ready (caches s cachep) p (wds s) (wds t)" "caches t = caches s"
      "cpus t = (cpus s)(cpu_of cachep s := (cpus s (cpu_of cachep s))\<lparr>freelist := page_address p + kc_offset (caches s cachep)\<rparr>)"
      "pg_frozen (page_of p t) = 1" "zones0 t = zones0 s" "kc_cache_order (caches s cachep) = 0 \<longrightarrow> descs_only m (smm t)"
    using new_slab_some [OF alloc room, of fl] by blast
  let ?s1 = "upd_cpu (cpu_of cachep t) (\<lambda>c. c\<lparr>cpage := Some p\<rparr>) t"
  have c: "cpage (my_cpu cachep ?s1) = Some p" by (simp add: my_cpu_def upd_cpu_def cpu_of_def)
  have "kmem_cache_alloc cachep fl s = Some (take_object cachep ?s1)"
    using empty t(1) by (simp add: kmem_cache_alloc_def cache_empty_def my_cpu_def seeknode_def)
  then have "alloc_many cachep fl (Suc n) s = alloc_many cachep fl (Suc n) ?s1" for n
    using kmem_cache_alloc_current [OF c] by simp
  moreover have "wchain (wds ?s1) (freelist (my_cpu cachep ?s1)) (slab_links (caches s cachep) p)"
    using t(2-4) by (simp add: slab_ready_def my_cpu_def upd_cpu_def cpu_of_def)
  moreover have "caches ?s1 = caches s" "pg_frozen (page_of p ?s1) = 1" using t(3,5) by (simp_all add: upd_cpu_def page_of_def)
  moreover have "zones0 ?s1 = zones0 s" "smm ?s1 = smm t" using t(6) by (simp_all add: upd_cpu_def)
  moreover have "cpartial (my_cpu cachep ?s1) = None"
    using empty t(3,4) by (simp add: my_cpu_def upd_cpu_def cpu_of_def cache_empty_def)
  ultimately show ?thesis using c t(7) by (intro exI [of _ ?s1]) simp
qed

definition slab_objs :: "kmem_cache \<Rightarrow> nat \<Rightarrow> nat \<Rightarrow> u32 list" where
  "slab_objs k p n = map (\<lambda>i. page_address p + of_nat i * kc_object_size k) [0..<n]"

lemma slab_links_split:
  assumes "n \<le> slab_last k"
  shows "slab_links k p = links_from (page_address p + kc_offset k) (kc_object_size k) n
    @ links_from (page_address p + kc_offset k + of_nat n * kc_object_size k) (kc_object_size k) (Suc (slab_last k) - n)"
proof -
  have "[0..<Suc (slab_last k)] = [0..<n] @ map (\<lambda>i. i + n) [0..<Suc (slab_last k) - n]"
    using assms upt_add_eq_append [of 0 n "Suc (slab_last k) - n"] by (simp add: map_add_upt add.commute del: upt_Suc)
  then show ?thesis
    unfolding slab_links_def links_from_def by (simp add: algebra_simps comp_def del: upt_Suc)
qed

lemma links_from_objs:
  "map (\<lambda>a. a - kc_offset k) (links_from (page_address p + kc_offset k) (kc_object_size k) n) = slab_objs k p n"
  by (simp add: links_from_def slab_objs_def)

lemma length_links_from [simp]: "length (links_from p osz n) = n"
  by (simp add: links_from_def)

text \<open>All the requests that one slab serves; the slab is given up with the last of them.\<close>

lemma slab_used_up:
  assumes empty: "cache_empty cachep s"
    and alloc: "alloc_pages 0 (unat (kc_cache_order (caches s cachep))) (zones0 s) (smm s) = (PPage p, m)"
    and room: "slab_room (caches s cachep) p" and last: "0 < slab_last (caches s cachep)"
  shows "\<exists>s'. alloc_many cachep fl (slab_last (caches s cachep)) s
        = Some (slab_objs (caches s cachep) p (slab_last (caches s cachep)), s')
     \<and> cpage (my_cpu cachep s') = None \<and> freelist (my_cpu cachep s') = 0 \<and> cpartial (my_cpu cachep s') = None
     \<and> caches s' = caches s \<and> zones0 s' = zones0 s \<and> pg_frozen (page_of p s') = 1 \<and> (\<exists>w. wds s' = null_marks w)
     \<and> (kc_cache_order (caches s cachep) = 0 \<longrightarrow> descs_only m (smm s'))"
proof -
  let ?k = "caches s cachep"
  obtain n where n: "slab_last ?k = Suc n" using last by (cases "slab_last ?k") auto
  obtain s1 where s1: "\<forall>n. alloc_many cachep fl (Suc n) s = alloc_many cachep fl (Suc n) s1" "caches s1 = caches s"
      "cpage (my_cpu cachep s1) = Some p" "wchain (wds s1) (freelist (my_cpu cachep s1)) (slab_links ?k p)"
      "pg_frozen (page_of p s1) = 1" "zones0 s1 = zones0 s" "cpartial (my_cpu cachep s1) = None"
      "kc_cache_order ?k = 0 \<longrightarrow> descs_only m (smm s1)"
    using alloc_many_fresh [OF empty alloc room, of fl] by (elim exE conjE) (rule that)
  let ?as = "links_from (page_address p + kc_offset ?k) (kc_object_size ?k) n"
  let ?q = "page_address p + kc_offset ?k + of_nat n * kc_object_size ?k"
  have split: "slab_links ?k p = ?as @ [?q, ?q + kc_object_size ?k]"
    using slab_links_split [of n ?k p] unfolding n
    by (simp add: numeral_2_eq_2 links_from_Suc links_from_0)
  obtain s' where s': "alloc_many cachep fl (Suc (length ?as)) s1 = Some (map (\<lambda>a. a - kc_offset ?k) (?as @ [?q]), s')"
      "my_cpu cachep s' = (my_cpu cachep s1)\<lparr>cpage := None, freelist := 0\<rparr>" "smm s' = smm s1"
      "wds s' = null_marks (wds s1)" "caches s' = caches s" "zones0 s' = zones0 s1"
    using alloc_many_gives_up [OF s1(3), of ?as ?q "?q + kc_object_size ?k" fl] s1(4) unfolding split s1(2)
    by (elim impE exE conjE meta_impE) (assumption, rule that)
  have "map (\<lambda>a. a - kc_offset ?k) (?as @ [?q]) = slab_objs ?k p (Suc n)"
    unfolding map_append links_from_objs by (simp add: slab_objs_def)
  then have "alloc_many cachep fl (Suc n) s = Some (slab_objs ?k p (Suc n), s')"
    using s'(1) unfolding s1(1) [rule_format] length_links_from by simp
  moreover have "pg_frozen (page_of p s') = 1" using s1(5) s'(3) by (simp add: page_of_def)
  ultimately show ?thesis unfolding n using s' s1(6-8) by auto
qed

text \<open>Objects are separate and inside the slab.\<close>

definition objs_apart :: "kmem_cache \<Rightarrow> nat \<Rightarrow> nat \<Rightarrow> bool" where
  "objs_apart k p n \<longleftrightarrow> (\<forall>i<n. unat (slab_objs k p n ! i) = unat (page_address p) + i * unat (kc_object_size k)
     \<and> unat (slab_objs k p n ! i) + unat (kc_offset k) < unat (page_address p) + slab_bytes k)"

lemma objs_apart_slab:
  assumes room: "slab_room k p" and n: "n \<le> Suc (slab_last k)"
  shows "objs_apart k p n"
  unfolding objs_apart_def
proof (intro allI impI)
  fix i assume i: "i < n"
  note b = slab_last_bounds [OF room]
  have r: "unat (page_address p) + slab_bytes k + unat (kc_object_size k) < 4294967296"
    using room by (simp add: slab_room_def)
  have m: "i * unat (kc_object_size k) \<le> slab_last k * unat (kc_object_size k)"
    using i n by (intro mult_right_mono) simp_all
  have "unat (page_address p + of_nat i * kc_object_size k) = unat (page_address p) + i * unat (kc_object_size k)"
  proof (rule links_from_unat [where n = "slab_last k"])
    show "unat (page_address p) + slab_last k * unat (kc_object_size k) < 4294967296" using b r by linarith
  qed (use i n in simp)
  then have "unat (slab_objs k p n ! i) = unat (page_address p) + i * unat (kc_object_size k)"
    using i by (simp add: slab_objs_def)
  then show "unat (slab_objs k p n ! i) = unat (page_address p) + i * unat (kc_object_size k)
      \<and> unat (slab_objs k p n ! i) + unat (kc_offset k) < unat (page_address p) + slab_bytes k"
    using m b(1) by linarith
qed

text \<open>Fewer requests: the slab stays current.\<close>

lemma slab_part:
  assumes "cache_empty cachep s"
    and "alloc_pages 0 (unat (kc_cache_order (caches s cachep))) (zones0 s) (smm s) = (PPage p, m)"
    and "slab_room (caches s cachep) p" and "0 < n" and "n < slab_last (caches s cachep)"
  shows "\<exists>s'. alloc_many cachep fl n s = Some (slab_objs (caches s cachep) p n, s')
     \<and> objs_apart (caches s cachep) p n \<and> cpage (my_cpu cachep s') = Some p
     \<and> wchain (wds s') (freelist (my_cpu cachep s')) (drop n (slab_links (caches s cachep) p))"
proof -
  let ?k = "caches s cachep"
  from assms(4) obtain n' where n': "n = Suc n'" by (cases n) auto
  obtain s1 where s1: "\<forall>n. alloc_many cachep fl (Suc n) s = alloc_many cachep fl (Suc n) s1" "caches s1 = caches s"
      "cpage (my_cpu cachep s1) = Some p" "wchain (wds s1) (freelist (my_cpu cachep s1)) (slab_links ?k p)"
    using alloc_many_fresh [OF assms(1-3), of fl] by (elim exE conjE) (rule that)
  let ?as = "links_from (page_address p + kc_offset ?k) (kc_object_size ?k) n"
  let ?q = "page_address p + kc_offset ?k + of_nat n * kc_object_size ?k"
  define j where "j = slab_last ?k - n - 1"
  have j: "Suc (slab_last ?k) - n = Suc (Suc j)" using assms(5) by (simp add: j_def)
  let ?cs = "links_from (?q + kc_object_size ?k + kc_object_size ?k) (kc_object_size ?k) j"
  have split: "slab_links ?k p = ?as @ ?q # (?q + kc_object_size ?k) # ?cs"
    using slab_links_split [of n ?k p] assms(5) unfolding j by (simp add: links_from_Suc)
  let ?s' = "upd_cpu (cpu_of cachep s1) (\<lambda>x. x\<lparr>freelist := ?q\<rparr>) s1"
  have a: "alloc_many cachep fl n s = Some (slab_objs ?k p n, ?s')"
    using alloc_many_wchain [OF s1(3), of ?as ?q "?q + kc_object_size ?k" ?cs fl] s1(4)
    unfolding split s1(2) links_from_objs length_links_from by (simp only: n' s1(1) [rule_format] links_from_objs)
  have "wchain (wds s1) ?q (?q # (?q + kc_object_size ?k) # ?cs)"
    using s1(4) unfolding split by (rule wchain_suffix)
  then have "wchain (wds ?s') (freelist (my_cpu cachep ?s')) (drop n (slab_links ?k p))"
    unfolding split by (simp add: upd_cpu_def my_cpu_def cpu_of_def)
  moreover have "cpage (my_cpu cachep ?s') = Some p" using s1(3) by (simp add: upd_cpu_def my_cpu_def cpu_of_def)
  moreover have "objs_apart ?k p n" by (rule objs_apart_slab [OF assms(3)]) (use assms(5) in simp)
  ultimately show ?thesis using a by blast
qed

section \<open>Where a freed object goes\<close>

lemma find_place_wchain:
  "wchain w h (h # ys) \<Longrightarrow> find_place objp w h = Some (last (h # takeWhile (\<lambda>x. x \<le> objp) ys))"
proof (induction ys arbitrary: h)
  case Nil
  then show ?case by (subst find_place.simps) simp
next
  case (Cons y ys)
  then have "w h = y" "y \<noteq> 0" "wchain w y (y # ys)" by simp_all
  then show ?case using Cons.IH [of y] by (subst find_place.simps) auto
qed

lemma wchain_insert:
  assumes "wchain w p (as @ h # bs)" "lnk \<noteq> 0" "lnk \<notin> set (as @ h # bs)"
  shows "wchain (link_after h lnk w) p (as @ h # lnk # bs)"
proof -
  define w' where "w' = link_after h lnk w"
  have e: "w' = w(h := lnk, lnk := w h)" using assms(2) by (simp add: w'_def link_after_def Let_def)
  have "h \<noteq> lnk" using assms(3) by auto
  then have w': "w' h = lnk" "w' lnk = w h" "\<And>a. a \<noteq> h \<Longrightarrow> a \<noteq> lnk \<Longrightarrow> w' a = w a" by (simp_all add: e)
  have same: "wchain w' q xs = wchain w q xs" if "h \<notin> set xs" "lnk \<notin> set xs" for q xs
    using that
  proof (induction xs arbitrary: q)
    case (Cons a xs)
    then have "w' a = w a" by (intro w'(3)) auto
    with Cons show ?case by simp
  qed simp
  have d: "distinct (as @ h # bs)" using wchain_distinct [OF assms(1)] .
  show ?thesis using assms d unfolding w'_def [symmetric]
  proof (induction as arbitrary: p)
    case Nil
    then have "h \<notin> set bs" "lnk \<notin> set bs" "p = h" "h \<noteq> 0" "wchain w (w h) bs" by simp_all
    with assms(2) show ?case by (simp add: w'(1,2) same)
  next
    case (Cons a as)
    then have c: "p = a" "a \<noteq> 0" "wchain w (w a) (as @ h # bs)" "lnk \<notin> set (as @ h # bs)" "distinct (as @ h # bs)"
        and a: "a \<noteq> h" "a \<noteq> lnk" by auto
    have "wchain w' (w a) (as @ h # lnk # bs)" by (rule Cons.IH [OF c(3) assms(2) c(4,5)])
    with c(1,2) show ?case by (simp add: w'(3) [OF a])
  qed
qed

lemma split_at_place:
  "\<exists>as. h # ys = as @ last (h # takeWhile P ys) # dropWhile P ys \<and> as @ [last (h # takeWhile P ys)] = h # takeWhile P ys"
proof (intro exI conjI)
  show "butlast (h # takeWhile P ys) @ [last (h # takeWhile P ys)] = h # takeWhile P ys"
    by (rule append_butlast_last_id) simp
  then show "h # ys = butlast (h # takeWhile P ys) @ last (h # takeWhile P ys) # dropWhile P ys"
    by (metis append_Cons append_Nil append_assoc takeWhile_dropWhile_id)
qed

lemma insert_object_wchain:
  assumes "wchain (wds s) p (xs @ h # ys)" "objp + offset \<noteq> 0" "objp + offset \<notin> set (xs @ h # ys)"
  shows "\<exists>w. insert_object h objp offset s = Some (s\<lparr>wds := w\<rparr>)
    \<and> wchain w p (xs @ h # takeWhile (\<lambda>x. x \<le> objp) ys @ (objp + offset) # dropWhile (\<lambda>x. x \<le> objp) ys)"
proof -
  let ?P = "\<lambda>x. x \<le> objp"
  let ?h = "last (h # takeWhile ?P ys)"
  have "wchain (wds s) h (h # ys)" using wchain_suffix [OF assms(1)] .
  then have "insert_object h objp offset s = Some (s\<lparr>wds := link_after ?h (objp + offset) (wds s)\<rparr>)"
    unfolding insert_object_def by (simp only: find_place_wchain option.map)
  moreover obtain as where as: "h # ys = as @ ?h # dropWhile ?P ys" "as @ [?h] = h # takeWhile ?P ys"
    using split_at_place [of h ys ?P] by (elim exE conjE) (rule that)
  have xs: "xs @ h # ys = (xs @ as) @ ?h # dropWhile ?P ys" using arg_cong [OF as(1), of "append xs"] by (simp only: append_assoc)
  have "wchain (link_after ?h (objp + offset) (wds s)) p ((xs @ as) @ ?h # (objp + offset) # dropWhile ?P ys)"
    by (rule wchain_insert [OF subst [OF xs, where P = "wchain (wds s) p"] _
          subst [OF xs, where P = "\<lambda>l. objp + offset \<notin> set l"]]) (rule assms)+
  moreover have "(xs @ as) @ ?h # (objp + offset) # dropWhile ?P ys = xs @ (as @ [?h]) @ (objp + offset) # dropWhile ?P ys"
    by (simp only: append_assoc append_Cons append_Nil)
  moreover have "\<dots> = xs @ h # takeWhile ?P ys @ (objp + offset) # dropWhile ?P ys"
    by (simp only: as(2) append_Cons)
  ultimately show ?thesis by (intro exI conjI) (assumption, simp only:)
qed

section \<open>Layout and size classes\<close>

lemma order_loop_spec:
  "m \<noteq> 0 \<Longrightarrow> \<exists>k. order_loop (int m) r = r + Suc k \<and> 2 ^ k \<le> m \<and> m < 2 ^ Suc k"
proof (induction m arbitrary: r rule: less_induct)
  case (less m)
  have d: "int m sdiv 2 = int (m div 2)" using less.prems by (simp add: signed_divide_int_def zdiv_int)
  show ?case
  proof (cases "m = 1")
    case True
    have "order_loop 0 q = q" for q by (subst order_loop.simps) simp
    with True d show ?thesis by (intro exI [of _ 0]) (subst order_loop.simps, simp)
  next
    case False
    with less.prems have "m div 2 < m" "m div 2 \<noteq> 0" by auto
    from less.IH [OF this, of "Suc r"] obtain k where
      "order_loop (int (m div 2)) (Suc r) = Suc r + Suc k" "2 ^ k \<le> m div 2" "m div 2 < 2 ^ Suc k" by blast
    moreover from this have "2 ^ Suc k \<le> m" "m < 2 ^ Suc (Suc k)" by auto
    ultimately show ?thesis using less.prems d by (intro exI [of _ "Suc k"]) (subst order_loop.simps, simp)
  qed
qed

lemma get_order_spec:
  assumes "1 < sz" "sz < 0x80000000"
  shows "\<exists>k. get_order sz = Suc k \<and> 2 ^ k \<le> unat sz \<and> unat sz < 2 ^ Suc k"
proof -
  have "sint sz = int (unat sz)" by (rule sint_small) (use assms(2) in \<open>simp add: word_less_nat_alt\<close>)
  moreover have "sz \<noteq> 0" "sz \<noteq> 1" using assms(1) by auto
  then have "unat sz \<noteq> 0" by (simp add: unat_gt_0)
  ultimately show ?thesis using order_loop_spec [of "unat sz" 0] \<open>sz \<noteq> 1\<close> by (auto simp: get_order_def)
qed

section \<open>A small cache\<close>

text \<open>Objects of 64 bytes in slabs of one page, on the state with a free block at page 8.\<close>

definition demo_cache :: kmem_cache where
  "demo_cache = \<lparr>kc_cpu_slab = 0x2000, kc_flags = 0, kc_min_partial = 5, kc_pointer_size = 56, kc_size = 54,
     kc_object_size = 64, kc_offset = 56, kc_cpu_partial = 30, kc_allocflags = 0, kc_cache_order = 0, kc_ctor = 0,
     kc_inuse = 0, kc_node = 0x3000\<rparr>"

definition demo_slabs :: slabs where
  "demo_slabs = \<lparr>smm = demo_eight, wds = (\<lambda>a. 7), caches = (\<lambda>k. demo_cache),
     cpus = (\<lambda>c. \<lparr>freelist = 0, cpage = None, cpartial = None\<rparr>), nr_partial = (\<lambda>n. 0), kmalloc_small = (\<lambda>i. 0),
     zones0 = [1], nbytes = (\<lambda>a. 0), printed = [],
     statics = \<lparr>kmem_cache_cache = 0, kmem_cache_cpu_cache = 0, kmem_cache_node_cache = 0, t1 = 0, t2 = 0, t3 = 0,
       n1 = 0, n2 = 0, n3 = 0\<rparr>\<rparr>"

lemma demo_slabs_simps:
  "caches demo_slabs k = demo_cache" "cache_empty k demo_slabs" "zones0 demo_slabs = [1]" "smm demo_slabs = demo_eight"
  by (simp_all add: demo_slabs_def demo_cache_def cache_empty_def my_cpu_def cpu_of_def list_empty_def demo_eight_def
      demo_empty_def list_add_def list_add_between_def set_prev_def set_nxt_def Let_def)

lemma demo_slab_last: "slab_last demo_cache = 63"
  by (simp add: slab_last_def slab_bytes_def demo_cache_def)

lemma demo_slab_granted:
  "\<exists>p m. alloc_pages 0 (unat (kc_cache_order (caches demo_slabs k))) (zones0 demo_slabs) (smm demo_slabs) = (PPage p, m)
     \<and> slab_room demo_cache p"
proof -
  have "free_set eight_fl 1 \<noteq> {}" unfolding demo_eight_free by simp
  then obtain p m where p: "alloc_pages 0 0 ([] @ 1 # []) demo_eight = (PPage p, m)" "page_taken demo_eight {1} eight_fl 1 p m"
    using alloc_pages_first [OF demo_eight_inv, of "[]" 1 "[]" 0] demo_eight_idle by auto
  then have "p < 16" unfolding page_taken_def using demo_eight_free by auto
  then have "unat (push_bit 12 (of_nat p :: u32)) < 4096 * 16" using unat_push_pfn [of p] by simp
  then have "unat (page_address p) = unat (push_bit 12 (of_nat p :: u32)) + 3221225472"
    by (simp add: addr_defs unat_add_small)
  with \<open>unat (push_bit 12 (of_nat p :: u32)) < 4096 * 16\<close> have "slab_room demo_cache p"
    by (simp add: slab_room_def slab_bytes_def demo_cache_def)
  with p(1) show ?thesis by (auto simp: demo_slabs_simps demo_cache_def)
qed

section \<open>The properties\<close>

text \<open>
  A cache without slabs serves requests from one new slab: the objects are the consecutive multiples of the
  object size from the start of the slab, each inside it, and as long as two objects remain the free list is
  the chain of the others.
\<close>

theorem slab_serves:
  assumes "cache_empty cachep s" and "slab_room (caches s cachep) p" and "0 < n" and "n < slab_last (caches s cachep)"
    and "alloc_pages 0 (unat (kc_cache_order (caches s cachep))) (zones0 s) (smm s) = (PPage p, m)"
  shows "\<exists>s'. alloc_many cachep fl n s = Some (slab_objs (caches s cachep) p n, s')
     \<and> objs_apart (caches s cachep) p n \<and> cpage (my_cpu cachep s') = Some p
     \<and> wchain (wds s') (freelist (my_cpu cachep s')) (drop n (slab_links (caches s cachep) p))"
  by (rule slab_part [OF assms(1,5,2-4)])

theorem slab_serves_witness:
  "\<exists>p s'. alloc_many 0 0 2 demo_slabs = Some (slab_objs demo_cache p 2, s') \<and> objs_apart demo_cache p 2"
proof -
  obtain p m where p: "alloc_pages 0 (unat (kc_cache_order (caches demo_slabs 0))) (zones0 demo_slabs) (smm demo_slabs) = (PPage p, m)"
      "slab_room (caches demo_slabs 0) p"
    using demo_slab_granted [of 0] unfolding demo_slabs_simps(1) by blast
  have "(2 :: nat) < slab_last (caches demo_slabs 0)" "(0 :: nat) < 2" by (simp_all add: demo_slabs_simps(1) demo_slab_last)
  from slab_serves [OF demo_slabs_simps(2) p(2) this(2,1) p(1), of 0] show ?thesis
    unfolding demo_slabs_simps(1) by blast
qed

text \<open>
  C21: the request that would leave one object on the free list gives the slab up: the last object is never
  handed out, the slab keeps its mark of being in use, and the counters are written through the null pointer, into
  the words at addresses 44 and 24.
\<close>

theorem slab_given_up_early:
  assumes "cache_empty cachep s" and "slab_room (caches s cachep) p" and "0 < slab_last (caches s cachep)"
    and "alloc_pages 0 (unat (kc_cache_order (caches s cachep))) (zones0 s) (smm s) = (PPage p, m)"
  shows "\<exists>s'. alloc_many cachep fl (slab_last (caches s cachep)) s
        = Some (slab_objs (caches s cachep) p (slab_last (caches s cachep)), s')
     \<and> cpage (my_cpu cachep s') = None \<and> freelist (my_cpu cachep s') = 0 \<and> pg_frozen (page_of p s') = 1
     \<and> wds s' 44 = 0 \<and> \<not> bit (wds s' 24) 31"
  using slab_used_up [OF assms(1,4,2,3), of fl]
  by (elim exE conjE, intro exI conjI) (assumption | simp add: null_marks_def bit_simps)+

theorem slab_given_up_early_witness:
  "\<exists>p s'. alloc_many 0 0 63 demo_slabs = Some (slab_objs demo_cache p 63, s') \<and> cpage (my_cpu 0 s') = None"
proof -
  obtain p m where p: "alloc_pages 0 (unat (kc_cache_order (caches demo_slabs 0))) (zones0 demo_slabs) (smm demo_slabs) = (PPage p, m)"
      "slab_room (caches demo_slabs 0) p"
    using demo_slab_granted [of 0] unfolding demo_slabs_simps(1) by blast
  have "0 < slab_last (caches demo_slabs 0)" by (simp add: demo_slabs_simps(1) demo_slab_last)
  from slab_given_up_early [OF demo_slabs_simps(2) p(2) this p(1), of 0] show ?thesis
    unfolding demo_slabs_simps(1) demo_slab_last by blast
qed

text \<open>
  C22: an object freed to the current slab of its cache, with at least two objects free, is inserted into the
  free list behind its first two objects and all objects that are not above it; nothing else changes.
\<close>

theorem free_to_current_inserts:
  assumes "slab_head objp s = Some p" and "cpage (my_cpu cachep s) = Some p"
    and "wchain (wds s) (freelist (my_cpu cachep s)) (a # b # ys)"
    and "objp + kc_offset (caches s cachep) \<noteq> 0" and "objp + kc_offset (caches s cachep) \<notin> set (a # b # ys)"
  shows "\<exists>w. kmem_cache_free cachep objp s = Some (s\<lparr>wds := w\<rparr>)
     \<and> wchain w (freelist (my_cpu cachep s)) (a # b # takeWhile (\<lambda>x. x \<le> objp) ys
          @ (objp + kc_offset (caches s cachep)) # dropWhile (\<lambda>x. x \<le> objp) ys)"
proof -
  have head: "wds s (freelist (my_cpu cachep s)) = b" "b \<noteq> 0" using assms(3) by simp_all
  have "kmem_cache_free cachep objp s = insert_object b objp (kc_offset (caches s cachep)) s"
    using assms(1,2) head by (simp add: kmem_cache_free_def my_cpu_def cpu_of_def free_to_current_def)
  then show ?thesis using insert_object_wchain [of s _ "[a]" b ys objp] assms(3-5) by auto
qed

definition demo_current :: slabs where
  "demo_current = demo_slabs\<lparr>wds := (\<lambda>a. 0)(0xC0008038 := 0xC0008078, 0xC0008078 := 0xC00080F8),
     cpus := (\<lambda>c. \<lparr>freelist = 0xC0008038, cpage = Some 8, cpartial = None\<rparr>)\<rparr>"

theorem free_to_current_inserts_witness:
  "\<exists>w. kmem_cache_free 0 0xC0008080 demo_current = Some (demo_current\<lparr>wds := w\<rparr>)
     \<and> wchain w 0xC0008038 [0xC0008038, 0xC0008078, 0xC00080B8, 0xC00080F8]"
proof -
  have "slab_head 0xC0008080 demo_current = Some 8"
    by (simp add: slab_head_def demo_current_def demo_slabs_def addr_defs page_of_def demo_eight_def demo_empty_def page_zero_def)
  moreover have "cpage (my_cpu 0 demo_current) = Some 8" "freelist (my_cpu 0 demo_current) = 0xC0008038"
      "caches demo_current 0 = demo_cache"
    by (simp_all add: my_cpu_def demo_current_def demo_slabs_def)
  moreover have "wchain (wds demo_current) 0xC0008038 [0xC0008038, 0xC0008078, 0xC00080F8]"
    by (simp add: demo_current_def)
  ultimately show ?thesis
    using free_to_current_inserts [of "0xC0008080" demo_current 8 0 "0xC0008038" "0xC0008078" "[0xC00080F8]"]
    by (simp add: demo_cache_def)
qed

text \<open>
  C23: an object freed to a slab that was full is the next one to be handed out. When the word at address 0 is
  not zero, the slab stays current with an empty list, and the request after that gets the null pointer less the
  offset of the link, which is no object.
\<close>

theorem free_then_alloc:
  assumes "slab_head objp s = Some p" and "pg_free_list (page_of p s) = 0"
    and "cpage (my_cpu cachep s) = None" and "cpartial (my_cpu cachep s) = None"
    and "objp + kc_offset (caches s cachep) \<noteq> 0"
  shows "\<exists>s1 s2. kmem_cache_free cachep objp s = Some s1 \<and> kmem_cache_alloc cachep fl s1 = Some (objp, s2)
     \<and> (wds s 0 \<noteq> 0 \<longrightarrow> (\<exists>s3. kmem_cache_alloc cachep fl s2 = Some (- kc_offset (caches s cachep), s3)))"
proof -
  let ?s1 = "revive_slab cachep p objp s" and ?l = "objp + kc_offset (caches s cachep)"
  have f: "kmem_cache_free cachep objp s = Some ?s1"
    using assms by (simp add: kmem_cache_free_def my_cpu_def cpu_of_def)
  have r: "caches ?s1 = caches s" "wds ?s1 = (wds s)(?l := 0)" "cpage (my_cpu cachep ?s1) = None"
      "cpartial (my_cpu cachep ?s1) = Some p" "next_page p ?s1 = Some None" "pg_free_list (page_of p ?s1) = ?l"
    using assms(3,4)
    by (simp_all add: revive_slab_def Let_def my_cpu_def cpu_of_def on_mm_def set_word_def upd_cpu_def set_next_def
        next_page_def page_of_def set_prev_def)
  let ?t = "upd_cpu (cpu_of cachep ?s1) (\<lambda>x. x\<lparr>cpage := Some p, freelist := ?l, cpartial := None\<rparr>) ?s1"
  have t: "caches ?t = caches s" "wds ?t = (wds s)(?l := 0)" "cpu_of cachep ?t = cpu_of cachep s"
      "freelist (my_cpu cachep ?t) = ?l" "cpage (my_cpu cachep ?t) = Some p"
    using r(1,2) by (simp_all add: upd_cpu_def my_cpu_def cpu_of_def)
  have a: "kmem_cache_alloc cachep fl ?s1 = Some (take_object cachep ?t)"
    using r(3-6) by (simp add: kmem_cache_alloc_def my_cpu_def)
  obtain s2 where s2: "take_object cachep ?t = (objp, s2)"
    using take_object_fst [of cachep ?t] t(1,4) by (cases "take_object cachep ?t") simp
  have "wds s 0 \<noteq> 0 \<longrightarrow> (\<exists>s3. kmem_cache_alloc cachep fl s2 = Some (- kc_offset (caches s cachep), s3))"
  proof
    assume z: "wds s 0 \<noteq> 0"
    have "take_object cachep ?t = (?l - kc_offset (caches ?t cachep), upd_cpu (cpu_of cachep ?t) (\<lambda>x. x\<lparr>freelist := 0\<rparr>) ?t)"
      by (rule take_object_last) (use t(2,4) assms(5) z in simp_all)
    with s2 have "s2 = upd_cpu (cpu_of cachep ?t) (\<lambda>x. x\<lparr>freelist := 0\<rparr>) ?t" by simp
    then have u: "cpage (my_cpu cachep s2) = Some p" "freelist (my_cpu cachep s2) = 0" "caches s2 = caches s"
      using t(1,5) by (simp_all add: my_cpu_def cpu_of_def upd_cpu_def)
    have "fst (take_object cachep s2) = - kc_offset (caches s cachep)" unfolding take_object_fst u(2,3) by simp
    then show "\<exists>s3. kmem_cache_alloc cachep fl s2 = Some (- kc_offset (caches s cachep), s3)"
      unfolding kmem_cache_alloc_current [OF u(1)] by (metis prod.collapse)
  qed
  with f a [unfolded s2] show ?thesis by (intro exI conjI) assumption+
qed

theorem free_then_alloc_witness:
  "\<exists>s1 s2 s3. kmem_cache_free 0 0xC0008080 demo_slabs = Some s1 \<and> kmem_cache_alloc 0 0 s1 = Some (0xC0008080, s2)
     \<and> kmem_cache_alloc 0 0 s2 = Some (- 56, s3)"
proof -
  have "slab_head 0xC0008080 demo_slabs = Some 8" "pg_free_list (page_of 8 demo_slabs) = 0"
    by (simp_all add: slab_head_def demo_slabs_def addr_defs page_of_def demo_eight_def demo_empty_def page_zero_def)
  moreover have "cpage (my_cpu 0 demo_slabs) = None" "cpartial (my_cpu 0 demo_slabs) = None" "wds demo_slabs 0 \<noteq> 0"
      "caches demo_slabs 0 = demo_cache"
    by (simp_all add: my_cpu_def demo_slabs_def)
  ultimately show ?thesis
    using free_then_alloc [of "0xC0008080" demo_slabs 8 0 0] by (auto simp: demo_cache_def)
qed

text \<open>
  The layout of a cache with objects of \<open>sz\<close> bytes aligned to a power of two: the link follows the object at
  the next multiple of four, and the distance of objects is the least multiple of the alignment that holds both.
\<close>

theorem slab_layout_correct:
  assumes "unat sz + 2 ^ a + 7 < 4294967296"
  shows "case slab_layout sz (2 ^ a) of (off, osz) \<Rightarrow>
       unat sz \<le> unat off \<and> unat off < unat sz + 4 \<and> 4 dvd unat off
     \<and> 2 ^ a dvd unat osz \<and> unat off + 4 \<le> unat osz \<and> unat osz < unat off + 4 + 2 ^ a"
proof -
  define off where "off = (sz + 3) AND NOT (3 :: u32)"
  define osz where "osz = (off + 4 + (2 ^ a - 1)) AND NOT (2 ^ a - 1 :: u32)"
  have e: "slab_layout sz (2 ^ a) = (off, osz)" by (simp add: slab_layout_def off_def osz_def Let_def)
  have "unat (sz + 3) = unat sz + 3" using assms by (subst unat_add_small) simp_all
  then have off: "unat off = (unat sz + 3) div 4 * 4" using align_down_unat [of "sz + 3" 2] by (simp add: off_def)
  then have o: "unat sz \<le> unat off" "unat off < unat sz + 4" "4 dvd unat off" by simp_all
  have "(2 :: nat) ^ a < 2 ^ 32" using assms by simp
  then have a: "a < 32" by (rule power_less_imp_less_exp [rotated]) simp
  have p: "unat (2 ^ a :: u32) = 2 ^ a" by (rule unat_pow_u32 [OF a])
  have one: "unat (2 ^ a - 1 :: u32) = 2 ^ a - 1"
    using p by (metis unat_minus_one unat_eq_zero power_not_zero zero_neq_numeral unat_0)
  have four: "unat (off + 4) = unat off + 4" using assms o by (subst unat_add_small) simp_all
  have "unat (off + 4 + (2 ^ a - 1)) = unat off + 4 + (2 ^ a - 1)"
    using assms o(2) by (subst unat_add_small) (simp_all add: four one)
  then have osz: "unat osz = (unat off + 4 + (2 ^ a - 1)) div 2 ^ a * 2 ^ a"
    using align_down_unat [of "off + 4 + (2 ^ a - 1)" a] by (simp add: osz_def)
  define n where "n = unat off + 4 + (2 ^ a - 1)"
  have "n div 2 ^ a * 2 ^ a \<le> n" by (rule div_times_less_eq_dividend)
  moreover have "n < n div 2 ^ a * 2 ^ a + 2 ^ a" using dividend_less_div_times [of "2 ^ a" n] by simp
  moreover have "0 < (2 :: nat) ^ a" by simp
  then have "n + 1 = unat off + 4 + 2 ^ a" by (simp add: n_def)
  moreover have "unat osz = n div 2 ^ a * 2 ^ a" using osz by (simp only: n_def)
  ultimately have "unat off + 4 \<le> unat osz" "unat osz < unat off + 4 + 2 ^ a" by linarith+
  with o osz show ?thesis by (simp add: e)
qed

theorem slab_layout_correct_witness: "slab_layout 54 (2 ^ 4) = (56, 64)"
proof -
  have "unat (54 :: u32) + 2 ^ 4 + 7 < 4294967296" by simp
  from slab_layout_correct [OF this] show ?thesis by (simp add: slab_layout_def Let_def)
qed



end
