(* ===== verification/SlabRun.thy ===== *)
theory SlabRun
  imports SlabProps
begin

text \<open>
  A cache over its whole life: the slab allocator of \<open>slab.c\<close> on top of the page allocator of
  \<open>page_alloc.c\<close>, through the interface \<open>page_source\<close>. Requests go on over as many slabs as there are free
  pages.
\<close>

section \<open>Slabs after one another\<close>

lemma alloc_many_add:
  "alloc_many cachep fl (a + b) s = do {
     (xs, s1) \<leftarrow> alloc_many cachep fl a s; (ys, s2) \<leftarrow> alloc_many cachep fl b s1; Some (xs @ ys, s2) }"
proof (induction a arbitrary: s)
  case (Suc a)
  then show ?case by (auto split: Option.bind_split)
qed (auto split: Option.bind_split)

text \<open>A slab is one page, and holds at least two objects.\<close>

definition one_page_cache :: "kmem_cache \<Rightarrow> bool" where
  "one_page_cache k \<longleftrightarrow> kc_cache_order k = 0 \<and> kc_offset k < kc_object_size k \<and> unat (kc_object_size k) \<le> 4096
     \<and> 0 < slab_last k"

text \<open>The cache has no slab, and the pages of \<open>F\<close> are free, all below the end of the direct mapping.\<close>

definition cache_ready :: "u32 \<Rightarrow> slabs \<Rightarrow> nat set \<Rightarrow> bool" where
  "cache_ready cachep s F \<longleftrightarrow> one_page_cache (caches s cachep) \<and> cache_empty cachep s
     \<and> page_stock (zones0 s) (smm s) F \<and> F \<subseteq> {..<0x3FFFE}"

lemma lowmem_address:
  assumes "p < 0x40000"
  shows "unat (page_address p) = 4096 * p + 0xC0000000"
  using unat_push_pfn [OF assms] assms by (simp add: addr_defs unat_add_small)

lemma lowmem_slab_room:
  assumes "one_page_cache k" "p < 0x3FFFE"
  shows "slab_room k p"
proof -
  have "unat (kc_offset k) < unat (kc_object_size k)" using assms(1) by (simp add: one_page_cache_def word_less_nat_alt)
  then show ?thesis using assms lowmem_address [of p] by (simp add: slab_room_def slab_bytes_def one_page_cache_def)
qed

lemma cache_readyD:
  assumes "cache_ready cachep s F" "grant_page (zones0 s) (smm s) = Some (p, m)" "p \<in> F"
  shows "alloc_pages 0 (unat (kc_cache_order (caches s cachep))) (zones0 s) (smm s) = (PPage p, m)"
    and "slab_room (caches s cachep) p" and "cache_empty cachep s"
    and "kc_cache_order (caches s cachep) = 0" and "0 < slab_last (caches s cachep)"
  using assms lowmem_slab_room [of "caches s cachep" p]
  by (auto simp: cache_ready_def one_page_cache_def grant_page_def split: prod.splits pgptr.splits)

text \<open>All the requests that one slab serves; the slab is given up with the last of them.\<close>

lemma one_slab:
  assumes ready: "cache_ready cachep s F" and g: "grant_page (zones0 s) (smm s) = Some (p, m)" "p \<in> F"
  shows "\<exists>s'. alloc_many cachep fl (slab_last (caches s cachep)) s
        = Some (slab_objs (caches s cachep) p (slab_last (caches s cachep)), s')
     \<and> caches s' = caches s \<and> zones0 s' = zones0 s \<and> descs_only m (smm s') \<and> cache_empty cachep s'"
proof -
  let ?k = "caches s cachep"
  note d = cache_readyD [OF ready g]
  obtain s' where s': "alloc_many cachep fl (slab_last ?k) s = Some (slab_objs ?k p (slab_last ?k), s')"
      "cpage (my_cpu cachep s') = None" "cpartial (my_cpu cachep s') = None" "caches s' = caches s" "zones0 s' = zones0 s"
      "kc_cache_order ?k = 0 \<longrightarrow> descs_only m (smm s')"
    using slab_used_up [OF d(3,1,2,5), of fl] by (elim exE conjE) (rule that)
  have "page_stock (zones0 s) (smm s) F" using ready by (simp add: cache_ready_def)
  from grant_page_others [OF this g(1)] have "others_kept (smm s) m" .
  moreover have "lists (smm s') = lists m" using s'(6) d(4) by (simp add: descs_only_def)
  ultimately have "list_empty (NodePartial (kc_node ?k)) (lists (smm s'))"
    using d(3) by (simp add: cache_empty_def list_empty_def others_kept_def)
  then have "cache_empty cachep s'" using s'(2-4) by (simp add: cache_empty_def)
  then show ?thesis using s' d(4) by (intro exI [of _ s']) simp
qed

lemma one_slab_part:
  assumes ready: "cache_ready cachep s F" and g: "grant_page (zones0 s) (smm s) = Some (p, m)" "p \<in> F"
    and n: "0 < n" "n < slab_last (caches s cachep)"
  shows "\<exists>s'. alloc_many cachep fl n s = Some (slab_objs (caches s cachep) p n, s')"
proof -
  let ?k = "caches s cachep"
  note d = cache_readyD [OF ready g]
  obtain s1 where s1: "alloc_many cachep fl n s = Some (slab_objs ?k p n, s1)"
    using slab_part [OF d(3,1,2) n, of fl] by blast
  then show ?thesis by blast
qed

lemma cache_ready_empty:
  assumes "cache_ready cachep s {}"
  shows "kmem_cache_alloc cachep fl s = None"
proof -
  have "grant_page (zones0 s) (smm s) = None"
    using assms by (intro pages.refuses) (simp add: cache_ready_def)
  then have "kmem_getpages cachep g s = None" for g
    using assms by (auto simp: kmem_getpages_def grant_page_def cache_ready_def one_page_cache_def split: prod.splits pgptr.splits)
  with assms show ?thesis
    by (simp add: kmem_cache_alloc_def cache_ready_def cache_empty_def my_cpu_def seeknode_def new_slab_def)
qed

text \<open>Slabs that are used up, one after the other.\<close>

lemma full_slabs:
  assumes "cache_ready cachep s F" "q \<le> card F" "finite F"
  shows "\<exists>ps s'. page_run (grant_page (zones0 s)) client_change (smm s) ps (smm s') \<and> length ps = q
     \<and> alloc_many cachep fl (q * slab_last (caches s cachep)) s
         = Some (concat (map (\<lambda>p. slab_objs (caches s cachep) p (slab_last (caches s cachep))) ps), s')
     \<and> caches s' = caches s \<and> zones0 s' = zones0 s \<and> cache_ready cachep s' (F - set ps)"
  using assms(2)
proof (induction q)
  case 0
  then show ?case using assms(1) by (auto intro!: run_done)
next
  case (Suc q)
  let ?k = "caches s cachep" and ?zs = "zones0 s"
  obtain ps s1 where s1: "page_run (grant_page ?zs) client_change (smm s) ps (smm s1)" "length ps = q"
      "alloc_many cachep fl (q * slab_last ?k) s = Some (concat (map (\<lambda>p. slab_objs ?k p (slab_last ?k)) ps), s1)"
      "caches s1 = caches s" "zones0 s1 = ?zs" "cache_ready cachep s1 (F - set ps)"
    using Suc by auto
  have stock: "page_stock ?zs (smm s) F" "page_stock ?zs (smm s1) (F - set ps)"
    using assms(1) s1(5,6) by (simp_all add: cache_ready_def)
  have "\<not> F \<subseteq> set ps"
    using Suc.prems s1(2) card_mono [of "set ps" F] card_length [of ps] by (metis List.finite_set le_trans not_less_eq_eq)
  then obtain p m where g: "grant_page ?zs (smm s1) = Some (p, m)"
    using pages.run_next [OF s1(1) stock(1)] by auto
  have p: "p \<in> F - set ps" "page_stock ?zs m (F - set ps - {p})"
    using pages.grants [OF stock(2)] \<open>\<not> F \<subseteq> set ps\<close> g by auto
  obtain s2 where s2: "alloc_many cachep fl (slab_last ?k) s1 = Some (slab_objs ?k p (slab_last ?k), s2)"
      "caches s2 = caches s" "zones0 s2 = ?zs" "descs_only m (smm s2)" "cache_empty cachep s2"
    using one_slab [OF s1(6), of p m fl] g p(1) unfolding s1(4,5) by auto
  have "page_run (grant_page ?zs) client_change (smm s1) [p] (smm s2)"
    by (rule run_page, rule g, rule descs_only_client [OF s2(4)], rule run_done)
  from pages.run_append [OF s1(1) this]
  have "page_run (grant_page ?zs) client_change (smm s) (ps @ [p]) (smm s2)" .
  moreover have "alloc_many cachep fl (Suc q * slab_last ?k) s
      = Some (concat (map (\<lambda>p. slab_objs ?k p (slab_last ?k)) (ps @ [p])), s2)"
    using alloc_many_add [of cachep fl "q * slab_last ?k" "slab_last ?k" s] s1(3) s2(1) by (simp add: add.commute)
  moreover have "cache_ready cachep s2 (F - set (ps @ [p]))"
  proof -
    have e: "F - set (ps @ [p]) = F - set ps - {p}" by auto
    have "page_stock ?zs (smm s2) (F - set (ps @ [p]))" unfolding e by (rule page_stock_client [OF p(2) descs_only_client [OF s2(4)]])
    then show ?thesis using assms(1) s2(2,3,5) by (auto simp: cache_ready_def)
  qed
  ultimately show ?case using s1(2) s2(2,3) by (intro exI [of _ "ps @ [p]"] exI [of _ s2]) simp
qed

section \<open>Objects apart\<close>

definition clear_of :: "kmem_cache \<Rightarrow> u32 \<Rightarrow> u32 \<Rightarrow> bool" where
  "clear_of k a b \<longleftrightarrow> unat a + unat (kc_object_size k) \<le> unat b \<or> unat b + unat (kc_object_size k) \<le> unat a"

text \<open>The objects of the first \<open>n\<close> requests, when the slabs are the pages \<open>ps\<close>.\<close>

definition handed_out :: "kmem_cache \<Rightarrow> nat list \<Rightarrow> nat \<Rightarrow> u32 list" where
  "handed_out k ps n = take n (concat (map (\<lambda>p. slab_objs k p (slab_last k)) ps))"

lemma slab_objs_unat:
  assumes "one_page_cache k" "p < 0x3FFFE" "a \<in> set (slab_objs k p (slab_last k))"
  shows "4096 * p + 0xC0000000 \<le> unat a \<and> unat a + unat (kc_object_size k) \<le> 4096 * p + 0xC0000000 + 4096"
proof -
  obtain i where i: "i < slab_last k" "a = slab_objs k p (slab_last k) ! i"
    using assms(3) by (auto simp: in_set_conv_nth) (simp add: slab_objs_def)
  have r: "slab_room k p" by (rule lowmem_slab_room [OF assms(1,2)])
  have "unat a = unat (page_address p) + i * unat (kc_object_size k)"
    using objs_apart_slab [OF r, of "slab_last k"] i by (simp add: objs_apart_def)
  moreover have "Suc i * unat (kc_object_size k) \<le> slab_last k * unat (kc_object_size k)"
    using i(1) by (intro mult_right_mono) simp_all
  moreover have "unat (kc_offset k) + slab_last k * unat (kc_object_size k) < 4096"
    using slab_last_bounds(1) [OF r] assms(1) by (simp add: slab_bytes_def one_page_cache_def)
  ultimately show ?thesis using lowmem_address [of p] assms(2) by simp
qed

lemma slab_objs_clear:
  assumes "one_page_cache k" "p < 0x3FFFE"
  shows "sorted_wrt (clear_of k) (slab_objs k p (slab_last k))"
proof -
  have r: "slab_room k p" by (rule lowmem_slab_room [OF assms])
  have l: "length (slab_objs k p (slab_last k)) = slab_last k" by (simp add: slab_objs_def)
  have "clear_of k (slab_objs k p (slab_last k) ! i) (slab_objs k p (slab_last k) ! j)" if "i < j" "j < slab_last k" for i j
  proof -
    have "Suc i * unat (kc_object_size k) \<le> j * unat (kc_object_size k)" using that(1) by (intro mult_right_mono) simp_all
    then show ?thesis using objs_apart_slab [OF r, of "slab_last k"] that by (simp add: objs_apart_def clear_of_def)
  qed
  then show ?thesis by (simp add: sorted_wrt_iff_nth_less l)
qed

lemma handed_out_clear:
  assumes "one_page_cache k" "distinct ps" "set ps \<subseteq> {..<0x3FFFE}"
  shows "sorted_wrt (clear_of k) (handed_out k ps n)"
  unfolding handed_out_def
proof (rule sorted_wrt_take)
  show "sorted_wrt (clear_of k) (concat (map (\<lambda>p. slab_objs k p (slab_last k)) ps))"
    using assms(2,3)
  proof (induction ps)
    case (Cons p ps)
    have "clear_of k a b" if "a \<in> set (slab_objs k p (slab_last k))" "q \<in> set ps" "b \<in> set (slab_objs k q (slab_last k))" for a b q
    proof -
      have "q < 0x3FFFE" "p < 0x3FFFE" "p \<noteq> q" using Cons.prems that(2) by auto
      with slab_objs_unat [OF assms(1) _ that(1)] slab_objs_unat [OF assms(1) _ that(3)] show ?thesis
        by (cases "p < q") (auto simp: clear_of_def)
    qed
    then show ?case using Cons slab_objs_clear [OF assms(1), of p] by (auto simp: sorted_wrt_append)
  qed simp
qed

section \<open>How far the free pages reach\<close>

abbreviation run_objs :: "kmem_cache \<Rightarrow> nat list \<Rightarrow> u32 list" where
  "run_objs k ps \<equiv> concat (map (\<lambda>p. slab_objs k p (slab_last k)) ps)"

lemma length_run_objs: "length (run_objs k ps) = length ps * slab_last k"
  by (induction ps) (simp_all add: slab_objs_def)

lemma handed_out_full: "handed_out k ps (length ps * slab_last k) = run_objs k ps"
  by (simp add: handed_out_def length_run_objs)

lemma handed_out_part:
  "r \<le> slab_last k \<Longrightarrow> handed_out k (ps @ [p]) (length ps * slab_last k + r) = run_objs k ps @ slab_objs k p r"
  using length_run_objs [of k ps] by (simp add: handed_out_def slab_objs_def take_map)

lemma serves_within:
  assumes "cache_ready cachep s F" "finite F" "n \<le> card F * slab_last (caches s cachep)"
  shows "\<exists>ps s'. alloc_many cachep fl n s = Some (handed_out (caches s cachep) ps n, s')
    \<and> distinct ps \<and> set ps \<subseteq> F \<and> n \<le> length ps * slab_last (caches s cachep)"
proof -
  let ?k = "caches s cachep" and ?zs = "zones0 s"
  let ?L = "slab_last ?k" and ?q = "n div slab_last ?k" and ?r = "n mod slab_last ?k"
  have stock: "page_stock ?zs (smm s) F" and L: "0 < ?L"
    using assms(1) by (simp_all add: cache_ready_def one_page_cache_def)
  have "?q \<le> card F" using assms(3) L by (metis div_le_mono div_mult_self_is_m)
  from full_slabs [OF assms(1) this assms(2), of fl] obtain ps s1 where
      s1: "page_run (grant_page ?zs) client_change (smm s) ps (smm s1)" "length ps = ?q"
        "alloc_many cachep fl (?q * ?L) s = Some (run_objs ?k ps, s1)"
        "caches s1 = caches s" "zones0 s1 = ?zs" "cache_ready cachep s1 (F - set ps)"
    by (elim exE conjE) (rule that)
  have ps: "distinct ps" "set ps \<subseteq> F" using pages.run_pages [OF s1(1) stock] by simp_all
  have n: "n = length ps * ?L + ?r" by (simp add: s1(2))
  note split = alloc_many_add [of cachep fl "?q * ?L" ?r s, unfolded div_mult_mod_eq s1(3)]
  show ?thesis
  proof (cases "?r = 0")
    case True
    then have l: "n = length ps * ?L" using n by simp
    have h: "handed_out ?k ps n = run_objs ?k ps" unfolding l by (rule handed_out_full)
    have "alloc_many cachep fl n s = Some (run_objs ?k ps, s1)" using split True by simp
    then show ?thesis unfolding h [symmetric] using ps l by blast
  next
    case False
    then have "?q \<noteq> card F" using assms(3) n s1(2) by (metis add_le_same_cancel1 le_zero_eq)
    then have "F - set ps \<noteq> {}"
      using \<open>?q \<le> card F\<close> s1(2) ps distinct_card [OF ps(1)] by (metis Diff_eq_empty_iff subset_antisym)
    moreover have "page_stock ?zs (smm s1) (F - set ps)" using s1(5,6) by (simp add: cache_ready_def)
    ultimately obtain p m where g: "grant_page ?zs (smm s1) = Some (p, m)" "p \<in> F - set ps"
      using pages.grants by blast
    obtain s2 where s2: "alloc_many cachep fl ?r s1 = Some (slab_objs ?k p ?r, s2)"
      using one_slab_part [OF s1(6), of p m ?r fl] g False L unfolding s1(4,5) by auto
    have h: "handed_out ?k (ps @ [p]) n = run_objs ?k ps @ slab_objs ?k p ?r"
      by (subst n, rule handed_out_part) (use L in \<open>simp add: less_imp_le\<close>)
    have "alloc_many cachep fl n s = Some (run_objs ?k ps @ slab_objs ?k p ?r, s2)" using split s2 by simp
    moreover have "n \<le> length (ps @ [p]) * ?L"
    proof -
      have "?r \<le> ?L" using L by (simp add: less_imp_le)
      moreover have "length (ps @ [p]) * ?L = length ps * ?L + ?L" by simp
      ultimately show ?thesis using n by linarith
    qed
    ultimately show ?thesis unfolding h [symmetric] using ps g(2)
      by (intro exI [of _ "ps @ [p]"] exI [of _ s2]) simp
  qed
qed

lemma serves_beyond:
  assumes "cache_ready cachep s F" "finite F" "card F * slab_last (caches s cachep) < n"
  shows "alloc_many cachep fl n s = None"
proof -
  from assms(3) obtain j where n: "n = card F * slab_last (caches s cachep) + Suc j"
    by (metis add_Suc_right less_imp_Suc_add)
  from full_slabs [OF assms(1) le_refl assms(2), of fl] obtain ps s1 where
      s1: "page_run (grant_page (zones0 s)) client_change (smm s) ps (smm s1)" "length ps = card F"
        "alloc_many cachep fl (card F * slab_last (caches s cachep)) s = Some (run_objs (caches s cachep) ps, s1)"
        "caches s1 = caches s" "zones0 s1 = zones0 s" "cache_ready cachep s1 (F - set ps)"
    by (elim exE conjE) (rule that)
  have "page_stock (zones0 s) (smm s) F" using assms(1) by (simp add: cache_ready_def)
  from pages.run_length(2) [OF s1(1) this assms(2) s1(2)] have "cache_ready cachep s1 {}" using s1(6) by simp
  then have "kmem_cache_alloc cachep fl s1 = None" by (rule cache_ready_empty)
  then show ?thesis unfolding n alloc_many_add s1(3) by simp
qed

section \<open>The properties\<close>

text \<open>
  C5: however many requests a cache gets, they take the objects of one slab after the other, each slab a
  different free page, the objects never overlap, and the requests succeed until every free page has served all
  its objects but one. The request after that finds no slab: the code goes on with the pointer \<open>-1\<close>.
\<close>

theorem cache_serves_until_exhausted:
  assumes "cache_ready cachep s F" and "finite F"
  shows "if n \<le> card F * slab_last (caches s cachep)
    then \<exists>ps s'. alloc_many cachep fl n s = Some (handed_out (caches s cachep) ps n, s')
       \<and> distinct ps \<and> set ps \<subseteq> F \<and> n \<le> length ps * slab_last (caches s cachep)
       \<and> sorted_wrt (clear_of (caches s cachep)) (handed_out (caches s cachep) ps n)
    else alloc_many cachep fl n s = None"
proof -
  have "one_page_cache (caches s cachep)" "F \<subseteq> {..<0x3FFFE}" using assms(1) by (simp_all add: cache_ready_def)
  then have "sorted_wrt (clear_of (caches s cachep)) (handed_out (caches s cachep) ps n)"
    if "distinct ps" "set ps \<subseteq> F" for ps using that by (intro handed_out_clear) auto
  then show ?thesis using serves_within [OF assms, of n fl] serves_beyond [OF assms, of n fl] by (auto simp: not_le)
qed

lemma demo_cache_ready: "cache_ready 0 demo_slabs {8..<16}"
  unfolding cache_ready_def
proof (intro conjI)
  show "one_page_cache (caches demo_slabs 0)"
    unfolding one_page_cache_def demo_slabs_simps(1) demo_slab_last by (simp add: demo_cache_def)
  have "all_free {1} eight_fl = {8..<16}" unfolding all_free_def using demo_eight_free by simp
  then show "page_stock (zones0 demo_slabs) (smm demo_slabs) {8..<16}"
    unfolding page_stock_def demo_slabs_simps using demo_eight_inv demo_eight_idle by auto
qed (use demo_slabs_simps(2) in auto)

theorem cache_serves_until_exhausted_witness:
  "(\<exists>ps s'. alloc_many 0 0 504 demo_slabs = Some (handed_out demo_cache ps 504, s') \<and> distinct ps \<and> set ps \<subseteq> {8..<16}
      \<and> sorted_wrt (clear_of demo_cache) (handed_out demo_cache ps 504))
   \<and> alloc_many 0 0 505 demo_slabs = None"
  using cache_serves_until_exhausted [OF demo_cache_ready, of 504 0] cache_serves_until_exhausted [OF demo_cache_ready, of 505 0]
  unfolding demo_slabs_simps(1) demo_slab_last by auto

end
