(* ===== verification/SlabShared.thy ===== *)
theory SlabShared
  imports SlabRun
begin

text \<open>
  A slab of two pages, as the static caches of \<open>slab.c\<close> have: \<open>__rmqueue\<close> has put the second page on the free list of
  order 0, and \<open>kmem_getpages\<close> writes its pointer to the first page over the list node of that page. What \<open>__rmqueue\<close> does with this
  list from then on.
\<close>

section \<open>A list that cannot be emptied\<close>

text \<open>
  The head of order 0 leads to the page \<open>q\<close>; neither that page nor the slot below the heads leads back to the head, and
  they lead to no list of others.
\<close>

definition stuck :: "nat \<Rightarrow> nat \<Rightarrow> mm \<Rightarrow> bool" where
  "stuck z q m \<longleftrightarrow> pcp_idle m \<and> nxt (lists m) (FreeHead z 0) = Lru q \<and> \<not> foreign (nxt (lists m) (Lru q))
     \<and> (\<forall>n \<in> {prev (lists m) (Lru q), prev (lists m) (FreeHead z (- 1))}. n \<noteq> FreeHead z 0 \<and> \<not> foreign n)"

lemma stuck_lists:
  assumes "nxt h H = L" "prev h L \<noteq> H" "prev h S \<noteq> H" "distinct [H, L, S]"
  defines "h' \<equiv> list_add_tail S L (list_del L h)"
  shows "nxt h' H = L" "prev h' L \<in> {prev h L, prev h S}" "prev h' S = L" "nxt h' L = S"
    and "x \<notin> {nxt h L, prev h L, prev h S, L, S} \<Longrightarrow> nxt h' x = nxt h x \<and> prev h' x = prev h x"
  using assms(1-4) by (auto simp: h'_def list_defs Let_def)

lemma stuck_rmqueue:
  assumes "stuck z q m"
  shows "\<exists>m'. rmqueue z 0 m = (PPage q, m') \<and> stuck z q m' \<and> others_kept m m'"
proof -
  let ?u = "unlinked z 0 0 q m" and ?h = "lists m"
  have s: "pcp_idle m" "nxt ?h (FreeHead z 0) = Lru q" "prev ?h (Lru q) \<noteq> FreeHead z 0" "prev ?h (FreeHead z (- 1)) \<noteq> FreeHead z 0"
      "\<not> foreign (nxt ?h (Lru q))" "\<not> foreign (prev ?h (Lru q))" "\<not> foreign (prev ?h (FreeHead z (- 1)))"
    using assms by (simp_all add: stuck_def)
  have "rmqueue z 0 m = (PPage q, expand_loop z q 0 0 0 1 ?u)"
    using s(2) by (simp add: rmqueue_def rmqueue_from.simps [of z 0 0] list_empty_def MAX_ORDER_def unlinked_def expand_def Let_def)
  also have "expand_loop z q 0 0 0 1 ?u = expand_round z q (- 1) 0 ?u"
    by (simp add: expand_loop_round [of z q 0] expand_loop_round [of z q 1])
  finally have r: "rmqueue z 0 m = (PPage q, expand_round z q (- 1) 0 ?u)" .
  have d: "distinct [FreeHead z 0, Lru q, FreeHead z (- 1)]" by simp
  note l = stuck_lists [OF s(2-4) d]
  have "stuck z q (expand_round z q (- 1) 0 ?u)"
    using l(1-4) s by (auto simp: stuck_def pcp_idle_def unlinked_def)
  moreover have "others_kept m (expand_round z q (- 1) 0 ?u)"
    unfolding others_kept_def
  proof (intro conjI allI impI)
    fix x assume "foreign x"
    with s(5-7) have "x \<notin> {nxt ?h (Lru q), prev ?h (Lru q), prev ?h (FreeHead z (- 1)), Lru q, FreeHead z (- 1)}" by auto
    from l(5) [OF this] show "prev (lists (expand_round z q (- 1) 0 ?u)) x = prev ?h x" "nxt (lists (expand_round z q (- 1) 0 ?u)) x = nxt ?h x"
      by simp_all
  qed (simp add: unlinked_def)
  ultimately show ?thesis using r by blast
qed

lemma stuck_grants:
  assumes "stuck z q m"
  shows "\<exists>m'. grant_page [z] m = Some (q, m') \<and> stuck z q m' \<and> others_kept m m'"
proof -
  have "pcp_idle m" using assms by (simp add: stuck_def)
  then show ?thesis using stuck_rmqueue [OF assms] by (auto simp: grant_page_def buffered_rmqueue_idle)
qed

lemma stuck_client: "stuck z q m \<Longrightarrow> client_change m m' \<Longrightarrow> stuck z q m'"
  by (simp add: stuck_def client_change_def pcp_idle_def)

lemma stuck_run:
  "page_run (grant_page [z]) client_change m ps m' \<Longrightarrow> stuck z q m \<Longrightarrow> set ps \<subseteq> {q} \<and> stuck z q m'"
proof (induction m ps m' rule: page_run.induct)
  case (run_page m p m1 m2 ps m3)
  then show ?case using stuck_grants [OF run_page.prems] stuck_client by auto
qed simp

lemma stuck_for_ever:
  assumes "stuck z q m"
  shows "\<exists>m'. page_run (grant_page [z]) client_change m (replicate n q) m'"
  using assms
proof (induction n arbitrary: m)
  case (Suc n)
  obtain m1 where m1: "grant_page [z] m = Some (q, m1)" "stuck z q m1" using stuck_grants [OF Suc.prems] by blast
  obtain m' where "page_run (grant_page [z]) client_change m1 (replicate n q) m'" using Suc.IH [OF m1(2)] by blast
  then have "page_run (grant_page [z]) client_change m (q # replicate n q) m'"
    by (rule run_page [where grant = "grant_page [z]", OF m1(1), rotated]) (simp add: client_change_def)
  then show ?case by auto
qed (auto intro: run_done)

section \<open>The lists after the first slab\<close>

lemma take_object_mm: "smm (snd (take_object c s)) = smm s"
  by (simp add: take_object_def Let_def clear_frozen_def set_pobjects_def upd_cpu_def set_word_def)

lemma getpages_two_lists:
  assumes "alloc_pages 0 (Suc 0) (zones0 s) (smm s) = (PPage p, m)" "kc_cache_order (caches s c) = 1"
    and "kmem_getpages c g s = Some (q, s')"
  shows "q = p \<and> lists (smm s') = set_prev (Lru (Suc p)) (PageN p) (lists m) \<and> zones (smm s') = zones m"
  using assms by (auto simp: kmem_getpages_def Let_def on_mm_def set_next_def numeral_2_eq_2 upt_rec)

lemma new_slab_mm:
  assumes "new_slab c g s = Some (p, s')"
  shows "\<exists>s1. kmem_getpages c (kc_cache_order (caches s c)) s = Some (p, s1)
    \<and> lists (smm s') = lists (smm s1) \<and> zones (smm s') = zones (smm s1)"
  using assms by (auto simp: new_slab_def Let_def on_mm_def upd_cpu_def split: Option.bind_splits)

text \<open>What an order-1 request leaves, when the block is split down to the pair.\<close>

lemma rmqueue_pair:
  assumes inv: "alloc_inv m Z fl" "z \<in> Z" and h: "1 \<le> h" "h < MAX_ORDER" "fl z h = p # ps"
    and low: "\<forall>i<h. fl z i = []"
  shows "\<exists>m'. rmqueue z 1 m = (PPage p, m') \<and> nxt (lists m') (FreeHead z 0) = Lru (Suc p)
    \<and> nxt (lists m') (Lru (Suc p)) = FreeHead z 0
    \<and> prev (lists m') (FreeHead z (- 1)) \<noteq> FreeHead z 0 \<and> \<not> foreign (prev (lists m') (FreeHead z (- 1)))"
proof -
  obtain m' fl' where m': "rmqueue z (Suc 0) m = (PPage p, m')" "family Listhead.ring (flI Z) flH (lists m') (flL fl')"
      "fl' z 0 = fl z 0 @ [p + 2 ^ 0]"
    using rmqueue_upper_half_listed [OF inv, of 0 h p ps] h low by auto
  then have "Listhead.ring (lists m') (FreeHead z 0) [Lru (Suc p)]"
    using family_rep [OF m'(2), of "(z, 0)"] inv(2) h low by (simp add: flI_def MAX_ORDER_def)
  then have n: "nxt (lists m') (FreeHead z 0) = Lru (Suc p)" "nxt (lists m') (Lru (Suc p)) = FreeHead z 0"
    by (simp_all add: Listhead.ring_def)
  have "expand_post z Z (set_fl fl z h ps) p h (Suc h - Suc 0) (unlinked z (Suc 0) h p m) m'"
    using rmqueue_post [OF inv, of "Suc 0" h p ps] h low m'(1) by auto
  then have "prev (lists m') (FreeHead z (- 1)) = prev (list_del (Lru p) (lists m)) (FreeHead z (- 1))"
    by (simp add: expand_post_def)
  also have "\<dots> = prev (lists m) (FreeHead z (- 1))"
    using ring_neighbours_own(3) [OF inv h(2), of p] ring_neighbours_own(4) [OF inv h(2), of p "- 1"] h(3) by (intro list_del_frame) auto
  finally have "prev (lists m') (FreeHead z (- 1)) \<noteq> FreeHead z 0 \<and> \<not> foreign (prev (lists m') (FreeHead z (- 1)))"
    using inv by (auto simp: alloc_inv_def slot_ok_def)
  with n m'(1) show ?thesis by auto
qed

text \<open>A request to a cache changes its own processor's structure, and no other cache.\<close>

lemma take_object_frame:
  "caches (snd (take_object c s)) = caches s" "zones0 (snd (take_object c s)) = zones0 s"
  "kmalloc_small (snd (take_object c s)) = kmalloc_small s"
  "x \<noteq> cpu_of c s \<Longrightarrow> cpus (snd (take_object c s)) x = cpus s x"
  by (simp_all add: take_object_def Let_def clear_frozen_def set_pobjects_def upd_cpu_def set_word_def cpu_of_def)

lemma mark_slab_pages_sizes: "kmalloc_small (mark_slab_pages c p is s) = kmalloc_small s"
  by (induction "is" arbitrary: s) (simp_all add: on_mm_def set_next_def Let_def)

lemma new_slab_sizes: "new_slab c g s = Some (p, s') \<Longrightarrow> kmalloc_small s' = kmalloc_small s"
  by (auto simp: new_slab_def kmem_getpages_def Let_def on_mm_def upd_cpu_def mark_slab_pages_sizes
      split: Option.bind_splits prod.splits pgptr.splits)

definition other_caches :: "u32 \<Rightarrow> slabs \<Rightarrow> slabs \<Rightarrow> bool" where
  "other_caches c s s' \<longleftrightarrow> caches s' = caches s \<and> zones0 s' = zones0 s \<and> kmalloc_small s' = kmalloc_small s
     \<and> (\<forall>d. cpu_of d s \<noteq> cpu_of c s \<longrightarrow> cache_empty d s \<longrightarrow> cache_empty d s')"

lemma first_request:
  assumes c: "cache_empty c s" "slab_room (caches s c) p" "1 < slab_last (caches s c)"
    and a: "alloc_pages 0 (unat (kc_cache_order (caches s c))) (zones0 s) (smm s) = (PPage p, m)"
    and n: "new_slab c g s = Some (p, s1)" and o: "\<And>x. foreign x \<Longrightarrow> prev (lists (smm s1)) x = prev (lists (smm s)) x \<and> nxt (lists (smm s1)) x = nxt (lists (smm s)) x"
  shows "\<exists>s'. kmem_cache_alloc c g s = Some (page_address p, s') \<and> smm s' = smm s1 \<and> other_caches c s s'"
proof -
  let ?s3 = "upd_cpu (cpu_of c s1) (\<lambda>x. x\<lparr>cpage := Some p\<rparr>) s1"
  have k: "kmem_cache_alloc c g s = Some (take_object c ?s3)"
    using c(1) n by (simp add: kmem_cache_alloc_def cache_empty_def my_cpu_def seeknode_def cpu_of_def)
  obtain s' where "alloc_many c g (Suc 0) s = Some (slab_objs (caches s c) p (Suc 0), s')"
    using slab_part [OF c(1) a c(2), of "Suc 0" g] c(3) by auto
  then have "fst (take_object c ?s3) = page_address p" using k by (auto simp: slab_objs_def split: prod.splits)
  moreover have f: "caches s1 = caches s" "zones0 s1 = zones0 s" "\<And>x. x \<noteq> cpu_of c s \<Longrightarrow> cpus s1 x = cpus s x"
    using new_slab_some [OF a c(2), of g] n by auto
  then have f3: "cpu_of c ?s3 = cpu_of c s" "caches ?s3 = caches s" "zones0 ?s3 = zones0 s" "kmalloc_small ?s3 = kmalloc_small s"
      "\<And>x. x \<noteq> cpu_of c s \<Longrightarrow> cpus ?s3 x = cpus s x" "smm ?s3 = smm s1"
    using new_slab_sizes [OF n] by (simp_all add: upd_cpu_def cpu_of_def)
  define t where "t = snd (take_object c ?s3)"
  have t: "caches t = caches s" "zones0 t = zones0 s" "kmalloc_small t = kmalloc_small s" "smm t = smm s1"
      "\<And>x. x \<noteq> cpu_of c s \<Longrightarrow> cpus t x = cpus s x"
    using f3 take_object_frame [where c = c and s = "?s3"] by (simp_all add: t_def take_object_mm)
  have "other_caches c s t"
    unfolding other_caches_def using t(1-3)
    by (auto simp: cache_empty_def my_cpu_def cpu_of_def t(4,5) list_empty_def o)
  ultimately show ?thesis using k t(4) by (intro exI [of _ t]) (simp add: t_def prod_eq_iff)
qed

lemma first_pair_stuck:
  assumes inv: "alloc_inv (smm s) Z fl" "z \<in> Z" and h: "1 \<le> h" "h < MAX_ORDER" "fl z h = p # ps" "\<forall>i<h. fl z i = []"
    and idle: "pcp_idle (smm s)" and zs: "zones0 s = [z]"
    and c: "cache_empty c s" "kc_cache_order (caches s c) = 1" "slab_room (caches s c) p" "1 < slab_last (caches s c)"
  shows "\<exists>m s'. alloc_pages 0 (unat (kc_cache_order (caches s c))) (zones0 s) (smm s) = (PPage p, m)
    \<and> kmem_cache_alloc c g s = Some (page_address p, s') \<and> stuck z (Suc p) (smm s') \<and> other_caches c s s'"
proof -
  obtain m where m: "rmqueue z 1 (smm s) = (PPage p, m)" "nxt (lists m) (FreeHead z 0) = Lru (Suc p)"
      "nxt (lists m) (Lru (Suc p)) = FreeHead z 0"
      "prev (lists m) (FreeHead z (- 1)) \<noteq> FreeHead z 0" "\<not> foreign (prev (lists m) (FreeHead z (- 1)))"
    using rmqueue_pair [OF inv h] by blast
  then have a: "alloc_pages 0 (Suc 0) (zones0 s) (smm s) = (PPage p, m)" by (simp add: zs buffered_rmqueue_def)
  then have a': "alloc_pages 0 (unat (kc_cache_order (caches s c))) (zones0 s) (smm s) = (PPage p, m)" by (simp add: c(2))
  obtain s1 where s1: "new_slab c g s = Some (p, s1)" using new_slab_some [OF a' c(3)] by blast
  obtain s2 where s2: "kmem_getpages c (kc_cache_order (caches s c)) s = Some (p, s2)"
      "lists (smm s1) = lists (smm s2)" "zones (smm s1) = zones (smm s2)"
    using new_slab_mm [OF s1] by blast
  have l: "lists (smm s1) = set_prev (Lru (Suc p)) (PageN p) (lists m)" "zones (smm s1) = zones m"
    using getpages_two_lists [OF a c(2) s2(1)] s2(2,3) by simp_all
  have k: "others_kept (smm s) m"
    using rmqueue_hit_others [OF inv, of 1 h p ps] h m(1) by simp
  then have "pcp_idle m" using idle by (rule others_kept_idle)
  then have st: "stuck z (Suc p) (smm s1)" using m(2-5) l by (simp add: stuck_def set_prev_def pcp_idle_def)
  have "prev (lists (smm s1)) x = prev (lists (smm s)) x \<and> nxt (lists (smm s1)) x = nxt (lists (smm s)) x" if "foreign x" for x
    using k that by (auto simp: l(1) others_kept_def set_prev_def)
  from first_request [OF c(1,3,4) a' s1 this] st a' show ?thesis by auto
qed

text \<open>A cache with slabs of one page gets the page that the list is stuck at.\<close>

lemma stuck_request:
  assumes st: "stuck z q (smm s)" "zones0 s = [z]" and q: "q < 0x3FFFE"
    and c: "cache_empty c s" "one_page_cache (caches s c)" "1 < slab_last (caches s c)"
  shows "\<exists>s'. kmem_cache_alloc c g s = Some (page_address q, s') \<and> stuck z q (smm s') \<and> other_caches c s s'"
proof -
  have o: "kc_cache_order (caches s c) = 0" and r: "slab_room (caches s c) q"
    using c(2) lowmem_slab_room [OF c(2) q] by (simp_all add: one_page_cache_def)
  obtain m where m: "grant_page [z] (smm s) = Some (q, m)" "stuck z q m" "others_kept (smm s) m"
    using stuck_grants [OF st(1)] by blast
  then have a: "alloc_pages 0 (unat (kc_cache_order (caches s c))) (zones0 s) (smm s) = (PPage q, m)"
    by (auto simp: grant_page_def o st(2) split: prod.splits pgptr.splits)
  obtain s1 where s1: "new_slab c g s = Some (q, s1)" "descs_only m (smm s1)"
    using new_slab_some [OF a r, of g] o by blast
  have "prev (lists (smm s1)) x = prev (lists (smm s)) x \<and> nxt (lists (smm s1)) x = nxt (lists (smm s)) x" if "foreign x" for x
    using m(3) s1(2) that by (simp add: others_kept_def descs_only_def)
  from first_request [OF c(1) r c(3) a s1(1) this] stuck_client [OF m(2) descs_only_client [OF s1(2)]] show ?thesis by auto
qed

lemma last_object_second_page:
  assumes room: "slab_room k p" and k: "kc_cache_order k = 1" "3 * unat (kc_object_size k) \<le> 4096"
  shows "1 < slab_last k" and "\<exists>a \<in> set (slab_objs k p (slab_last k)). unat (page_address p) + 4096 \<le> unat a"
proof -
  let ?o = "unat (kc_object_size k)" and ?L = "slab_last k"
  have b: "8192 \<le> unat (kc_offset k) + Suc ?L * ?o" "unat (kc_offset k) < ?o"
    using slab_last_bounds(2) [OF room] room by (simp_all add: slab_bytes_def slab_room_def k(1))
  have "\<not> ?L \<le> 1"
  proof
    assume "?L \<le> 1"
    then have "?L * ?o \<le> 1 * ?o" by (rule mult_right_mono) simp
    with b k(2) show False by simp
  qed
  then show L: "1 < ?L" by simp
  then obtain j where j: "?L = Suc j" by (cases ?L) auto
  have a: "unat (slab_objs k p ?L ! j) = unat (page_address p) + j * ?o"
    using objs_apart_slab [OF room, of ?L] by (simp add: objs_apart_def j)
  have "Suc ?L * ?o = j * ?o + 2 * ?o" by (simp add: j)
  then have "4096 \<le> j * ?o" using b k(2) by simp
  moreover have "slab_objs k p ?L ! j \<in> set (slab_objs k p ?L)" by (rule nth_mem) (simp add: slab_objs_def j)
  ultimately show "\<exists>a \<in> set (slab_objs k p ?L). unat (page_address p) + 4096 \<le> unat a" using a by (intro bexI) simp_all
qed

section \<open>The properties\<close>


definition demo_two :: slabs where
  "demo_two = demo_slabs\<lparr>caches := (\<lambda>k. demo_cache\<lparr>kc_cache_order := 1\<rparr>)\<rparr>"


text \<open>A cache that has served nothing yet, with slabs of one page for three objects or more.\<close>

definition fresh_cache :: "slabs \<Rightarrow> u32 \<Rightarrow> bool" where
  "fresh_cache s d \<longleftrightarrow> cache_empty d s \<and> one_page_cache (caches s d) \<and> 1 < slab_last (caches s d)"

lemma fresh_cache_other: "fresh_cache s d \<Longrightarrow> other_caches c s s' \<Longrightarrow> cpu_of d s \<noteq> cpu_of c s \<Longrightarrow> fresh_cache s' d"
  by (simp add: fresh_cache_def other_caches_def)

text \<open>What this does to \<open>kmalloc\<close>: the first requests of two size classes.\<close>

lemma stuck_kmalloc:
  assumes st: "stuck z q (smm s)" "zones0 s = [z]" "q < 0x3FFFE" and sz: "m < PAGE_SIZE" "n < PAGE_SIZE"
    and f: "fresh_cache s (kmalloc_small s (get_order m))" "fresh_cache s (kmalloc_small s (get_order n))"
    and ne: "cpu_of (kmalloc_small s (get_order n)) s \<noteq> cpu_of (kmalloc_small s (get_order m)) s"
  shows "\<exists>s1 s2. kmalloc m s = Some (page_address q, s1) \<and> kmalloc n s1 = Some (page_address q, s2)"
proof -
  let ?d = "kmalloc_small s (get_order m)" and ?e = "kmalloc_small s (get_order n)"
  obtain s1 where s1: "kmem_cache_alloc ?d 0 s = Some (page_address q, s1)" "stuck z q (smm s1)" "other_caches ?d s s1"
    using stuck_request [OF st, of ?d 0] f(1) by (auto simp: fresh_cache_def)
  note o = s1(3) [unfolded other_caches_def]
  have "fresh_cache s1 ?e" by (rule fresh_cache_other [OF f(2) s1(3) ne])
  then obtain s2 where "kmem_cache_alloc ?e 0 s1 = Some (page_address q, s2)"
    using stuck_request [OF s1(2) _ st(3), of ?e 0] o st(2) by (auto simp: fresh_cache_def)
  then show ?thesis using s1(1) o sz by (simp add: kmalloc_def)
qed

end
