(* ===== verification/SlabCreate.thy ===== *)
theory SlabCreate
  imports SlabRun FormatProps
begin

text \<open>
  Creating caches: what \<open>init_kmem_cache\<close> and \<open>kmem_cache_create\<close> leave, up to the objects a new cache
  hands out.
\<close>

section \<open>Names\<close>

text \<open>A name is used as a format; without a percent sign it is copied.\<close>

lemma format_plain:
  "asc CHR ''%'' \<notin> set fmt \<Longrightarrow> format_loop buf lim fmt args mp = Some (args, puts buf lim fmt mp)"
  by (induction fmt arbitrary: mp) (auto simp: puts_def)

text \<open>The name as a string of at most 31 characters at the address \<open>p\<close>.\<close>

definition named :: "mem \<Rightarrow> u32 \<Rightarrow> u8 list \<Rightarrow> bool" where
  "named m p nm \<longleftrightarrow> (\<forall>i < min (length nm) 31. m (p + of_nat i) = nm ! i) \<and> m (p + of_nat (min (length nm) 31)) = 0"

lemma set_name_plain:
  assumes "asc CHR ''%'' \<notin> set nm" "k + 72 \<noteq> 0" "in_memory (k + 72) (32 :: u32)" "unat (k + 72) + length nm < 4294967296"
  shows "\<exists>m. set_name k nm s = Some (s\<lparr>nbytes := m\<rparr>) \<and> named m (k + 72) nm \<and> (\<forall>x. 32 \<le> x - (k + 72) \<longrightarrow> m x = nbytes s x)"
  using vsnprintf_puts [OF assms(2,3) format_plain [OF assms(1)], of "[]" "nbytes s"] assms(4)
  by (auto simp: set_name_def sprintf_def named_def)

section \<open>One object from a cache that has some\<close>

definition has_objects :: "u32 \<Rightarrow> slabs \<Rightarrow> u32 list \<Rightarrow> bool" where
  "has_objects k s xs \<longleftrightarrow> cpage (my_cpu k s) \<noteq> None \<and> wchain (wds s) (freelist (my_cpu k s)) xs \<and> 3 \<le> length xs"

lemma has_objects_alloc:
  assumes "has_objects k s xs"
  shows "kmem_cache_alloc k fl s
    = Some (hd xs - kc_offset (caches s k), upd_cpu (cpu_of k s) (\<lambda>x. x\<lparr>freelist := hd (tl xs)\<rparr>) s)"
proof -
  obtain a b c r where l: "xs = a # b # c # r"
    using assms by (cases xs; cases "tl xs"; cases "tl (tl xs)") (auto simp: has_objects_def)
  obtain p where "cpage (my_cpu k s) = Some p" using assms by (auto simp: has_objects_def)
  then show ?thesis
    using assms take_object_more [of s k a b c r] by (simp add: kmem_cache_alloc_current has_objects_def l)
qed

section \<open>A new cache\<close>

lemma list_add_foreign:
  assumes "Listhead.ring h CacheListHead (map CacheHead ks)" "\<not> foreign x"
  shows "prev (list_add CacheListHead (CacheHead d) h) x = prev h x" "nxt (list_add CacheListHead (CacheHead d) h) x = nxt h x"
proof -
  have "foreign (nxt h CacheListHead)" using ring_nxt [OF assms(1)] by (cases ks) auto
  with assms(2) have "x \<notin> {CacheHead d, CacheListHead}" "x \<notin> {CacheHead d, nxt h CacheListHead}" by auto
  then show "prev (list_add CacheListHead (CacheHead d) h) x = prev h x" "nxt (list_add CacheListHead (CacheHead d) h) x = nxt h x"
    by (simp_all add: list_add_def list_add_between_frame)
qed

lemma list_add_partial:
  assumes "Listhead.ring h CacheListHead (map CacheHead ks)"
  shows "list_empty (NodePartial n) (list_add CacheListHead (CacheHead d) h) = list_empty (NodePartial n) h"
proof -
  have "nxt h CacheListHead \<noteq> NodePartial n" using ring_nxt [OF assms] by (cases ks) auto
  then show ?thesis by (simp add: list_empty_def list_add_def list_add_between_def set_prev_def set_nxt_def)
qed

lemma init_list_ring_other: "Listhead.ring h p xs \<Longrightarrow> n \<notin> set (p # xs) \<Longrightarrow> Listhead.ring (init_list n h) p xs"
  by (rule ring_frame) (auto simp: init_list_def set_prev_def set_nxt_def)

text \<open>The list changes of \<open>kmem_cache_create\<close>.\<close>

lemma register_cache:
  fixes n :: u32
  assumes r: "Listhead.ring (lists m) CacheListHead (map CacheHead ks)" and d: "d \<notin> set ks"
  defines "m' \<equiv> on_lists (list_add CacheListHead (CacheHead d)) (on_lists (init_list (NodePartial n)) m)"
  shows "client_change m m'" and "Listhead.ring (lists m') CacheListHead (map CacheHead (d # ks))"
    and "list_empty (NodePartial n) (lists m')"
proof -
  have r1: "Listhead.ring (init_list (NodePartial n) (lists m)) CacheListHead (map CacheHead ks)"
    using r by (rule init_list_ring_other) auto
  then show "Listhead.ring (lists m') CacheListHead (map CacheHead (d # ks))"
    unfolding m'_def using list_add_ring [OF r1, of "CacheHead d"] d by auto
  show "client_change m m'"
    unfolding client_change_def m'_def using list_add_foreign [OF r1]
    by (auto simp: init_list_def set_prev_def set_nxt_def)
  show "list_empty (NodePartial n) (lists m')"
    unfolding m'_def on_lists_simps list_add_partial [OF r1] by (simp add: init_list_def set_prev_def set_nxt_def list_empty_def)
qed

text \<open>The three caches that the creation of a cache takes objects from are apart from what it writes.\<close>

definition static_caches_ready :: "slabs \<Rightarrow> u32 list \<Rightarrow> u32 list \<Rightarrow> u32 list \<Rightarrow> bool" where
  "static_caches_ready s xs ys zs \<longleftrightarrow>
     (let A = kmem_cache_cache (statics s); B = kmem_cache_cpu_cache (statics s); C = kmem_cache_node_cache (statics s) in
        has_objects A s xs \<and> has_objects B s ys \<and> has_objects C s zs
      \<and> distinct [A, B, C, hd xs - kc_offset (caches s A)]
      \<and> distinct [cpu_of A s, cpu_of B s, cpu_of C s, hd ys - kc_offset (caches s B)])"

text \<open>The address of the new cache, and where its name fits.\<close>

definition new_desc :: "slabs \<Rightarrow> u32 list \<Rightarrow> u32" where
  "new_desc s xs = hd xs - kc_offset (caches s (kmem_cache_cache (statics s)))"

definition name_fits :: "u32 \<Rightarrow> u8 list \<Rightarrow> bool" where
  "name_fits d nm \<longleftrightarrow> asc CHR ''%'' \<notin> set nm \<and> d + 72 \<noteq> 0 \<and> in_memory (d + 72) (32 :: u32) \<and> unat (d + 72) + length nm < 4294967296"

lemma kmem_cache_create_spec:
  assumes ready: "static_caches_ready s xs ys zs"
    and r: "Listhead.ring (lists (smm s)) CacheListHead (map CacheHead ks)"
  defines "desc \<equiv> new_desc s xs"
    and "cpu \<equiv> hd ys - kc_offset (caches s (kmem_cache_cpu_cache (statics s)))"
    and "node \<equiv> hd zs - kc_offset (caches s (kmem_cache_node_cache (statics s)))"
  assumes d: "desc \<notin> set ks" and nm: "name_fits desc nm"
  shows "\<exists>s'. kmem_cache_create (Some nm) sz align fl ord ctor s = Some (desc, s')
    \<and> (kc_offset (caches s' desc), kc_object_size (caches s' desc)) = slab_layout sz align
    \<and> kc_size (caches s' desc) = sz \<and> kc_cache_order (caches s' desc) = ord \<and> kc_ctor (caches s' desc) = ctor
    \<and> kc_cpu_slab (caches s' desc) = cpu \<and> kc_node (caches s' desc) = node
    \<and> 5 \<le> kc_min_partial (caches s' desc) \<and> kc_min_partial (caches s' desc) \<le> 10
    \<and> (\<forall>k. k \<noteq> desc \<longrightarrow> caches s' k = caches s k)
    \<and> cache_empty desc s' \<and> client_change (smm s) (smm s') \<and> zones0 s' = zones0 s \<and> wds s' = wds s
    \<and> Listhead.ring (lists (smm s')) CacheListHead (map CacheHead (desc # ks)) \<and> named (nbytes s') (desc + 72) nm"
proof -
  let ?A = "kmem_cache_cache (statics s)" and ?B = "kmem_cache_cpu_cache (statics s)" and ?C = "kmem_cache_node_cache (statics s)"
  have sup: "has_objects ?A s xs" "has_objects ?B s ys" "has_objects ?C s zs"
    and ne: "distinct [?A, ?B, ?C, desc]" "distinct [cpu_of ?A s, cpu_of ?B s, cpu_of ?C s, cpu]"
    using ready by (simp_all add: static_caches_ready_def Let_def desc_def new_desc_def cpu_def)
  define s1 where "s1 = upd_cache desc (\<lambda>k. k\<lparr>kc_allocflags := fl, kc_ctor := ctor\<rparr>)
    (upd_cpu (cpu_of ?A s) (\<lambda>x. x\<lparr>freelist := hd (tl xs)\<rparr>) s)"
  obtain m where m: "set_name desc nm s1 = Some (s1\<lparr>nbytes := m\<rparr>)" "named m (desc + 72) nm"
    using set_name_plain [of nm desc s1] nm by (auto simp: name_fits_def)
  define s3 where "s3 = upd_cache desc (\<lambda>k. set_min_partial (word_of_int (ilog2 False sz sdiv 2))
    (set_cpu_partial (set_layout sz align k\<lparr>kc_cache_order := ord\<rparr>))) (s1\<lparr>nbytes := m\<rparr>)"
  have s3: "statics s3 = statics s" "wds s3 = wds s" "smm s3 = smm s" "zones0 s3 = zones0 s" "nbytes s3 = m"
      "\<And>k. k \<noteq> desc \<Longrightarrow> caches s3 k = caches s k"
      "cpus s3 = (cpus s)(cpu_of ?A s := (cpus s (cpu_of ?A s))\<lparr>freelist := hd (tl xs)\<rparr>)"
    by (simp_all add: s3_def s1_def upd_cache_def upd_cpu_def)
  have k3: "kc_offset (caches s3 desc) = fst (slab_layout sz align)" "kc_object_size (caches s3 desc) = snd (slab_layout sz align)"
      "kc_size (caches s3 desc) = sz" "kc_cache_order (caches s3 desc) = ord" "kc_ctor (caches s3 desc) = ctor"
      "5 \<le> kc_min_partial (caches s3 desc)" "kc_min_partial (caches s3 desc) \<le> 10"
    by (simp_all add: s3_def s1_def upd_cache_def set_min_partial_def set_cpu_partial_def set_layout_def split_beta
        MIN_PARTIAL_def MAX_PARTIAL_def linorder_not_less)
  have n: "?B \<noteq> desc" "?C \<noteq> desc" "cpu_of ?B s \<noteq> cpu_of ?A s" "cpu_of ?C s \<notin> {cpu_of ?A s, cpu_of ?B s, cpu}"
      "cpu \<noteq> cpu_of ?C s"
    using ne by auto
  have B3: "cpu_of ?B s3 = cpu_of ?B s" using s3(6) [OF n(1)] by (simp add: cpu_of_def)
  then have "my_cpu ?B s3 = my_cpu ?B s" using s3(7) n(3) by (simp add: my_cpu_def)
  then have "has_objects ?B s3 ys" using sup(2) by (simp add: has_objects_def s3(2))
  from has_objects_alloc [OF this, of fl] have a2: "kmem_cache_alloc ?B fl s3 = Some (cpu, upd_cpu (cpu_of ?B s) (\<lambda>x. x\<lparr>freelist := hd (tl ys)\<rparr>) s3)"
    using s3(6) [OF n(1)] B3 by (simp add: cpu_def)
  define s4 where "s4 = upd_cpu cpu (\<lambda>x. x\<lparr>freelist := 0, cpage := None, cpartial := None\<rparr>) (upd_cache desc (\<lambda>k. k\<lparr>kc_cpu_slab := cpu\<rparr>)
    (upd_cpu (cpu_of ?B s) (\<lambda>x. x\<lparr>freelist := hd (tl ys)\<rparr>) s3))"
  have i4: "init_cpu_slub desc fl s3 = Some s4" using a2 s3(1) by (simp add: init_cpu_slub_def s4_def)
  have s4: "statics s4 = statics s" "wds s4 = wds s" "smm s4 = smm s" "zones0 s4 = zones0 s" "nbytes s4 = m"
      "\<And>k. k \<noteq> desc \<Longrightarrow> caches s4 k = caches s k" "caches s4 desc = (caches s3 desc)\<lparr>kc_cpu_slab := cpu\<rparr>"
      "\<And>c. c \<notin> {cpu_of ?A s, cpu_of ?B s, cpu} \<Longrightarrow> cpus s4 c = cpus s c"
      "cpage (cpus s4 cpu) = None" "cpartial (cpus s4 cpu) = None"
    by (simp_all add: s4_def s3(1-6) upd_cache_def upd_cpu_def) (simp add: s3(7))
  have C4: "cpu_of ?C s4 = cpu_of ?C s" using s4(6) [OF n(2)] by (simp add: cpu_of_def)
  then have "my_cpu ?C s4 = my_cpu ?C s" using s4(8) [OF n(4)] by (simp add: my_cpu_def)
  then have "has_objects ?C s4 zs" using sup(3) by (simp add: has_objects_def s4(2))
  from has_objects_alloc [OF this, of fl] have a3: "kmem_cache_alloc ?C fl s4 = Some (node, upd_cpu (cpu_of ?C s) (\<lambda>x. x\<lparr>freelist := hd (tl zs)\<rparr>) s4)"
    using s4(6) [OF n(2)] C4 by (simp add: node_def)
  define s5 where "s5 = upd_cache desc (\<lambda>k. k\<lparr>kc_node := node\<rparr>) (upd_cpu (cpu_of ?C s) (\<lambda>x. x\<lparr>freelist := hd (tl zs)\<rparr>) s4)"
  define s6 where "s6 = on_mm (on_lists (list_add CacheListHead (CacheHead desc)))
    ((on_mm (on_lists (init_list (NodePartial node))) s5)\<lparr>nr_partial := (nr_partial s5)(node := 0)\<rparr>)"
  have "kmem_cache_create (Some nm) sz align fl ord ctor s = Some (desc, s6)"
    using has_objects_alloc [OF sup(1), of fl] m(1) i4 a3 s4(1)
    by (simp add: kmem_cache_create_def s1_def [symmetric] s3_def [symmetric] init_pernode_slab_def s5_def [symmetric] s6_def desc_def [symmetric] new_desc_def [symmetric] on_mm_def Let_def)
  moreover have s6: "smm s6 = on_lists (list_add CacheListHead (CacheHead desc)) (on_lists (init_list (NodePartial node)) (smm s))"
      "zones0 s6 = zones0 s" "wds s6 = wds s" "nbytes s6 = m" "\<And>k. k \<noteq> desc \<Longrightarrow> caches s6 k = caches s k"
      "caches s6 desc = (caches s3 desc)\<lparr>kc_cpu_slab := cpu, kc_node := node\<rparr>"
      "cpage (cpus s6 cpu) = None" "cpartial (cpus s6 cpu) = None"
    using n(5) by (simp_all add: s6_def s5_def s4 on_mm_def upd_cache_def upd_cpu_def)
  moreover note register_cache [OF r d, of node, folded s6(1)]
  ultimately show ?thesis
    using k3 m(2) by (intro exI [of _ s6]) (simp add: cache_empty_def my_cpu_def cpu_of_def)
qed

section \<open>A new cache serves requests\<close>

lemma new_cache_layout:
  assumes "2 * unat sz + 2 ^ a + 10 \<le> 4096"
    and "(kc_offset k, kc_object_size k) = slab_layout sz (2 ^ a)" and "kc_cache_order k = 0"
  shows "one_page_cache k" and "unat sz \<le> unat (kc_object_size k)"
    and "4096 \<le> (slab_last k + 2) * (unat sz + 2 ^ a + 7)"
proof -
  have l: "unat sz \<le> unat (kc_offset k)" "unat (kc_offset k) < unat sz + 4"
      "unat (kc_offset k) + 4 \<le> unat (kc_object_size k)" "unat (kc_object_size k) < unat (kc_offset k) + 4 + 2 ^ a"
    using slab_layout_correct [of sz a] assms(1) unfolding assms(2) [symmetric] by simp_all
  have "unat (kc_object_size k) \<le> 4096 - Suc (unat (kc_offset k))" using l assms(1) by simp
  then have "0 < slab_last k" using l by (simp add: slab_last_def slab_bytes_def assms(3) div_greater_zero_iff)
  moreover have "kc_offset k < kc_object_size k" using l by (simp add: word_less_nat_alt)
  ultimately show one: "one_page_cache k" using l assms(1,3) by (simp add: one_page_cache_def)
  show "unat sz \<le> unat (kc_object_size k)" using l by simp
  have "4096 \<le> unat (kc_offset k) + Suc (slab_last k) * unat (kc_object_size k)"
    using slab_last_bounds(2) [OF lowmem_slab_room [OF one, of 0]] by (simp add: slab_bytes_def assms(3))
  also have "\<dots> \<le> (unat sz + 2 ^ a + 7) + Suc (slab_last k) * (unat sz + 2 ^ a + 7)"
    using l by (intro add_mono mult_left_mono) simp_all
  finally show "4096 \<le> (slab_last k + 2) * (unat sz + 2 ^ a + 7)" by (simp add: algebra_simps)
qed

text \<open>Objects of \<open>n\<close> bytes: apart, and each in a page of \<open>F\<close>.\<close>

definition objects_of :: "nat \<Rightarrow> nat set \<Rightarrow> u32 list \<Rightarrow> bool" where
  "objects_of n F os \<longleftrightarrow> sorted_wrt (\<lambda>a b. unat a + n \<le> unat b \<or> unat b + n \<le> unat a) os
     \<and> (\<forall>a \<in> set os. \<exists>p \<in> F. 4096 * p + 0xC0000000 \<le> unat a \<and> unat a + n \<le> 4096 * p + 0xC0000000 + 4096)"

lemma handed_out_objects:
  assumes k: "one_page_cache k" "n \<le> unat (kc_object_size k)" and ps: "distinct ps" "set ps \<subseteq> F" "F \<subseteq> {..<0x3FFFE}"
  shows "objects_of n F (handed_out k ps m)"
  unfolding objects_of_def
proof
  have "sorted_wrt (clear_of k) (handed_out k ps m)" by (rule handed_out_clear) (use k ps in auto)
  then show "sorted_wrt (\<lambda>a b. unat a + n \<le> unat b \<or> unat b + n \<le> unat a) (handed_out k ps m)"
    by (rule sorted_wrt_mono_rel [rotated]) (use k(2) in \<open>auto simp: clear_of_def\<close>)
  show "\<forall>a \<in> set (handed_out k ps m). \<exists>p \<in> F. 4096 * p + 0xC0000000 \<le> unat a \<and> unat a + n \<le> 4096 * p + 0xC0000000 + 4096"
  proof
    fix a assume "a \<in> set (handed_out k ps m)"
    then obtain p where p: "p \<in> set ps" "a \<in> set (slab_objs k p (slab_last k))"
      unfolding handed_out_def using set_take_subset by fastforce
    moreover have "p \<in> F" using p(1) ps(2) by blast
    moreover have "p < 0x3FFFE" using \<open>p \<in> F\<close> ps(3) by auto
    ultimately show "\<exists>p \<in> F. 4096 * p + 0xC0000000 \<le> unat a \<and> unat a + n \<le> 4096 * p + 0xC0000000 + 4096"
      using slab_objs_unat [OF k(1), of p a] k(2) by (intro bexI [of _ p]) simp_all
  qed
qed

section \<open>The property\<close>

text \<open>
  C7: a cache made by \<open>kmem_cache_create\<close> keeps its promise to the caller. With slabs of one page and objects small enough
  for two of them to fit, it serves requests until every free page is used up, each page for at least the number of
  objects that the layout admits less one; the objects have the size asked for, lie in different places of pages that
  were free, and do not overlap. The request after the last one finds no slab.
\<close>

theorem created_cache_serves:
  assumes "static_caches_ready s xs ys zs" and "Listhead.ring (lists (smm s)) CacheListHead (map CacheHead ks)"
    and "new_desc s xs \<notin> set ks" and "name_fits (new_desc s xs) nm"
    and stock: "page_stock (zones0 s) (smm s) F" and F: "finite F" "F \<subseteq> {..<0x3FFFE}"
    and sz: "2 * unat sz + 2 ^ a + 10 \<le> 4096"
  shows "\<exists>desc s' c. kmem_cache_create (Some nm) sz (2 ^ a) fl 0 ctor s = Some (desc, s')
     \<and> 4096 \<le> (c + 2) * (unat sz + 2 ^ a + 7)
     \<and> (\<forall>n. if n \<le> card F * c
            then \<exists>os s''. alloc_many desc g n s' = Some (os, s'') \<and> length os = n \<and> objects_of (unat sz) F os
            else alloc_many desc g n s' = None)"
proof -
  let ?d = "new_desc s xs"
  obtain s' where c: "kmem_cache_create (Some nm) sz (2 ^ a) fl 0 ctor s = Some (?d, s')"
      and k: "(kc_offset (caches s' ?d), kc_object_size (caches s' ?d)) = slab_layout sz (2 ^ a)" "kc_cache_order (caches s' ?d) = 0"
      and e: "cache_empty ?d s'" "client_change (smm s) (smm s')" "zones0 s' = zones0 s"
    using kmem_cache_create_spec [OF assms(1-4), of sz "2 ^ a" fl 0 ctor] by blast
  let ?k = "caches s' ?d"
  note l = new_cache_layout [OF sz k]
  have "page_stock (zones0 s') (smm s') F" using page_stock_client [OF stock e(2)] e(3) by simp
  then have ready: "cache_ready ?d s' F" using l(1) e(1) F(2) by (simp add: cache_ready_def)
  have "if n \<le> card F * slab_last ?k
        then \<exists>os s''. alloc_many ?d g n s' = Some (os, s'') \<and> length os = n \<and> objects_of (unat sz) F os
        else alloc_many ?d g n s' = None" for n
  proof (cases "n \<le> card F * slab_last ?k")
    case True
    from serves_within [OF ready F(1) True, of g] obtain ps s'' where
        r: "alloc_many ?d g n s' = Some (handed_out ?k ps n, s'')" "distinct ps" "set ps \<subseteq> F" "n \<le> length ps * slab_last ?k"
      by (elim exE conjE) (rule that)
    have "length (handed_out ?k ps n) = n" using r(4) by (simp add: handed_out_def length_run_objs)
    with r handed_out_objects [OF l(1,2) r(2,3) F(2)] True show ?thesis by auto
  next
    case False
    with serves_beyond [OF ready F(1)] show ?thesis by simp
  qed
  with c l(3) show ?thesis by blast
qed

text \<open>The three caches have a current slab with three objects, and eight pages are free.\<close>

definition demo_creating :: slabs where
  "demo_creating = demo_slabs\<lparr>wds := (\<lambda>a. if a AND 0xFF = 0x80 then 0 else a + 0x40),
     caches := (\<lambda>k. demo_cache\<lparr>kc_cpu_slab := k\<rparr>),
     cpus := (\<lambda>c. \<lparr>freelist = c + 0x8000, cpage = Some 3, cpartial = None\<rparr>),
     statics := (statics demo_slabs)\<lparr>kmem_cache_cache := 0x1000, kmem_cache_cpu_cache := 0x2000, kmem_cache_node_cache := 0x3000\<rparr>\<rparr>"

lemma demo_creating_ready:
  "static_caches_ready demo_creating [0x9000, 0x9040, 0x9080] [0xA000, 0xA040, 0xA080] [0xB000, 0xB040, 0xB080]"
  by (simp add: static_caches_ready_def has_objects_def my_cpu_def cpu_of_def demo_creating_def demo_slabs_def demo_cache_def Let_def)

lemma demo_creating_ring: "Listhead.ring (lists (smm demo_creating)) CacheListHead (map CacheHead [])"
  by (simp add: ring_Nil demo_creating_def demo_slabs_def demo_eight_def demo_empty_def list_add_def list_add_between_def
      set_prev_def set_nxt_def Let_def)

lemma demo_creating_name: "name_fits (new_desc demo_creating [0x9000, 0x9040, 0x9080]) (map of_char ''inode'')"
  by (simp add: name_fits_def new_desc_def demo_creating_def demo_slabs_def demo_cache_def in_memory_def)

lemma demo_creating_stock: "page_stock (zones0 demo_creating) (smm demo_creating) {8..<16}"
  using demo_cache_ready by (simp add: cache_ready_def demo_creating_def)

theorem created_cache_serves_witness:
  "\<exists>desc s' c. kmem_cache_create (Some (map of_char ''inode'')) 200 (2 ^ 3) 0 0 0 demo_creating = Some (desc, s')
     \<and> 4096 \<le> (c + 2) * (unat (200 :: u32) + 2 ^ 3 + 7)
     \<and> (\<exists>os s''. alloc_many desc 0 c s' = Some (os, s'') \<and> objects_of (unat (200 :: u32)) {8..<16} os)
     \<and> alloc_many desc 0 (8 * c + 1) s' = None"
proof -
  have "new_desc demo_creating [0x9000, 0x9040, 0x9080] \<notin> set []" "({8..<16} :: nat set) \<subseteq> {..<0x3FFFE}"
      "2 * unat (200 :: u32) + 2 ^ 3 + 10 \<le> (4096 :: nat)" by auto
  from created_cache_serves [OF demo_creating_ready demo_creating_ring this(1) demo_creating_name demo_creating_stock finite_atLeastLessThan this(2,3),
      of 0 0 0] obtain desc s' c where r: "kmem_cache_create (Some (map of_char ''inode'')) 200 (2 ^ 3) 0 0 0 demo_creating = Some (desc, s')"
        "4096 \<le> (c + 2) * (unat (200 :: u32) + 2 ^ 3 + 7)"
        "\<forall>n. if n \<le> card {8 :: nat..<16} * c
            then \<exists>os s''. alloc_many desc 0 n s' = Some (os, s'') \<and> length os = n \<and> objects_of (unat (200 :: u32)) {8..<16} os
            else alloc_many desc 0 n s' = None"
    by (elim exE conjE) (rule that)
  from r(3) [rule_format, of c] r(3) [rule_format, of "8 * c + 1"] have
      "\<exists>os s''. alloc_many desc 0 c s' = Some (os, s'') \<and> objects_of (unat (200 :: u32)) {8..<16} os"
      "alloc_many desc 0 (8 * c + 1) s' = None" by auto
  with r(1,2) show ?thesis by blast
qed

end
