(* ===== verification/SlabBoot.thy ===== *)
theory SlabBoot
  imports SlabCreate
begin

text \<open>
  The start of the slab allocator: \<open>init_kmem_cache\<close> sets up the three static caches that \<open>kmem_cache_create\<close> takes its
  structures from.
\<close>

section \<open>One static cache\<close>

definition static_cache :: "u32 \<Rightarrow> u32 \<Rightarrow> u32 \<Rightarrow> kmem_cache \<Rightarrow> kmem_cache" where
  "static_cache c n sz k = (set_min_partial (word_of_int (ilog2 True sz sdiv 2))
     (set_cpu_partial (set_layout sz 128 (k\<lparr>kc_cache_order := 1, kc_inuse := 0\<rparr>))))\<lparr>kc_cpu_slab := c, kc_node := n\<rparr>"

lemma static_cache_simps [simp]:
  "kc_cpu_slab (static_cache c n sz k) = c" "kc_node (static_cache c n sz k) = n" "kc_cache_order (static_cache c n sz k) = 1"
  "kc_offset (static_cache c n sz k) = fst (slab_layout sz 128)" "kc_object_size (static_cache c n sz k) = snd (slab_layout sz 128)"
  "kc_size (static_cache c n sz k) = sz"
  by (simp_all add: static_cache_def set_min_partial_def set_cpu_partial_def set_layout_def split_beta)

lemma init_static_cache_spec:
  assumes "name_fits kc (map of_char nm)"
  shows "\<exists>m. init_static_cache kc c n nm sz s
      = Some (on_mm (on_lists (init_list (NodePartial n))) (upd_cache kc (static_cache c n sz) (s\<lparr>nbytes := m\<rparr>)))
    \<and> named m (kc + 72) (map of_char nm) \<and> (\<forall>x. 32 \<le> x - (kc + 72) \<longrightarrow> m x = nbytes s x)"
proof -
  let ?s = "upd_cache kc (\<lambda>k. k\<lparr>kc_cache_order := 1, kc_inuse := 0\<rparr>) s"
  obtain m where "set_name kc (map of_char nm) ?s = Some (?s\<lparr>nbytes := m\<rparr>)" "named m (kc + 72) (map of_char nm)"
      "\<forall>x. 32 \<le> x - (kc + 72) \<longrightarrow> m x = nbytes s x"
    using set_name_plain [of "map of_char nm" kc ?s] assms by (auto simp: name_fits_def upd_cache_def)
  then show ?thesis by (intro exI [of _ m]) (simp add: init_static_cache_def upd_cache_def static_cache_def)
qed

text \<open>Names are kept when other memory is written.\<close>

lemma named_away:
  fixes p q sz :: u32
  assumes "named m p nm" and fr: "\<And>x. sz \<le> x - q \<Longrightarrow> m' x = m x"
    and mem: "in_memory p (32 :: u32)" "in_memory q sz" and ap: "unat p + 32 \<le> unat q \<or> unat q + unat sz \<le> unat p"
  shows "named m' p nm"
proof -
  have "m' (p + of_nat i) = m (p + of_nat i)" if "i \<le> 31" for i
  proof (rule fr)
    have i: "unat (of_nat i :: u32) = i" using that by (intro word32_of_nat_unat_id) simp
    then have x: "unat (p + of_nat i) = unat p + i"
      using mem(1) that by (subst unat_add_small) (simp_all add: in_memory_def)
    have "n \<le> unat X - unat Y \<Longrightarrow> unat Y \<le> unat X \<Longrightarrow> n \<le> unat (X - Y)"
      "unat X < unat Y \<Longrightarrow> unat Y + n \<le> 4294967296 \<Longrightarrow> n \<le> unat (X - Y)" for X Y :: u32 and n
      by (simp_all add: unat_sub_if')
    from this [where n = "unat sz" and X = "p + of_nat i" and Y = q] have "unat sz \<le> unat (p + of_nat i - q)"
      using ap x that mem(2) unfolding in_memory_def by (cases "unat q \<le> unat (p + of_nat i)") auto
    then show "sz \<le> p + of_nat i - q" by (simp add: word_le_nat_alt)
  qed
  then show ?thesis using assms(1) by (simp add: named_def)
qed

lemmas named_frame = named_away [where sz = 32 and p = "p + 72" and q = "q + 72" for p q :: u32, simplified]

section \<open>The three of them\<close>

text \<open>The structures of \<open>slab.c\<close>: cache, processor's structure, node, name and size of the objects, in the order
  of their places in the list of caches.\<close>

definition static_table :: "slab_statics \<Rightarrow> (u32 \<times> u32 \<times> u32 \<times> string \<times> u32) list" where
  "static_table y =
    [(kmem_cache_cpu_cache y, t2 y, n2 y, ''kernel used kmem cpu cache(original cache)'', SIZEOF_KMEM_CACHE_CPU),
     (kmem_cache_node_cache y, t3 y, n3 y, ''kernel used kmem node cache(original cache)'', SIZEOF_KMEM_CACHE_NODE),
     (kmem_cache_cache y, t1 y, n1 y, ''kernel used kmem cache(original cache)'', SIZEOF_KMEM_CACHE)]"

text \<open>Objects of the linker: the names do not overlap, and the nodes are different.\<close>

definition statics_apart :: "slab_statics \<Rightarrow> bool" where
  "statics_apart y \<longleftrightarrow> distinct [n1 y, n2 y, n3 y]
    \<and> sorted_wrt (\<lambda>p q. p \<noteq> q \<and> (unat (p + 72) + 32 \<le> unat (q + 72) \<or> unat (q + 72) + 32 \<le> unat (p + 72)))
        (map fst (static_table y))
    \<and> (\<forall>(k, c, n, nm, sz) \<in> set (static_table y). name_fits k (map of_char nm))"

definition registered :: "slab_statics \<Rightarrow> lnode lheap \<Rightarrow> lnode lheap" where
  "registered y h = list_add CacheListHead (CacheHead (kmem_cache_cpu_cache y))
     (list_add CacheListHead (CacheHead (kmem_cache_node_cache y))
       (list_add CacheListHead (CacheHead (kmem_cache_cache y)) (init_list CacheListHead h)))"

lemma registered_ring:
  assumes "distinct [kmem_cache_cpu_cache y, kmem_cache_node_cache y, kmem_cache_cache y]"
  shows "Listhead.ring (registered y h) CacheListHead
    (map CacheHead [kmem_cache_cpu_cache y, kmem_cache_node_cache y, kmem_cache_cache y])"
    and "\<not> foreign x \<Longrightarrow> prev (registered y h) x = prev h x \<and> nxt (registered y h) x = nxt h x"
proof -
  let ?A = "CacheHead (kmem_cache_cache y)" and ?B = "CacheHead (kmem_cache_cpu_cache y)" and ?C = "CacheHead (kmem_cache_node_cache y)"
  let ?h0 = "init_list CacheListHead h"
  have r0: "Listhead.ring ?h0 CacheListHead (map CacheHead [])" by (simp add: ring_Nil init_list_def set_prev_def set_nxt_def)
  have r1: "Listhead.ring (list_add CacheListHead ?A ?h0) CacheListHead (map CacheHead [kmem_cache_cache y])"
    using list_add_ring [OF r0, of ?A] by simp
  have r2: "Listhead.ring (list_add CacheListHead ?C (list_add CacheListHead ?A ?h0)) CacheListHead
      (map CacheHead [kmem_cache_node_cache y, kmem_cache_cache y])"
    using list_add_ring [OF r1, of ?C] assms by simp
  show "Listhead.ring (registered y h) CacheListHead (map CacheHead [kmem_cache_cpu_cache y, kmem_cache_node_cache y, kmem_cache_cache y])"
    unfolding registered_def using list_add_ring [OF r2, of ?B] assms by simp
  assume x: "\<not> foreign x"
  then have "prev ?h0 x = prev h x \<and> nxt ?h0 x = nxt h x" by (auto simp: init_list_def set_prev_def set_nxt_def)
  then show "prev (registered y h) x = prev h x \<and> nxt (registered y h) x = nxt h x"
    unfolding registered_def list_add_foreign [OF r2 x] list_add_foreign [OF r1 x] list_add_foreign [OF r0 x] .
qed

lemma three_nodes:
  fixes a b c :: u32 and h :: "lnode lheap"
  assumes "distinct [a, b, c]"
  defines "h' \<equiv> init_list (NodePartial c) (init_list (NodePartial b) (init_list (NodePartial a) h))"
  shows "list_empty (NodePartial a) h'" "list_empty (NodePartial b) h'" "list_empty (NodePartial c) h'"
    and "Listhead.ring h CacheListHead (map CacheHead ks) \<Longrightarrow> Listhead.ring h' CacheListHead (map CacheHead ks)"
    and "\<not> foreign x \<Longrightarrow> prev h' x = prev h x \<and> nxt h' x = nxt h x"
proof -
  show "list_empty (NodePartial a) h'" "list_empty (NodePartial b) h'" "list_empty (NodePartial c) h'"
    using assms(1) by (auto simp: h'_def init_list_def set_prev_def set_nxt_def list_empty_def)
  show "\<not> foreign x \<Longrightarrow> prev h' x = prev h x \<and> nxt h' x = nxt h x"
    by (auto simp: h'_def init_list_def set_prev_def set_nxt_def)
  show "Listhead.ring h' CacheListHead (map CacheHead ks)" if "Listhead.ring h CacheListHead (map CacheHead ks)"
    unfolding h'_def by (intro init_list_ring_other that) auto
qed

section \<open>What it leaves\<close>

text \<open>
  \<open>init_kmem_cache\<close> leaves exactly the three static caches on the list of caches, each without a slab, with the
  layout of its structure, its own processor and node structures and its name, cut to 31 characters. The page allocator
  does not notice.
\<close>

lemma init_kmem_cache_spec:
  assumes y: "statics_apart (statics s)"
    and cpu: "\<And>k c n nm sz. (k, c, n, nm, sz) \<in> set (static_table (statics s)) \<Longrightarrow> cpage (cpus s c) = None \<and> cpartial (cpus s c) = None"
  shows "\<exists>s'. init_kmem_cache s = Some s'
     \<and> Listhead.ring (lists (smm s')) CacheListHead (map (CacheHead \<circ> fst) (static_table (statics s)))
     \<and> client_change (smm s) (smm s') \<and> statics s' = statics s \<and> zones0 s' = zones0 s
     \<and> (\<forall>(k, c, n, nm, sz) \<in> set (static_table (statics s)).
          cache_empty k s' \<and> caches s' k = static_cache c n sz (caches s k) \<and> named (nbytes s') (k + 72) (map of_char nm))"
proof -
  let ?y = "statics s"
  let ?A = "kmem_cache_cache ?y" and ?B = "kmem_cache_cpu_cache ?y" and ?C = "kmem_cache_node_cache ?y"
  define na nb nc where "na = ''kernel used kmem cache(original cache)''"
    and "nb = ''kernel used kmem cpu cache(original cache)''" and "nc = ''kernel used kmem node cache(original cache)''"
  note names = na_def [symmetric] nb_def [symmetric] nc_def [symmetric]
  have T: "static_table ?y = [(?B, t2 ?y, n2 ?y, nb, SIZEOF_KMEM_CACHE_CPU), (?C, t3 ?y, n3 ?y, nc, SIZEOF_KMEM_CACHE_NODE),
      (?A, t1 ?y, n1 ?y, na, SIZEOF_KMEM_CACHE)]" by (simp only: static_table_def names)
  have nodes: "distinct [n1 ?y, n2 ?y, n3 ?y]" and ne: "distinct [?B, ?C, ?A]"
    and ap: "unat (?A + 72) + 32 \<le> unat (?B + 72) \<or> unat (?B + 72) + 32 \<le> unat (?A + 72)"
      "unat (?A + 72) + 32 \<le> unat (?C + 72) \<or> unat (?C + 72) + 32 \<le> unat (?A + 72)"
      "unat (?B + 72) + 32 \<le> unat (?C + 72) \<or> unat (?C + 72) + 32 \<le> unat (?B + 72)"
    and nm: "name_fits ?B (map of_char nb)" "name_fits ?C (map of_char nc)" "name_fits ?A (map of_char na)"
    using y unfolding statics_apart_def T by auto
  have mem: "in_memory (?A + 72) (32 :: u32)" "in_memory (?B + 72) (32 :: u32)" "in_memory (?C + 72) (32 :: u32)"
    using nm by (simp_all add: name_fits_def)
  let ?s1 = "on_mm (on_lists (registered ?y)) s"
  obtain m1 where m1: "init_static_cache ?A (t1 ?y) (n1 ?y) na SIZEOF_KMEM_CACHE ?s1
      = Some (on_mm (on_lists (init_list (NodePartial (n1 ?y)))) (upd_cache ?A (static_cache (t1 ?y) (n1 ?y) SIZEOF_KMEM_CACHE) (?s1\<lparr>nbytes := m1\<rparr>)))"
      (is "_ = Some ?s2") and n1: "named m1 (?A + 72) (map of_char na)"
    using init_static_cache_spec [OF nm(3)] by blast
  obtain m2 where m2: "init_static_cache ?B (t2 ?y) (n2 ?y) nb SIZEOF_KMEM_CACHE_CPU ?s2
      = Some (on_mm (on_lists (init_list (NodePartial (n2 ?y)))) (upd_cache ?B (static_cache (t2 ?y) (n2 ?y) SIZEOF_KMEM_CACHE_CPU) (?s2\<lparr>nbytes := m2\<rparr>)))"
      (is "_ = Some ?s3") and n2: "named m2 (?B + 72) (map of_char nb)" and f2: "\<And>x. 32 \<le> x - (?B + 72) \<Longrightarrow> m2 x = nbytes ?s2 x"
    using init_static_cache_spec [OF nm(1)] by blast
  obtain m3 where m3: "init_static_cache ?C (t3 ?y) (n3 ?y) nc SIZEOF_KMEM_CACHE_NODE ?s3
      = Some (on_mm (on_lists (init_list (NodePartial (n3 ?y)))) (upd_cache ?C (static_cache (t3 ?y) (n3 ?y) SIZEOF_KMEM_CACHE_NODE) (?s3\<lparr>nbytes := m3\<rparr>)))"
      (is "_ = Some ?s4") and n3: "named m3 (?C + 72) (map of_char nc)" and f3: "\<And>x. 32 \<le> x - (?C + 72) \<Longrightarrow> m3 x = nbytes ?s3 x"
    using init_static_cache_spec [OF nm(2)] by blast
  have run: "init_kmem_cache s = Some ?s4"
    unfolding init_kmem_cache_def Let_def names registered_def [symmetric] m1 by (simp only: Option.bind.bind_lunit m2 m3)
  define s4 where "s4 = ?s4"
  have nb2: "nbytes ?s2 = m1" "nbytes ?s3 = m2" "nbytes s4 = m3" by (simp_all add: s4_def on_mm_def upd_cache_def)
  have lists: "lists (smm s4) = init_list (NodePartial (n3 ?y)) (init_list (NodePartial (n2 ?y)) (init_list (NodePartial (n1 ?y)) (registered ?y (lists (smm s)))))"
    by (simp add: s4_def on_mm_def upd_cache_def)
  have same: "statics s4 = ?y" "zones0 s4 = zones0 s" "zones (smm s4) = zones (smm s)" "cpus s4 = cpus s"
    by (simp_all add: s4_def on_mm_def upd_cache_def)
  have cs: "caches s4 ?A = static_cache (t1 ?y) (n1 ?y) SIZEOF_KMEM_CACHE (caches s ?A)"
      "caches s4 ?B = static_cache (t2 ?y) (n2 ?y) SIZEOF_KMEM_CACHE_CPU (caches s ?B)"
      "caches s4 ?C = static_cache (t3 ?y) (n3 ?y) SIZEOF_KMEM_CACHE_NODE (caches s ?C)"
    using ne by (auto simp: s4_def on_mm_def upd_cache_def)
  have run: "init_kmem_cache s = Some s4" using run by (simp only: s4_def)
  note tn = three_nodes [OF nodes, where h = "registered ?y (lists (smm s))", folded lists]
  have nms: "named m3 (?A + 72) (map of_char na)" "named m3 (?B + 72) (map of_char nb)"
    using named_frame [OF named_frame [OF n1 _ mem(1,2) ap(1)] _ mem(1,3) ap(2), of m2 m3]
      named_frame [OF n2 _ mem(2,3) ap(3), of m3] f2 f3 unfolding nb2 by blast+
  have empty: "cache_empty ?A s4" "cache_empty ?B s4" "cache_empty ?C s4"
    using tn(1-3) cpu [of ?A "t1 ?y" "n1 ?y" na SIZEOF_KMEM_CACHE] cpu [of ?B "t2 ?y" "n2 ?y" nb SIZEOF_KMEM_CACHE_CPU] cpu [of ?C "t3 ?y" "n3 ?y" nc SIZEOF_KMEM_CACHE_NODE] unfolding T
    by (simp_all add: cache_empty_def my_cpu_def cpu_of_def cs same(4))
  have "client_change (smm s) (smm s4)"
    using same(3) registered_ring(2) [OF ne, of _ "lists (smm s)"] tn(5) by (simp add: client_change_def)
  moreover have "Listhead.ring (lists (smm s4)) CacheListHead (map (CacheHead \<circ> fst) (static_table ?y))"
    using tn(4) [OF registered_ring(1) [OF ne]] unfolding T by simp
  ultimately show ?thesis
    using empty cs nms n3 unfolding T by (intro exI [of _ s4] conjI run same(1,2)) (auto simp: nb2(3))
qed

text \<open>A state before the start, with eight free pages.\<close>

definition demo_boot :: slabs where
  "demo_boot = demo_slabs\<lparr>statics := \<lparr>kmem_cache_cache = 0x1000, kmem_cache_cpu_cache = 0x1080, kmem_cache_node_cache = 0x1100,
     t1 = 0x1200, t2 = 0x1210, t3 = 0x1220, n1 = 0x1300, n2 = 0x1310, n3 = 0x1320\<rparr>\<rparr>"

lemma demo_boot_apart: "statics_apart (statics demo_boot)"
  by (simp add: statics_apart_def static_table_def demo_boot_def name_fits_def in_memory_def)

end
