(* ===== verification/PairSource.thy ===== *)
theory PairSource
  imports PageSource
begin

text \<open>
  Requests of order 1, as the static caches of \<open>slab.c\<close> make them: \<open>__alloc_pages\<close> as a second \<open>page_source\<close>, which
  grants each pair of pages once. The second page of a granted pair stays on the free list of order 0, where its client
  overwrites the list node; requests of order 1 never follow that pointer.
\<close>

section \<open>Free pairs\<close>

text \<open>The first pages of the pairs that the blocks of order 1 and more are made of.\<close>

definition pairs_in :: "nat \<Rightarrow> nat \<Rightarrow> nat set" where
  "pairs_in p k = {r \<in> blk p k. even (r - p)}"

definition pair_set :: "freelists \<Rightarrow> nat \<Rightarrow> nat set" where
  "pair_set fl z = (\<Union>k\<in>{1..<MAX_ORDER}. \<Union>p\<in>set (fl z k). pairs_in p k)"

lemma pairs_in_pieces:
  assumes "1 \<le> h"
  shows "(\<Union>i\<in>{1..<h}. pairs_in (p + 2 ^ i) i) = pairs_in p h - {p}"
proof (intro set_eqI iffI)
  fix r assume "r \<in> (\<Union>i\<in>{1..<h}. pairs_in (p + 2 ^ i) i)"
  then obtain i where i: "1 \<le> i" "i < h" "r \<in> blk (p + 2 ^ i) i" "even (r - (p + 2 ^ i))" by (auto simp: pairs_in_def)
  have "r \<in> blk p h - {p}" using blk_piece_sub [OF i(2)] i(3) by blast
  moreover have "r - p = (r - (p + 2 ^ i)) + 2 ^ i" using i(3) by (simp add: blk_def)
  then have "even (r - p)" using i(1,4) by simp
  ultimately show "r \<in> pairs_in p h - {p}" by (simp add: pairs_in_def)
next
  fix r assume r: "r \<in> pairs_in p h - {p}"
  then have "r \<in> (\<Union>i<h. blk (p + 2 ^ i) i)" unfolding blk_pieces by (simp add: pairs_in_def)
  then obtain i where i: "i < h" "r \<in> blk (p + 2 ^ i) i" by blast
  have e: "r - p = (r - (p + 2 ^ i)) + 2 ^ i" using i(2) by (simp add: blk_def)
  have "i \<noteq> 0"
  proof
    assume "i = 0"
    with i(2) have "r = Suc p" by (simp add: blk_def)
    with r show False by (simp add: pairs_in_def)
  qed
  moreover from this have "even (r - (p + 2 ^ i))"
    using r e by (simp add: pairs_in_def del: even_diff_nat)
  ultimately show "r \<in> (\<Union>i\<in>{1..<h}. pairs_in (p + 2 ^ i) i)" using i by (auto simp: pairs_in_def)
qed

lemma pairs_in_blk: "pairs_in p k \<subseteq> blk p k"
  by (auto simp: pairs_in_def)

lemma pairs_in_start [simp]: "p \<in> pairs_in p k"
  by (simp add: pairs_in_def)

lemma pair_set_free: "pair_set fl z \<subseteq> free_set fl z"
  unfolding pair_set_def free_set_def using pairs_in_blk by fastforce

lemma pair_set_empty_iff: "pair_set fl z = {} \<longleftrightarrow> (\<forall>k. 1 \<le> k \<longrightarrow> k < MAX_ORDER \<longrightarrow> fl z k = [])"
proof
  assume e: "pair_set fl z = {}"
  show "\<forall>k. 1 \<le> k \<longrightarrow> k < MAX_ORDER \<longrightarrow> fl z k = []"
  proof (intro allI impI)
    fix k assume k: "1 \<le> k" "k < MAX_ORDER"
    have "hd (fl z k) \<in> pair_set fl z" if "fl z k \<noteq> []"
      unfolding pair_set_def using k that by (intro UN_I [of k] UN_I [of "hd (fl z k)"]) simp_all
    with e show "fl z k = []" by blast
  qed
qed (auto simp: pair_set_def)

lemma taken_pair_set:
  assumes d: "blocks_disjoint fl z" and h: "1 \<le> h" "h < MAX_ORDER" "fl z h = p # ps" "p \<notin> set ps"
  shows "pair_set (taken_fl fl z h p ps) z = pair_set fl z - {p}"
proof -
  have e: "{1..<MAX_ORDER} = {1..<h} \<union> ({h} \<union> {h<..<MAX_ORDER})" using h(1,2) by auto
  define R where "R = (\<Union>k\<in>{1..<h}. \<Union>q\<in>set (fl z k). pairs_in q k) \<union> (\<Union>q\<in>set ps. pairs_in q h)
    \<union> (\<Union>k\<in>{h<..<MAX_ORDER}. \<Union>q\<in>set (fl z k). pairs_in q k)"
  have old: "pair_set fl z = pairs_in p h \<union> R"
    unfolding pair_set_def e UN_Un R_def using h(3) by auto
  have "pair_set (taken_fl fl z h p ps) z = (\<Union>i\<in>{1..<h}. pairs_in (p + 2 ^ i) i) \<union> R"
    unfolding pair_set_def e UN_Un R_def by (auto simp: taken_fl_def)
  then have new: "pair_set (taken_fl fl z h p ps) z = (pairs_in p h - {p}) \<union> R"
    unfolding pairs_in_pieces [OF h(1)] .
  have sub: "R \<subseteq> free_set (taken_fl fl z h p ps) z"
  proof -
    have "R \<subseteq> pair_set (taken_fl fl z h p ps) z" unfolding new by blast
    then show ?thesis using pair_set_free by blast
  qed
  then have "p \<notin> R" unfolding taken_free_set [OF d h(2-4)] by blast
  then show ?thesis unfolding old new using pairs_in_start by blast
qed

section \<open>A request of order 1\<close>

definition pair_taken :: "nat set \<Rightarrow> freelists \<Rightarrow> nat \<Rightarrow> nat \<Rightarrow> mm \<Rightarrow> freelists \<Rightarrow> bool" where
  "pair_taken Z fl z p s' fl' \<longleftrightarrow> alloc_inv s' Z fl' \<and> p \<in> pair_set fl z \<and> pair_set fl' z = pair_set fl z - {p}
     \<and> (\<forall>x. x \<noteq> z \<longrightarrow> fl' x = fl x) \<and> fl' z 0 = fl z 0 @ [Suc p]"

lemma listed_distinct: "alloc_inv s Z fl \<Longrightarrow> z \<in> Z \<Longrightarrow> k < MAX_ORDER \<Longrightarrow> distinct (fl z k)"
  using rings.family_distinct [of "flI Z" flH "lists s" "flL fl" "(z, k)"]
  by (simp add: alloc_inv_def flI_def distinct_map)

lemma rmqueue_pair_cases:
  assumes inv: "alloc_inv s Z fl" and z: "z \<in> Z"
  shows "(pair_set fl z = {} \<and> rmqueue z 1 s = (PNull, s))
     \<or> (\<exists>p s' fl'. rmqueue z 1 s = (PPage p, s') \<and> pair_taken Z fl z p s' fl' \<and> others_kept s s')"
proof (cases "pair_set fl z = {}")
  case True
  have "rmqueue z 1 s = (PNull, s)"
    by (rule rmqueue_none [of Z s fl, OF _ z]) (use inv True in \<open>auto simp: alloc_inv_def pair_set_empty_iff\<close>)
  with True show ?thesis by blast
next
  case False
  then obtain k where k: "fl z k \<noteq> []" "1 \<le> k" "k < MAX_ORDER" by (auto simp: pair_set_empty_iff)
  obtain h p ps where H: "1 \<le> h" "h < MAX_ORDER" "fl z h = p # ps" "\<And>i. 1 \<le> i \<Longrightarrow> i < h \<Longrightarrow> fl z i = []"
    by (rule least_nonempty [of fl z k 1]) (use k in simp_all)
  let ?fl = "taken_fl fl z h p ps"
  obtain s' where s': "rmqueue z 1 s = (PPage p, s')" "alloc_inv s' Z ?fl"
    using rmqueue_small [OF inv z, of 1 h p ps] H by auto
  have "p \<notin> set ps" using listed_distinct [OF inv z H(2)] H(3) by simp
  then have "pair_set ?fl z = pair_set fl z - {p}"
    using inv z by (intro taken_pair_set H(1-3)) (simp_all add: alloc_inv_def)
  moreover have "p \<in> pair_set fl z"
    unfolding pair_set_def using H by (intro UN_I [of h] UN_I [of p]) simp_all
  moreover have "\<forall>x. x \<noteq> z \<longrightarrow> ?fl x = fl x" "?fl z 0 = fl z 0 @ [Suc p]"
    using H(1) by (simp_all add: taken_fl_def fun_eq_iff)
  moreover have "others_kept s s'" using rmqueue_hit_others [OF inv z H] s'(1) by simp
  ultimately show ?thesis using s' unfolding pair_taken_def by blast
qed

section \<open>Lists with overwritten nodes\<close>

text \<open>
  The lists of \<open>m\<close> are those of \<open>n\<close>, except that the pages of \<open>Q\<close> hold the pointers \<open>c\<close> in the first word of their nodes.
\<close>

definition mirrors :: "(nat \<Rightarrow> lnode) \<Rightarrow> nat set \<Rightarrow> mm \<Rightarrow> mm \<Rightarrow> bool" where
  "mirrors c Q m n \<longleftrightarrow> zones m = zones n \<and> nxt (lists m) = nxt (lists n)
     \<and> (\<forall>x. x \<notin> Lru ` Q \<longrightarrow> prev (lists m) x = prev (lists n) x) \<and> (\<forall>q\<in>Q. prev (lists m) (Lru q) = c q)"

lemma mirrors_refl [simp]: "mirrors c {} m m"
  by (simp add: mirrors_def)

lemma mirrors_D:
  assumes "mirrors c Q m n"
  shows "zones m = zones n" "nxt (lists m) = nxt (lists n)" "x \<notin> Lru ` Q \<Longrightarrow> prev (lists m) x = prev (lists n) x"
    "q \<in> Q \<Longrightarrow> prev (lists m) (Lru q) = c q"
  using assms by (auto simp: mirrors_def)

lemma mirrors_set_nxt: "mirrors c Q m n \<Longrightarrow> mirrors c Q (on_lists (set_nxt x v) m) (on_lists (set_nxt x v) n)"
  by (simp add: mirrors_def set_nxt_def)

lemma mirrors_set_prev:
  "mirrors c Q m n \<Longrightarrow> x \<notin> Lru ` Q \<Longrightarrow> mirrors c Q (on_lists (set_prev x v) m) (on_lists (set_prev x v) n)"
  by (auto simp: mirrors_def set_prev_def)

lemma mirrors_upd_zone: "mirrors c Q m n \<Longrightarrow> mirrors c Q (upd_zone z f m) (upd_zone z f n)"
  by (simp add: mirrors_def upd_zone_def)

lemma on_lists_comp: "on_lists f (on_lists g s) = on_lists (\<lambda>h. f (g h)) s"
  by (simp add: on_lists_def)

lemma mirrors_unlink:
  assumes m: "mirrors c Q m n" and p: "p \<notin> Q" "nxt (lists n) (Lru p) \<notin> Lru ` Q" "prev (lists n) (Lru p) \<noteq> Lru p"
  shows "mirrors c Q (unlinked z ord h p m) (unlinked z ord h p n)"
proof -
  have pr: "prev (lists m) (Lru p) = prev (lists n) (Lru p)" using mirrors_D(3) [OF m, of "Lru p"] p(1) by auto
  have "mirrors c Q (on_lists (list_del (Lru p)) m) (on_lists (list_del (Lru p)) n)"
    using m pr p(2) unfolding mirrors_def list_del_def set_prev_def set_nxt_def Let_def by (simp add: image_iff) metis
  then show ?thesis by (simp add: unlinked_def upd_nr_free_def mirrors_upd_zone)
qed

lemma mirrors_round:
  assumes m: "mirrors c Q m n" and q: "q \<notin> Q"
  shows "mirrors c Q (expand_round z q fa sz m) (expand_round z q fa sz n)"
proof -
  have pr: "prev (lists m) (FreeHead z fa) = prev (lists n) (FreeHead z fa)" by (rule mirrors_D(3) [OF m]) auto
  have "mirrors c Q (on_lists (list_add_tail (FreeHead z fa) (Lru q)) m) (on_lists (list_add_tail (FreeHead z fa) (Lru q)) n)"
    using m pr q by (auto simp: mirrors_def list_add_tail_def list_add_between_def set_prev_def set_nxt_def)
  then have "mirrors c Q (upd_zone z (\<lambda>zn. zn\<lparr>z_free_pages := z_free_pages zn + sz\<rparr>)
      (upd_nr_free z fa (\<lambda>n. n + 1) (on_lists (list_add_tail (FreeHead z fa) (Lru q)) m)))
    (upd_zone z (\<lambda>zn. zn\<lparr>z_free_pages := z_free_pages zn + sz\<rparr>)
      (upd_nr_free z fa (\<lambda>n. n + 1) (on_lists (list_add_tail (FreeHead z fa) (Lru q)) n)))"
    unfolding upd_nr_free_def by (intro mirrors_upd_zone)
  then show ?thesis by (simp add: expand_round_def set_page_order_def mirrors_def)
qed

text \<open>As long as \<open>expand\<close> stays above order 0, its pieces lie in the block.\<close>

lemma mirrors_expand:
  assumes "mirrors c Q m n" "blk p j \<inter> Q = {}" "j < 31" "high + 1 - low \<le> int j"
  shows "mirrors c Q (expand_loop z p low high (int j) (2 ^ j) m) (expand_loop z p low high (int j) (2 ^ j) n)"
  using assms
proof (induction j arbitrary: low m n)
  case (Suc j)
  note half = half_pow_u32 [of j] and u = unat_pow_u32 [of j]
  have "p + 2 ^ j \<in> blk p (Suc j)" "blk p j \<subseteq> blk p (Suc j)" by (auto simp: blk_def)
  with Suc.prems(2) have q: "p + 2 ^ j \<notin> Q" "blk p j \<inter> Q = {}" by blast+
  have "mirrors c Q (expand_loop z p (low + 1) high (int j) (2 ^ j) (expand_round z (p + 2 ^ j) (int j) (2 ^ j) m))
      (expand_loop z p (low + 1) high (int j) (2 ^ j) (expand_round z (p + 2 ^ j) (int j) (2 ^ j) n))"
    using Suc.prems(3,4) by (intro Suc.IH mirrors_round Suc.prems(1) q) simp_all
  then show ?case
    using Suc.prems half u by (subst (1 2) expand_loop_round) simp
qed (simp add: expand_loop_round)

text \<open>So \<open>__rmqueue\<close> of order 1 does the same on both, when the overwritten nodes are those of listed single pages.\<close>

definition singles :: "nat set \<Rightarrow> freelists \<Rightarrow> nat set" where
  "singles Z fl = (\<Union>z\<in>Z. set (fl z 0))"

lemma singles_apart:
  assumes inv: "alloc_inv n Z fl" and z: "z \<in> Z" and k: "1 \<le> k" "k < MAX_ORDER" "p \<in> set (fl z k)"
  shows "blk p k \<inter> singles Z fl = {}"
proof -
  have "q \<notin> blk p k" if x: "x \<in> Z" and q: "q \<in> set (fl x 0)" for q x
  proof (cases "x = z")
    case True
    have "blocks_disjoint fl z" using inv z by (simp add: alloc_inv_def)
    then have "blk p k \<inter> blk q 0 = {}" using k q True unfolding blocks_disjoint_def by (auto simp: MAX_ORDER_def)
    then show ?thesis using blk_start by blast
  next
    case False
    have "q \<in> free_set fl x" unfolding mem_free_set using q blk_start by (intro exI [of _ 0] conjI bexI [of _ q]) (simp_all add: MAX_ORDER_def)
    moreover have "blk p k \<subseteq> free_set fl z" unfolding free_set_def using k by blast
    ultimately show ?thesis
      using alloc_inv_free_zone [OF inv x] alloc_inv_free_zone [OF inv z] inv x z False
      unfolding alloc_inv_def zones_apart_def by blast
  qed
  then show ?thesis by (auto simp: singles_def)
qed

lemma mirrors_rmqueue:
  assumes inv: "alloc_inv n Z fl" and z: "z \<in> Z" and m: "mirrors c Q m n" and Q: "Q \<subseteq> singles Z fl"
  shows "fst (rmqueue z 1 m) = fst (rmqueue z 1 n) \<and> mirrors c Q (snd (rmqueue z 1 m)) (snd (rmqueue z 1 n))"
proof -
  have fam: "family ring (flI Z) flH (lists n) (flL fl)" using inv by (simp add: alloc_inv_def)
  have "fst (rmqueue_from z 1 k m) = fst (rmqueue_from z 1 k n)
      \<and> mirrors c Q (snd (rmqueue_from z 1 k m)) (snd (rmqueue_from z 1 k n))" if "1 \<le> k" for k
    using that
  proof (induction "MAX_ORDER - k" arbitrary: k)
    case 0
    then show ?case using m by (simp add: rmqueue_from.simps)
  next
    case (Suc d)
    have k: "k < MAX_ORDER" using Suc.hyps(2) by simp
    have i: "(z, k) \<in> flI Z" using z k by (simp add: flI_def)
    note D = mirrors_D [OF m]
    have e: "list_empty (FreeHead z (int k)) (lists m) = list_empty (FreeHead z (int k)) (lists n)"
      using D(3) [of "FreeHead z (int k)"] by (simp add: list_empty_def D(2) image_iff)
    show ?case
    proof (cases "fl z k")
      case Nil
      then have "list_empty (FreeHead z (int k)) (lists n)" using rings.family_is_empty [OF fam i] by simp
      then show ?thesis using Suc e k by (subst (1 2 3 4) rmqueue_from.simps) simp
    next
      case (Cons p ps)
      then have ne: "\<not> list_empty (FreeHead z (int k)) (lists n)" using rings.family_is_empty [OF fam i] by simp
      have f: "nxt (lists n) (FreeHead z (int k)) = Lru p" using rings.family_first [OF fam i] Cons by simp
      have p: "p \<in> set (fl z k)" using Cons by simp
      have b: "blk p k \<inter> Q = {}" using singles_apart [OF inv z Suc.prems k p] Q by blast
      have "nxt (lists n) (Lru p) \<notin> Lru ` Q"
      proof
        assume "nxt (lists n) (Lru p) \<in> Lru ` Q"
        then obtain q where q: "nxt (lists n) (Lru p) = Lru q" "q \<in> Q" by blast
        have "ring (lists n) (FreeHead z (int k)) ([] @ Lru p # map Lru ps)" using family_rep [OF fam i] Cons by simp
        from ring_split(2) [OF this] q(1) have "q \<in> set ps" by (cases ps) auto
        then have "q \<in> blk q k" "blk q k \<inter> Q = {}" using singles_apart [OF inv z Suc.prems k, of q] Q Cons by auto
        with q(2) show False by blast
      qed
      moreover have "p \<notin> Q" using b blk_start by blast
      ultimately have u: "mirrors c Q (unlinked z 1 k p m) (unlinked z 1 k p n)"
        using ring_neighbours_own(3) [OF inv z k p] by (intro mirrors_unlink [OF m])
      have r: "rmqueue_from z 1 k s = (PPage p, expand_loop z p 1 (int k) (int k) (2 ^ k) (unlinked z 1 k p s))"
        if "\<not> list_empty (FreeHead z (int k)) (lists s)" "nxt (lists s) (FreeHead z (int k)) = Lru p" for s
        using that k by (subst rmqueue_from.simps) (simp add: expand_def unlinked_def Let_def)
      have "k < 31" using k by (simp add: MAX_ORDER_def)
      then show ?thesis using r [of m] r [of n] ne f e D(2) mirrors_expand [OF u b] by simp
    qed
  qed
  from this [of 1] show ?thesis by (simp add: rmqueue_def)
qed

section \<open>The source of pairs\<close>

definition all_pairs :: "nat set \<Rightarrow> freelists \<Rightarrow> nat set" where
  "all_pairs Z fl = (\<Union>z\<in>Z. pair_set fl z)"

text \<open>One request to a list of zones, on the lists and on their mirror.\<close>

lemma alloc_pair_cases:
  assumes inv: "alloc_inv n Z fl" and zs: "set zs \<subseteq> Z" and m: "mirrors c Q m n" and Q: "Q \<subseteq> singles Z fl"
  shows "(\<forall>z \<in> set zs. pair_set fl z = {}) \<and> fst (alloc_pages g 1 zs m) = PMinusOne
     \<or> (\<exists>z p m' n' fl'. z \<in> set zs \<and> alloc_pages g 1 zs m = (PPage p, m') \<and> pair_taken Z fl z p n' fl'
          \<and> mirrors c Q m' n' \<and> others_kept n n')"
  using zs m
proof (induction zs arbitrary: m)
  case (Cons z zs)
  have z: "z \<in> Z" using Cons.prems(1) by simp
  have b: "buffered_rmqueue z 1 g m = rmqueue z 1 m" by (simp add: buffered_rmqueue_def)
  obtain x m1 where r: "rmqueue z 1 m = (x, m1)" by fastforce
  note M = mirrors_rmqueue [OF inv z Cons.prems(2) Q, unfolded r fst_conv snd_conv]
  from rmqueue_pair_cases [OF inv z] show ?case
  proof (elim disjE exE conjE)
    assume e: "pair_set fl z = {}" "rmqueue z 1 n = (PNull, n)"
    with M have m1: "x = PNull" "mirrors c Q m1 n" by simp_all
    have a: "alloc_pages g 1 (z # zs) m = alloc_pages g 1 zs m1" using b r m1(1) by simp
    have zs: "set zs \<subseteq> Z" using Cons.prems(1) by simp
    from Cons.IH [OF zs m1(2)] show ?thesis unfolding a using e(1)
    proof (elim disjE exE conjE)
      assume "\<forall>z \<in> set zs. pair_set fl z = {}" "fst (alloc_pages g 1 zs m1) = PMinusOne"
      then show "(\<forall>z \<in> set (z # zs). pair_set fl z = {}) \<and> fst (alloc_pages g 1 zs m1) = PMinusOne \<or> (\<exists>x p m' n' fl'. x \<in> set (z # zs) \<and> alloc_pages g 1 zs m1 = (PPage p, m') \<and> pair_taken Z fl x p n' fl'
          \<and> mirrors c Q m' n' \<and> others_kept n n')"
        using e(1) by simp
    qed (metis list.set_intros(2))
  next
    fix p n' fl' assume t: "rmqueue z 1 n = (PPage p, n')" "pair_taken Z fl z p n' fl'" "others_kept n n'"
    with M have "x = PPage p" "mirrors c Q m1 n'" by simp_all
    moreover from this have "alloc_pages g 1 (z # zs) m = (PPage p, m1)" using b r by simp
    ultimately show ?thesis using t(2,3) by auto
  qed
qed simp

lemma pair_taken_all:
  assumes inv: "alloc_inv n Z fl" and z: "z \<in> Z" and t: "pair_taken Z fl z p n' fl'"
  shows "all_pairs Z fl' = all_pairs Z fl - {p}" and "p \<in> all_pairs Z fl"
    and "singles Z fl' = insert (Suc p) (singles Z fl)"
proof -
  have T: "p \<in> pair_set fl z" "pair_set fl' z = pair_set fl z - {p}" "\<And>x. x \<noteq> z \<Longrightarrow> fl' x = fl x" "fl' z 0 = fl z 0 @ [Suc p]"
    using t by (auto simp: pair_taken_def)
  show "p \<in> all_pairs Z fl" using T(1) z by (auto simp: all_pairs_def)
  have "pair_set fl' x = pair_set fl x - {p}" if "x \<in> Z" for x
  proof (cases "x = z")
    case False
    have "p \<notin> pair_set fl x"
      using T(1) alloc_inv_free_zone [OF inv that] alloc_inv_free_zone [OF inv z] pair_set_free [of fl x] pair_set_free [of fl z]
        inv that z False unfolding alloc_inv_def zones_apart_def by blast
    with False show ?thesis by (simp add: pair_set_def T(3))
  qed (use T(2) in simp)
  then show "all_pairs Z fl' = all_pairs Z fl - {p}" by (auto simp: all_pairs_def)
  show "singles Z fl' = insert (Suc p) (singles Z fl)"
  proof (intro set_eqI iffI)
    fix q assume "q \<in> singles Z fl'"
    then obtain x where x: "x \<in> Z" "q \<in> set (fl' x 0)" by (auto simp: singles_def)
    show "q \<in> insert (Suc p) (singles Z fl)"
    proof (cases "x = z")
      case True
      then have "q = Suc p \<or> q \<in> set (fl z 0)" using x T(4) by auto
      then show ?thesis using z by (auto simp: singles_def)
    next
      case False
      then show ?thesis using x T(3) by (auto simp: singles_def)
    qed
  next
    fix q assume "q \<in> insert (Suc p) (singles Z fl)"
    then consider "q = Suc p" | x where "x \<in> Z" "q \<in> set (fl x 0)" by (auto simp: singles_def)
    then show "q \<in> singles Z fl'"
    proof cases
      case 1
      then show ?thesis using T(4) z unfolding singles_def by (intro UN_I [of z]) simp_all
    next
      case (2 x)
      then have "q \<in> set (fl' x 0)" using T(3,4) by (cases "x = z") auto
      then show ?thesis using 2(1) unfolding singles_def by blast
    qed
  qed
qed

definition grant_pair :: "nat list \<Rightarrow> mm \<Rightarrow> (nat \<times> mm) option" where
  "grant_pair zs m = (case alloc_pages 0 1 zs m of (PPage p, m') \<Rightarrow> Some (p, m') | _ \<Rightarrow> None)"

definition pair_stock :: "nat list \<Rightarrow> mm \<Rightarrow> nat set \<Rightarrow> bool" where
  "pair_stock zs m F \<longleftrightarrow> (\<exists>c Q n fl. alloc_inv n (set zs) fl \<and> Q \<subseteq> singles (set zs) fl \<and> mirrors c Q m n \<and> all_pairs (set zs) fl = F)"

text \<open>What a client may change: lists of its own, and the first word of the list nodes that the lists of order 0 end with.\<close>

definition pair_change :: "nat list \<Rightarrow> mm \<Rightarrow> mm \<Rightarrow> bool" where
  "pair_change zs m m' \<longleftrightarrow> zones m' = zones m
     \<and> (\<forall>x. \<not> foreign x \<longrightarrow> nxt (lists m') x = nxt (lists m) x)
     \<and> (\<forall>x. \<not> foreign x \<longrightarrow> (\<forall>z \<in> set zs. prev (lists m) (FreeHead z 0) \<noteq> x \<or> x \<notin> range Lru) \<longrightarrow> prev (lists m') x = prev (lists m) x)"

text \<open>The mirror follows the client's own lists.\<close>

lemma mirrors_change:
  assumes m: "mirrors c Q m n" and z: "zones m' = zones m" and nx: "\<And>x. \<not> foreign x \<Longrightarrow> nxt (lists m') x = nxt (lists m) x"
    and pv: "\<And>x. \<not> foreign x \<Longrightarrow> x \<notin> Lru ` Q' \<Longrightarrow> prev (lists m') x = prev (lists m) x" and Q: "Q \<subseteq> Q'"
  shows "\<exists>n'. mirrors (\<lambda>q. prev (lists m') (Lru q)) Q' m' n' \<and> client_change n n'"
proof -
  let ?h = "\<lparr>prev = (\<lambda>x. if x \<in> Lru ` Q' then prev (lists n) x else prev (lists m') x), nxt = nxt (lists m')\<rparr>"
  let ?n = "on_lists (\<lambda>h. ?h) n"
  note D = mirrors_D [OF m]
  have "mirrors (\<lambda>q. prev (lists m') (Lru q)) Q' m' ?n" using D(1) z by (simp add: mirrors_def)
  moreover have "prev (lists ?n) x = prev (lists n) x \<and> nxt (lists ?n) x = nxt (lists n) x" if "\<not> foreign x" for x
    using that nx [OF that] pv [OF that] D(2) D(3) [of x] Q by auto
  ultimately show ?thesis by (intro exI [of _ ?n]) (simp add: client_change_def)
qed

lemma singles_tail:
  assumes inv: "alloc_inv n Z fl" and z: "z \<in> Z" and m: "mirrors c Q m n" and q: "prev (lists m) (FreeHead z 0) = Lru q"
  shows "q \<in> singles Z fl"
proof -
  have "ring (lists n) (FreeHead z 0) (map Lru (fl z 0))"
    using family_rep [of ring "flI Z" flH "lists n" "flL fl" "(z, 0)"] inv z by (simp add: alloc_inv_def flI_def MAX_ORDER_def)
  from ring_prev [OF this] have "prev (lists n) (FreeHead z 0) = last (FreeHead z 0 # map Lru (fl z 0))" .
  moreover have "prev (lists m) (FreeHead z 0) = prev (lists n) (FreeHead z 0)" by (rule mirrors_D(3) [OF m]) auto
  ultimately have "Lru q = last (FreeHead z 0 # map Lru (fl z 0))" using q by simp
  then have "q \<in> set (fl z 0)" by (cases "fl z 0" rule: rev_cases) auto
  then show ?thesis using z by (auto simp: singles_def)
qed

lemma pair_stock_change:
  assumes "pair_stock zs m F" "pair_change zs m m'"
  shows "pair_stock zs m' F"
proof -
  obtain c Q n fl where S: "alloc_inv n (set zs) fl" "Q \<subseteq> singles (set zs) fl" "mirrors c Q m n" "all_pairs (set zs) fl = F"
    using assms(1) unfolding pair_stock_def by blast
  let ?Q = "singles (set zs) fl"
  have "prev (lists m') x = prev (lists m) x" if x: "\<not> foreign x" "x \<notin> Lru ` ?Q" for x
  proof -
    have "prev (lists m) (FreeHead z 0) \<noteq> x \<or> x \<notin> range Lru" if "z \<in> set zs" for z
      using singles_tail [OF S(1) that S(3)] x(2) by auto
    with assms(2) x(1) show ?thesis unfolding pair_change_def by blast
  qed
  then obtain n' where n': "mirrors (\<lambda>q. prev (lists m') (Lru q)) ?Q m' n'" "client_change n n'"
    using mirrors_change [OF S(3), of m' ?Q] S(2) assms(2) unfolding pair_change_def by blast
  then show ?thesis using alloc_inv_client [OF S(1) n'(2)] S(4) unfolding pair_stock_def by blast
qed

lemma pair_stock_request:
  assumes "pair_stock zs m F"
  shows "F = {} \<and> grant_pair zs m = None
     \<or> (\<exists>p m'. grant_pair zs m = Some (p, m') \<and> p \<in> F \<and> pair_stock zs m' (F - {p}))"
proof -
  obtain c Q n fl where S: "alloc_inv n (set zs) fl" "Q \<subseteq> singles (set zs) fl" "mirrors c Q m n" "all_pairs (set zs) fl = F"
    using assms unfolding pair_stock_def by blast
  from alloc_pair_cases [OF S(1) subset_refl S(3,2), of 0] show ?thesis
  proof (elim disjE exE conjE)
    assume "\<forall>z \<in> set zs. pair_set fl z = {}" "fst (alloc_pages 0 1 zs m) = PMinusOne"
    then show ?thesis using S(4) by (auto simp: all_pairs_def grant_pair_def split: prod.split)
  next
    fix z p m' n' fl' assume t: "z \<in> set zs" "alloc_pages 0 1 zs m = (PPage p, m')" "pair_taken (set zs) fl z p n' fl'" "mirrors c Q m' n'"
    note a = pair_taken_all [OF S(1) t(1,3)]
    have "pair_stock zs m' (F - {p})"
      unfolding pair_stock_def using t(3,4) a(1,3) S(2,4) by (intro exI [of _ c] exI [of _ Q] exI [of _ n'] exI [of _ fl']) (auto simp: pair_taken_def)
    then show ?thesis using t(2) a(2) S(4) by (simp add: grant_pair_def)
  qed
qed

interpretation pairs: page_source "grant_pair zs" "pair_change zs" "pair_stock zs" for zs
proof (unfold_locales, goal_cases)
  case (1 m F) then show ?case using pair_stock_request [OF 1(1)] by auto
next
  case (2 m) then show ?case using pair_stock_request [OF 2] by auto
next
  case (3 m F m') then show ?case by (rule pair_stock_change)
qed

section \<open>Pairs do not overlap\<close>

lemma pairs_inE:
  assumes "a \<in> pairs_in p k"
  obtains i where "a = p + 2 * i" "2 * i < 2 ^ k"
proof -
  have a: "p \<le> a" "a < p + 2 ^ k" "even (a - p)" using assms unfolding pairs_in_def blk_def by (simp_all del: even_diff_nat)
  from a(3) obtain i where "a - p = 2 * i" by (rule evenE)
  with a(1,2) show ?thesis by (intro that [of i]) linarith+
qed

lemma pairs_in_apart:
  assumes "1 \<le> k" "a \<in> pairs_in p k"
  shows "blk a 1 \<subseteq> blk p k" and "b \<in> pairs_in p k \<Longrightarrow> a \<noteq> b \<Longrightarrow> blk a 1 \<inter> blk b 1 = {}"
proof -
  obtain i where a: "a = p + 2 * i" "2 * i < 2 ^ k" using assms(2) by (rule pairs_inE)
  obtain j where k: "k = Suc j" using assms(1) by (cases k) auto
  then have "i < 2 ^ j" using a(2) by simp
  then have "2 * i + 2 \<le> 2 ^ k" unfolding k by simp
  then show "blk a 1 \<subseteq> blk p k" using a(1) by (auto simp: blk_def)
  assume "b \<in> pairs_in p k" "a \<noteq> b"
  then obtain j where "b = p + 2 * j" "i \<noteq> j" using a(1) pairs_inE by metis
  then show "blk a 1 \<inter> blk b 1 = {}" using a(1) by (auto simp: blk_def)
qed

lemma all_pairs_apart:
  assumes inv: "alloc_inv m Z fl" and a: "a \<in> all_pairs Z fl"
  shows "blk a 1 \<subseteq> all_free Z fl" and "b \<in> all_pairs Z fl \<Longrightarrow> a \<noteq> b \<Longrightarrow> blk a 1 \<inter> blk b 1 = {}"
proof -
  obtain z k p where A: "z \<in> Z" "1 \<le> k" "k < MAX_ORDER" "p \<in> set (fl z k)" "a \<in> pairs_in p k"
    using a by (auto simp: all_pairs_def pair_set_def)
  have fa: "blk p k \<subseteq> free_set fl z" unfolding free_set_def using A by blast
  show "blk a 1 \<subseteq> all_free Z fl" using pairs_in_apart(1) [OF A(2,5)] fa A(1) by (auto simp: all_free_def)
  assume b: "b \<in> all_pairs Z fl" "a \<noteq> b"
  then obtain x j q where B: "x \<in> Z" "1 \<le> j" "j < MAX_ORDER" "q \<in> set (fl x j)" "b \<in> pairs_in q j"
    by (auto simp: all_pairs_def pair_set_def)
  have fb: "blk q j \<subseteq> free_set fl x" unfolding free_set_def using B by blast
  consider "x \<noteq> z" | "x = z" "(k, p) \<noteq> (j, q)" | "(k, p) = (j, q)" by blast
  then show "blk a 1 \<inter> blk b 1 = {}"
  proof cases
    case 1
    then have "zone_pages m z \<inter> zone_pages m x = {}" using inv A(1) B(1) unfolding alloc_inv_def zones_apart_def by blast
    with fa fb have "blk p k \<inter> blk q j = {}" using alloc_inv_free_zone [OF inv A(1)] alloc_inv_free_zone [OF inv B(1)] by blast
    with pairs_in_apart(1) [OF A(2,5)] pairs_in_apart(1) [OF B(2,5)] show ?thesis by blast
  next
    case 2
    have "blocks_disjoint fl z" using inv A(1) by (simp add: alloc_inv_def)
    with A(3,4) B(3,4) 2 have "blk p k \<inter> blk q j = {}" unfolding blocks_disjoint_def by blast
    with pairs_in_apart(1) [OF A(2,5)] pairs_in_apart(1) [OF B(2,5)] show ?thesis by blast
  next
    case 3
    with pairs_in_apart(2) [OF A(2,5)] B(5) b(2) show ?thesis by simp
  qed
qed

lemma pair_stock_apart:
  "pair_stock zs m F \<Longrightarrow> a \<in> F \<Longrightarrow> b \<in> F \<Longrightarrow> a \<noteq> b \<Longrightarrow> blk a 1 \<inter> blk b 1 = {}"
  unfolding pair_stock_def using all_pairs_apart(2) by blast

section \<open>The property\<close>

text \<open>
  C4: requests of order 1, as the caches of the slab allocator itself make them, between which the clients may overwrite
  the list node of the second page they were granted: the granted pairs are free memory, no two of them overlap, and the
  requests succeed until every free pair has been granted.
\<close>

theorem pairs_granted_once:
  assumes "alloc_inv m (set zs) fl" and "page_run (grant_pair zs) (pair_change zs) m ps m'"
  shows "(\<forall>p \<in> set ps. blk p 1 \<subseteq> all_free (set zs) fl)
     \<and> sorted_wrt (\<lambda>p q. blk p 1 \<inter> blk q 1 = {}) ps
     \<and> (grant_pair zs m' = None \<longleftrightarrow> all_pairs (set zs) fl \<subseteq> set ps)"
proof -
  have st: "pair_stock zs m (all_pairs (set zs) fl)"
    unfolding pair_stock_def using assms(1) by (intro exI [of _ "\<lambda>q. NullN"] exI [of _ "{}"] exI [of _ m] exI [of _ fl]) simp
  have ps: "distinct ps" "set ps \<subseteq> all_pairs (set zs) fl" using pairs.run_pages [OF assms(2) st] by simp_all
  have "sorted_wrt (\<lambda>p q. blk p 1 \<inter> blk q 1 = {}) ps"
    unfolding sorted_wrt_iff_nth_less
  proof (intro allI impI)
    fix i j assume ij: "i < j" "j < length ps"
    have "ps ! i \<noteq> ps ! j" using ps(1) ij by (simp add: nth_eq_iff_index_eq)
    moreover have "ps ! i \<in> all_pairs (set zs) fl" "ps ! j \<in> all_pairs (set zs) fl" using ps(2) ij by (auto dest: nth_mem)
    ultimately show "blk (ps ! i) 1 \<inter> blk (ps ! j) 1 = {}" using all_pairs_apart(2) [OF assms(1)] by blast
  qed
  then show ?thesis using pairs.run_next [OF assms(2) st] all_pairs_apart(1) [OF assms(1)] ps(2) by blast
qed

theorem pairs_granted_once_witness:
  "\<exists>p m'. grant_pair [1] demo_eight = Some (p, m') \<and> blk p 1 \<subseteq> {8..<16} \<and> grant_pair [1] m' \<noteq> None"
proof -
  let ?F = "all_pairs (set [1]) eight_fl"
  have inv: "alloc_inv demo_eight (set [1]) eight_fl" using demo_eight_inv by simp
  have e: "eight_fl 1 k = (if k = 3 then [8] else [])" for k by (auto simp: eight_fl_def empty_fl_def)
  have "pairs_in 8 3 \<subseteq> ?F"
    unfolding all_pairs_def pair_set_def using e [of 3] by (intro subsetI UN_I [of 1] UN_I [of 3] UN_I [of 8]) (simp_all add: MAX_ORDER_def)
  moreover have "8 \<in> pairs_in 8 3" "10 \<in> pairs_in 8 3" by (simp_all add: pairs_in_def blk_def)
  ultimately have F: "8 \<in> ?F" "10 \<in> ?F" by blast+
  have free: "all_free (set [1]) eight_fl = {8..<16}" unfolding all_free_def using demo_eight_free by simp
  have st: "pair_stock [1] demo_eight ?F"
    unfolding pair_stock_def using inv by (intro exI [of _ "\<lambda>q. NullN"] exI [of _ "{}"] exI [of _ demo_eight] exI [of _ eight_fl]) simp
  obtain p m' where g: "grant_pair [1] demo_eight = Some (p, m')" using pairs.grants [OF st] F(1) by blast
  have "page_run (grant_pair [1]) (pair_change [1]) demo_eight [p] m'"
    by (rule run_page [where grant = "grant_pair [1]", OF g _ run_done]) (simp add: pair_change_def)
  from pairs_granted_once [OF inv this] have "blk p 1 \<subseteq> {8..<16}" "grant_pair [1] m' \<noteq> None \<longleftrightarrow> \<not> ?F \<subseteq> {p}"
    unfolding free by auto
  moreover have "\<not> ?F \<subseteq> {p}" using F by (cases "p = 8") auto
  ultimately show ?thesis using g by blast
qed

end
