(* ===== verification/SlabStart.thy ===== *)
theory SlabStart
  imports SlabShared SlabBoot PairSource
begin

text \<open>
  From \<open>init_kmem_cache\<close> to \<open>kmalloc_init\<close>: the caches that the slab allocator keeps for its own structures serve each
  creation of a cache with one object of each kind, on pages from the source of pairs. The tests that \<open>kernel_main\<close> runs
  between the two (\<open>TestProg\<close>) are left out: the two start functions follow each other.
\<close>

section \<open>The slabs of the static caches\<close>

text \<open>Two pages, objects of 128 bytes with their link behind the structure.\<close>

definition pair_cache :: "kmem_cache \<Rightarrow> bool" where
  "pair_cache k \<longleftrightarrow> kc_cache_order k = 1 \<and> kc_object_size k = 128 \<and> unat (kc_offset k) < 128"

text \<open>The object \<open>n\<close> of the slab at the page \<open>p\<close>.\<close>

definition slot_of :: "nat \<Rightarrow> nat \<Rightarrow> u32" where
  "slot_of p n = page_address p + of_nat n * 128"

lemma pair_cache_room:
  assumes "pair_cache k" "p < 0x3FFFE"
  shows "slab_room k p" and "slab_last k = 63"
proof -
  show "slab_room k p"
    using assms lowmem_address [of p] by (simp add: slab_room_def slab_bytes_def pair_cache_def)
  have "unat (kc_offset k) < 128" using assms(1) by (simp add: pair_cache_def)
  then have "63 * 128 \<le> 8192 - Suc (unat (kc_offset k))" "8192 - Suc (unat (kc_offset k)) < 64 * 128" by linarith+
  then have "(8192 - Suc (unat (kc_offset k))) div 128 = 63" by linarith
  then show "slab_last k = 63" using assms(1) by (simp add: slab_last_def slab_bytes_def pair_cache_def)
qed

lemma slot_of_unat:
  assumes "p < 0x3FFFE" "n < 64"
  shows "unat (slot_of p n) = 4096 * p + 0xC0000000 + 128 * n"
  using links_from_unat [of "page_address p" 64 128 n] lowmem_address [of p] assms by (simp add: slot_of_def mult.commute)

lemma slot_of_eq:
  assumes "p < 0x3FFFE" "q < 0x3FFFE" "m < 64" "n < 64" "p \<noteq> q \<Longrightarrow> blk p 1 \<inter> blk q 1 = {}"
  shows "slot_of p m = slot_of q n \<longleftrightarrow> p = q \<and> m = n"
proof
  assume "slot_of p m = slot_of q n"
  then have "unat (slot_of p m) = unat (slot_of q n)" by simp
  then have u: "4096 * p + 128 * m = 4096 * q + 128 * n" using slot_of_unat assms(1-4) by simp
  have "p = q"
  proof (rule ccontr)
    assume "p \<noteq> q"
    then have "Suc p \<noteq> q" "Suc q \<noteq> p" using assms(5) by (auto simp: blk_def)
    with u assms(3,4) \<open>p \<noteq> q\<close> show False by arith
  qed
  with u show "p = q \<and> m = n" by simp
qed simp

text \<open>The cache \<open>X\<close> has served \<open>n\<close> requests, from the slab at \<open>p\<close>.\<close>

definition serving :: "slabs \<Rightarrow> u32 \<Rightarrow> nat \<Rightarrow> nat \<Rightarrow> bool" where
  "serving s X p n \<longleftrightarrow> pair_cache (caches s X)
     \<and> (if n = 0 then cache_empty X s
        else p < 0x3FFFE \<and> cpage (my_cpu X s) = Some p
          \<and> wchain (wds s) (freelist (my_cpu X s)) (drop n (slab_links (caches s X) p)))"

text \<open>What a request to \<open>X\<close> leaves.\<close>

definition same_but :: "u32 \<Rightarrow> nat \<Rightarrow> slabs \<Rightarrow> slabs \<Rightarrow> bool" where
  "same_but X p s s' \<longleftrightarrow> caches s' = caches s \<and> statics s' = statics s \<and> zones0 s' = zones0 s \<and> nbytes s' = nbytes s
     \<and> kmalloc_small s' = kmalloc_small s
     \<and> (\<forall>c. c \<noteq> cpu_of X s \<longrightarrow> cpus s' c = cpus s c) \<and> cpartial (my_cpu X s') = cpartial (my_cpu X s)
     \<and> (\<forall>x. foreign x \<longrightarrow> prev (lists (smm s')) x = prev (lists (smm s)) x \<and> nxt (lists (smm s')) x = nxt (lists (smm s)) x)
     \<and> (\<forall>z q. zones0 s = [z] \<longrightarrow> stuck z q (smm s) \<longrightarrow> stuck z q (smm s'))
     \<and> (\<forall>a. a \<notin> set (slab_links (caches s X) p) \<longrightarrow> wds s' a = wds s a)"

lemma links_drop: "n < 64 \<Longrightarrow> drop n (links_from f osz 64) = links_from (f + of_nat n * osz) osz (64 - n)"
proof -
  assume "n < 64"
  then have "[n..<64] = map (\<lambda>i. i + n) [0..<64 - n]" using map_add_upt [of n "64 - n"] by simp
  then show ?thesis by (simp add: links_from_def drop_map comp_def algebra_simps)
qed

lemma pair_links:
  assumes "pair_cache k" "p < 0x3FFFE" "n \<le> 61"
  shows "\<exists>b c r. drop n (slab_links k p) = (slot_of p n + kc_offset k) # b # c # r
    \<and> drop (Suc n) (slab_links k p) = b # c # r"
proof -
  have l: "slab_links k p = links_from (page_address p + kc_offset k) 128 64"
    using pair_cache_room(2) [OF assms(1,2)] assms(1) by (simp add: slab_links_def pair_cache_def)
  have "64 - n = Suc (Suc (Suc (61 - n)))" using assms(3) by simp
  then have d: "drop n (slab_links k p) = links_from (slot_of p n + kc_offset k) 128 (Suc (Suc (Suc (61 - n))))"
    unfolding l using assms(3) by (simp add: links_drop slot_of_def algebra_simps)
  have "drop (Suc n) (slab_links k p) = tl (drop n (slab_links k p))" by (simp add: drop_Suc tl_drop)
  then show ?thesis unfolding d by (simp add: links_from_Suc)
qed

lemma serving_next:
  assumes "serving s X p n" "n \<noteq> 0" "n \<le> 61"
  shows "\<exists>s'. kmem_cache_alloc X fl s = Some (slot_of p n, s') \<and> serving s' X p (Suc n) \<and> same_but X p s s' \<and> smm s' = smm s"
proof -
  let ?k = "caches s X"
  have S: "pair_cache ?k" "p < 0x3FFFE" "cpage (my_cpu X s) = Some p" "wchain (wds s) (freelist (my_cpu X s)) (drop n (slab_links ?k p))"
    using assms(1,2) by (simp_all add: serving_def)
  obtain b c r where d: "drop n (slab_links ?k p) = (slot_of p n + kc_offset ?k) # b # c # r"
      "drop (Suc n) (slab_links ?k p) = b # c # r"
    using pair_links [OF S(1,2) assms(3)] by blast
  let ?s = "upd_cpu (cpu_of X s) (\<lambda>x. x\<lparr>freelist := b\<rparr>) s"
  have "kmem_cache_alloc X fl s = Some (slot_of p n, ?s)"
    using kmem_cache_alloc_current [OF S(3)] take_object_more [OF S(4) [unfolded d(1)]] by simp
  moreover have "serving ?s X p (Suc n)"
    using S d by (simp add: serving_def upd_cpu_def my_cpu_def cpu_of_def)
  moreover have "same_but X p s ?s" by (simp add: same_but_def upd_cpu_def my_cpu_def cpu_of_def)
  ultimately show ?thesis by (intro exI [of _ ?s]) (simp add: upd_cpu_def)
qed

section \<open>The first request\<close>

text \<open>A list of order 0 that is stuck stays so.\<close>

lemma stuck_pair:
  assumes inv: "alloc_inv n {z} fl" and m: "mirrors c Q m n"
    and t: "pair_taken {z} fl z p n' fl'" "mirrors c Q m1 n'" "others_kept n n'"
    and m2: "zones m2 = zones m1" "lists m2 = set_prev (Lru (Suc p)) (PageN p) (lists m1)"
    and st: "stuck z q m"
  shows "stuck z q m2"
proof -
  have R: "Listhead.ring (lists n) (FreeHead z 0) (map Lru (fl z 0))" if "alloc_inv n {z} fl" for n fl
    using family_rep [of Listhead.ring "flI {z}" flH "lists n" "flL fl" "(z, 0)"] that by (simp add: alloc_inv_def flI_def MAX_ORDER_def)
  note D = mirrors_D [OF m] and D1 = mirrors_D [OF t(2)]
  have inv': "alloc_inv n' {z} fl'" and f: "fl' z 0 = fl z 0 @ [Suc p]" using t(1) by (simp_all add: pair_taken_def)
  have nx: "nxt (lists n) (FreeHead z 0) = Lru q" using st D(2) by (simp add: stuck_def)
  obtain r where r: "fl z 0 = q # r"
  proof (cases "fl z 0")
    case Nil
    then show ?thesis using R [OF inv] nx by (simp add: Listhead.ring_def)
  next
    case (Cons a r)
    then show ?thesis using R [OF inv] nx that by (simp add: Listhead.ring_def)
  qed
  have h0: "prev (lists n) (Lru q) = FreeHead z 0" using R [OF inv] r by (simp add: Listhead.ring_def)
  have q: "q \<in> Q" using st h0 D(3) [of "Lru q"] by (auto simp: stuck_def)
  have R': "Listhead.ring (lists n') (FreeHead z 0) ([] @ Lru q # map Lru (r @ [Suc p]))" using R [OF inv'] f r by simp
  have nx': "nxt (lists n') (FreeHead z 0) = Lru q" "q \<noteq> Suc p" using R' by (auto simp: Listhead.ring_def)
  have nq: "\<not> foreign (nxt (lists n') (Lru q))" unfolding ring_split(2) [OF R'] by (cases r) simp_all
  have "prev (lists m2) (Lru q) = prev (lists m) (Lru q)" using D(4) [OF q] D1(4) [OF q] nx'(2) by (simp add: m2(2) set_prev_def)
  moreover have "prev (lists m2) (FreeHead z (- 1)) = prev (lists n') (FreeHead z (- 1))"
    using D1(3) [of "FreeHead z (- 1)"] by (auto simp: m2(2) set_prev_def)
  moreover have "prev (lists n') (FreeHead z (- 1)) \<noteq> FreeHead z 0 \<and> \<not> foreign (prev (lists n') (FreeHead z (- 1)))"
    using inv' by (auto simp: alloc_inv_def slot_ok_def)
  moreover have "pcp_idle m2" using st t(3) D(1) D1(1) by (simp add: stuck_def pcp_idle_def others_kept_def m2(1))
  ultimately show ?thesis using st nx' nq D1(2) by (simp add: stuck_def m2(2) set_prev_def)
qed

text \<open>The pair source when the slab has overwritten the list node of the second page.\<close>

lemma pair_stock_slab:
  assumes st: "pair_stock zs m F" and g: "alloc_pages 0 1 zs m = (x, m1)" and ne: "F \<noteq> {}"
    and z: "\<And>p. x = PPage p \<Longrightarrow> zones m2 = zones m1 \<and> lists m2 = set_prev (Lru (Suc p)) (PageN p) (lists m1)"
  shows "\<exists>p \<in> F. x = PPage p \<and> pair_stock zs m2 (F - {p})
    \<and> (\<forall>x. foreign x \<longrightarrow> prev (lists m2) x = prev (lists m) x \<and> nxt (lists m2) x = nxt (lists m) x)
    \<and> (\<forall>z q. zs = [z] \<longrightarrow> stuck z q m \<longrightarrow> stuck z q m2)"
proof -
  obtain c Q n fl where S: "alloc_inv n (set zs) fl" "Q \<subseteq> singles (set zs) fl" "mirrors c Q m n" "all_pairs (set zs) fl = F"
    using st unfolding pair_stock_def by blast
  have "\<not> (\<forall>z \<in> set zs. pair_set fl z = {})" using S(4) ne by (auto simp: all_pairs_def)
  with alloc_pair_cases [OF S(1) subset_refl S(3,2), of 0] obtain z p m' n' fl' where
      u: "z \<in> set zs" "alloc_pages 0 1 zs m = (PPage p, m')" "pair_taken (set zs) fl z p n' fl'" "mirrors c Q m' n'" "others_kept n n'"
    by (elim disjE exE conjE) (blast, rule that)
  have e: "x = PPage p" "m' = m1" using u(2) unfolding g by simp_all
  note t = u(1) e(1) u(3) u(4) [unfolded e(2)] u(5)
  note a = pair_taken_all [OF S(1) t(1,3)] and M = z [OF t(2)]
  have "\<exists>n2. mirrors (\<lambda>q. prev (lists m2) (Lru q)) (insert (Suc p) Q) m2 n2 \<and> client_change n' n2"
    by (rule mirrors_change [OF t(4)]) (use M in \<open>auto simp: set_prev_def\<close>)
  then obtain n2 where n2: "mirrors (\<lambda>q. prev (lists m2) (Lru q)) (insert (Suc p) Q) m2 n2" "client_change n' n2" by blast
  have "alloc_inv n2 (set zs) fl'" using t(3) alloc_inv_client [OF _ n2(2)] by (auto simp: pair_taken_def)
  then have "pair_stock zs m2 (F - {p})"
    unfolding pair_stock_def using n2(1) a(1,3) S(2,4)
    by (intro exI [of _ "\<lambda>q. prev (lists m2) (Lru q)"] exI [of _ "insert (Suc p) Q"] exI [of _ n2] exI [of _ fl']) auto
  moreover have "prev (lists m2) x = prev (lists m) x \<and> nxt (lists m2) x = nxt (lists m) x" if "foreign x" for x
  proof -
    have x: "x \<notin> Lru ` Q" "x \<noteq> Lru (Suc p)" using that by auto
    then have "prev (lists m2) x = prev (lists n') x" "nxt (lists m2) x = nxt (lists n') x"
      using M mirrors_D(2,3) [OF t(4)] by (simp_all add: set_prev_def)
    moreover have "prev (lists n') x = prev (lists m) x" "nxt (lists n') x = nxt (lists m) x"
      using t(5) that x(1) mirrors_D(2,3) [OF S(3)] by (simp_all add: others_kept_def)
    ultimately show ?thesis by simp
  qed
  moreover have "stuck z' q m2" if "zs = [z']" "stuck z' q m" for z' q
  proof -
    have e: "set zs = {z'}" "z = z'" using that(1) t(1) by simp_all
    show ?thesis using stuck_pair [OF _ S(3) _ t(4,5) conjunct1 [OF M] conjunct2 [OF M] that(2)] S(1) t(3) unfolding e by blast
  qed
  ultimately show ?thesis using t(2) a(2) S(4) by blast
qed

lemma getpages_same:
  assumes "kmem_getpages c g s = Some (p, s')"
  shows "statics s' = statics s" and "nbytes s' = nbytes s"
  using assms by (simp_all add: kmem_getpages_def Let_def on_mm_def split: prod.splits pgptr.splits) auto

lemma new_slab_same:
  assumes "new_slab c g s = Some (p, s')"
  shows "statics s' = statics s" and "nbytes s' = nbytes s"
proof -
  obtain q s1 where s1: "kmem_getpages c (kc_cache_order (caches s c)) s = Some (q, s1)"
    using assms by (auto simp: new_slab_def split: Option.bind_splits)
  then show "statics s' = statics s" "nbytes s' = nbytes s"
    using assms getpages_same [OF s1] by (auto simp: new_slab_def Let_def on_mm_def upd_cpu_def split: Option.bind_splits)
qed

lemma serving_first:
  assumes s: "serving s X q 0" and st: "pair_stock (zones0 s) (smm s) F" and F: "F \<noteq> {}" "F \<subseteq> {..<0x3FFFE}"
  shows "\<exists>p \<in> F. \<exists>s'. kmem_cache_alloc X fl s = Some (slot_of p 0, s') \<and> serving s' X p 1 \<and> same_but X p s s'
    \<and> pair_stock (zones0 s) (smm s') (F - {p})"
proof -
  let ?k = "caches s X"
  have k: "pair_cache ?k" "kc_cache_order ?k = 1" and e: "cache_empty X s" using s by (simp_all add: serving_def pair_cache_def)
  obtain p m where a: "alloc_pages 0 1 (zones0 s) (smm s) = (PPage p, m)" "p \<in> F"
    using pairs.grants [OF st F(1)] by (auto simp: grant_pair_def split: prod.splits pgptr.splits)
  then have a': "alloc_pages 0 (unat (kc_cache_order ?k)) (zones0 s) (smm s) = (PPage p, m)" by (simp add: k(2))
  have p: "p < 0x3FFFE" using a(2) F(2) by blast
  note room = pair_cache_room(1) [OF k(1) p]
  obtain t where t: "new_slab X fl s = Some (p, t)" "slab_ready ?k p (wds s) (wds t)" "caches t = caches s" "zones0 t = zones0 s"
      "cpus t = (cpus s)(cpu_of X s := (cpus s (cpu_of X s))\<lparr>freelist := page_address p + kc_offset ?k\<rparr>)"
    using new_slab_some [OF a' room, of fl] by (elim exE conjE) (rule that)
  obtain s1 where s1: "kmem_getpages X (kc_cache_order ?k) s = Some (p, s1)" "lists (smm t) = lists (smm s1)" "zones (smm t) = zones (smm s1)"
    using new_slab_mm [OF t(1)] by blast
  have l: "lists (smm t) = set_prev (Lru (Suc p)) (PageN p) (lists m)" "zones (smm t) = zones m"
    using getpages_two_lists [OF a(1) [unfolded One_nat_def] k(2) s1(1)] unfolding s1(2,3) by blast+
  have stock: "pair_stock (zones0 s) (smm t) (F - {p})"
      "\<And>x. foreign x \<Longrightarrow> prev (lists (smm t)) x = prev (lists (smm s)) x \<and> nxt (lists (smm t)) x = nxt (lists (smm s)) x"
      "\<And>z q. zones0 s = [z] \<Longrightarrow> stuck z q (smm s) \<Longrightarrow> stuck z q (smm t)"
    using pair_stock_slab [OF st a(1) F(1), of "smm t"] l by (metis pgptr.inject(1))+
  obtain b c r where d: "slab_links ?k p = (slot_of p 0 + kc_offset ?k) # b # c # r" "drop 1 (slab_links ?k p) = b # c # r"
    using pair_links [OF k(1) p, of 0] by auto
  let ?t = "upd_cpu (cpu_of X t) (\<lambda>c. c\<lparr>cpage := Some p\<rparr>) t"
  have cur: "cpage (my_cpu X ?t) = Some p" by (simp add: my_cpu_def upd_cpu_def cpu_of_def)
  have w: "wchain (wds ?t) (freelist (my_cpu X ?t)) (slab_links ?k p)"
    using t(2,3,5) by (simp add: slab_ready_def my_cpu_def upd_cpu_def cpu_of_def)
  let ?s = "upd_cpu (cpu_of X ?t) (\<lambda>x. x\<lparr>freelist := b\<rparr>) ?t"
  have "kmem_cache_alloc X fl s = Some (take_object X ?t)"
    using e t(1) by (simp add: kmem_cache_alloc_def cache_empty_def my_cpu_def seeknode_def)
  also have "take_object X ?t = (slot_of p 0, ?s)"
    using take_object_more [OF w [unfolded d(1)]] t(3) by (simp add: upd_cpu_def)
  finally have A: "kmem_cache_alloc X fl s = Some (slot_of p 0, ?s)" .
  moreover have "serving ?s X p 1"
    using k(1) p w d t(3) by (simp add: serving_def upd_cpu_def my_cpu_def cpu_of_def)
  moreover have "same_but X p s ?s"
    unfolding same_but_def using t new_slab_sizes [OF t(1)] new_slab_same [OF t(1)] stock(2,3)
    by (simp add: upd_cpu_def my_cpu_def cpu_of_def slab_ready_def)
  moreover have "smm ?s = smm t" by (simp add: upd_cpu_def)
  ultimately show ?thesis using a(2) stock(1) by (intro bexI [of _ p] exI [of _ ?s]) simp_all
qed

section \<open>One object from each\<close>

lemma serving_step:
  assumes s: "serving s X q n" "n \<le> 61" and st: "pair_stock (zones0 s) (smm s) F" and F: "F \<subseteq> {..<0x3FFFE}" "n = 0 \<longrightarrow> F \<noteq> {}"
  shows "\<exists>p F' s'. kmem_cache_alloc X fl s = Some (slot_of p n, s') \<and> serving s' X p (Suc n) \<and> same_but X p s s'
    \<and> pair_stock (zones0 s') (smm s') F' \<and> (if n = 0 then p \<in> F \<and> F' = F - {p} else p = q \<and> F' = F)"
proof (cases "n = 0")
  case True
  obtain p s' where "p \<in> F" "kmem_cache_alloc X fl s = Some (slot_of p 0, s')" "serving s' X p 1" "same_but X p s s'"
      "pair_stock (zones0 s) (smm s') (F - {p})"
    using serving_first [OF s(1) [unfolded True] st F(2) [rule_format, OF True] F(1), of fl] by blast
  with True show ?thesis by (intro exI [of _ p] exI [of _ "F - {p}"] exI [of _ s']) (simp add: same_but_def)
next
  case False
  with serving_next [OF s(1) False s(2), of fl] st show ?thesis by (auto simp: same_but_def)
qed

text \<open>A slab keeps serving when others do.\<close>

lemma slab_links_apart:
  assumes "pair_cache k" "pair_cache l" "p < 0x3FFFE" "q < 0x3FFFE" "blk p 1 \<inter> blk q 1 = {}"
  shows "set (slab_links k p) \<inter> set (slab_links l q) = {}"
proof -
  have at: "\<exists>i<64. unat a = 4096 * p + 0xC0000000 + unat (kc_offset k) + i * 128"
    if k: "pair_cache k" and p: "p < 0x3FFFE" and a: "a \<in> set (slab_links k p)" for k p a
  proof -
    have o: "unat (kc_offset k) < 128" "kc_object_size k = 128" using k by (simp_all add: pair_cache_def)
    have u: "unat (page_address p) = 4096 * p + 0xC0000000" using p by (intro lowmem_address) simp
    then have f: "unat (page_address p + kc_offset k) = 4096 * p + 0xC0000000 + unat (kc_offset k)"
      using o p by (subst unat_add_small) simp_all
    obtain i where i: "i < 64" "a = page_address p + kc_offset k + of_nat i * kc_object_size k"
      using a pair_cache_room(2) [OF k p] by (auto simp: slab_links_def links_from_def)
    have "unat a = unat (page_address p + kc_offset k) + i * unat (kc_object_size k)"
      unfolding i(2) by (rule links_from_unat [of _ 64]) (use o i(1) p in \<open>simp_all add: f\<close>)
    then show ?thesis using i(1) o(2) f by (intro exI [of _ i]) simp
  qed
  have "p \<noteq> q" "Suc p \<noteq> q" "Suc q \<noteq> p" using assms(5) by (auto simp: blk_def)
  then have ne: "4096 * p + o1 + i * 128 \<noteq> 4096 * q + o2 + j * 128" if "i < 64" "j < 64" "o1 < 128" "o2 < 128" for i j o1 o2
    using that by arith
  have o: "unat (kc_offset k) < 128" "unat (kc_offset l) < 128" using assms(1,2) by (simp_all add: pair_cache_def)
  show ?thesis
  proof (rule ccontr)
    assume "set (slab_links k p) \<inter> set (slab_links l q) \<noteq> {}"
    then obtain a where "a \<in> set (slab_links k p)" "a \<in> set (slab_links l q)" by blast
    with at [OF assms(1,3)] at [OF assms(2,4)] obtain i j where "i < 64" "j < 64"
        "4096 * p + 0xC0000000 + unat (kc_offset k) + i * 128 = 4096 * q + 0xC0000000 + unat (kc_offset l) + j * 128"
      by metis
    with ne [OF this(1,2) o] show False by simp
  qed
qed

definition unused_by :: "u32 \<Rightarrow> slabs \<Rightarrow> slabs \<Rightarrow> bool" where
  "unused_by Y s s' \<longleftrightarrow> caches s' Y = caches s Y \<and> cpus s' (cpu_of Y s) = cpus s (cpu_of Y s)
     \<and> (\<forall>m. list_empty (NodePartial m) (lists (smm s)) \<longrightarrow> list_empty (NodePartial m) (lists (smm s')))"

lemma unused_by_trans: "unused_by Y s t \<Longrightarrow> unused_by Y t u \<Longrightarrow> unused_by Y s u"
  by (simp add: unused_by_def cpu_of_def)

lemma same_but_unused: "same_but X p s s' \<Longrightarrow> cpu_of Y s \<noteq> cpu_of X s \<Longrightarrow> unused_by Y s s'"
  by (simp add: same_but_def unused_by_def list_empty_def)

lemma serving_unused:
  assumes "serving s Y q n" "unused_by Y s s'" "\<And>a. n \<noteq> 0 \<Longrightarrow> a \<in> set (slab_links (caches s Y) q) \<Longrightarrow> wds s' a = wds s a"
  shows "serving s' Y q n"
proof -
  have same: "caches s' Y = caches s Y" "my_cpu Y s' = my_cpu Y s" using assms(2) by (simp_all add: unused_by_def my_cpu_def cpu_of_def)
  have w: "wchain (wds s') p as = wchain (wds s) p as" if "n \<noteq> 0" "set as \<subseteq> set (slab_links (caches s Y) q)" for p as
    using that(2) by (induction as arbitrary: p) (auto simp: assms(3) [OF that(1)])
  show ?thesis
  proof (cases "n = 0")
    case True
    then show ?thesis using assms(1,2) same by (simp add: serving_def cache_empty_def unused_by_def)
  next
    case False
    then show ?thesis using assms(1) same w [OF False, of "drop n (slab_links (caches s Y) q)"] by (simp add: serving_def set_drop_subset)
  qed
qed

section \<open>Caches that share the source of pairs\<close>

text \<open>
  The caches of \<open>Xs\<close> have served \<open>st\<close> requests each, from slabs at the pages \<open>pg\<close>. Their pages are in \<open>G\<close>, apart
  from each other, and hold none of their structures; those of \<open>F\<close> are still free, one for every cache without a slab.
\<close>

definition pool :: "nat set \<Rightarrow> u32 set \<Rightarrow> slabs \<Rightarrow> (u32 \<Rightarrow> nat) \<Rightarrow> (u32 \<Rightarrow> nat) \<Rightarrow> nat set \<Rightarrow> bool" where
  "pool G Xs s pg st F \<longleftrightarrow>
     (\<forall>X\<in>Xs. serving s X (pg X) (st X) \<and> (st X \<noteq> 0 \<longrightarrow> pg X \<in> G - F))
     \<and> (\<forall>X\<in>Xs. \<forall>Y\<in>Xs. X \<noteq> Y \<longrightarrow> cpu_of X s \<noteq> cpu_of Y s \<and> (st X \<noteq> 0 \<longrightarrow> st Y \<noteq> 0 \<longrightarrow> pg X \<noteq> pg Y))
     \<and> (\<forall>p\<in>G. \<forall>i<64. \<forall>X\<in>Xs. slot_of p i \<notin> {X, cpu_of X s})
     \<and> finite Xs \<and> card {X \<in> Xs. st X = 0} \<le> card F \<and> pair_stock (zones0 s) (smm s) F \<and> F \<subseteq> G \<and> G \<subseteq> {..<0x3FFFE}
     \<and> (\<forall>p\<in>G. \<forall>q\<in>G. p \<noteq> q \<longrightarrow> blk p 1 \<inter> blk q 1 = {})"

lemma poolD:
  assumes "pool G Xs s pg st F"
  shows "X \<in> Xs \<Longrightarrow> serving s X (pg X) (st X)" and "X \<in> Xs \<Longrightarrow> st X \<noteq> 0 \<Longrightarrow> pg X \<in> G - F"
    and "X \<in> Xs \<Longrightarrow> Y \<in> Xs \<Longrightarrow> X \<noteq> Y \<Longrightarrow> cpu_of X s \<noteq> cpu_of Y s"
    and "X \<in> Xs \<Longrightarrow> Y \<in> Xs \<Longrightarrow> X \<noteq> Y \<Longrightarrow> st X \<noteq> 0 \<Longrightarrow> st Y \<noteq> 0 \<Longrightarrow> pg X \<noteq> pg Y"
    and "p \<in> G \<Longrightarrow> i < 64 \<Longrightarrow> X \<in> Xs \<Longrightarrow> slot_of p i \<noteq> X \<and> slot_of p i \<noteq> cpu_of X s"
    and "finite Xs" and "card {X \<in> Xs. st X = 0} \<le> card F" and "pair_stock (zones0 s) (smm s) F" and "F \<subseteq> G" and "G \<subseteq> {..<0x3FFFE}"
    and "p \<in> G \<Longrightarrow> q \<in> G \<Longrightarrow> p \<noteq> q \<Longrightarrow> blk p 1 \<inter> blk q 1 = {}"
  using assms unfolding pool_def by blast+

lemma pool_cong:
  assumes "pool G Xs s pg st F" "\<And>X. X \<in> Xs \<Longrightarrow> pg' X = pg X \<and> st' X = st X"
  shows "pool G Xs s pg' st' F"
proof -
  have "{X \<in> Xs. st' X = 0} = {X \<in> Xs. st X = 0}" using assms(2) by auto
  then show ?thesis using assms by (simp add: pool_def)
qed

text \<open>A client that leaves the structures of the caches alone.\<close>

lemma pool_change:
  assumes P: "pool G Xs s pg st F" and u: "\<And>X. X \<in> Xs \<Longrightarrow> unused_by X s s'" and w: "wds s' = wds s"
    and st: "pair_stock (zones0 s') (smm s') F"
  shows "pool G Xs s' pg st F"
proof -
  have c: "cpu_of X s' = cpu_of X s" if "X \<in> Xs" for X using u [OF that] by (simp add: unused_by_def cpu_of_def)
  have "serving s' X (pg X) (st X)" if "X \<in> Xs" for X
    by (rule serving_unused [OF poolD(1) [OF P that] u [OF that]]) (simp add: w)
  then show ?thesis using P st c by (simp add: pool_def)
qed

lemma pool_step:
  assumes P: "pool G Xs s pg st F" and X: "X \<in> Xs" and nX: "st X = n" and n: "n \<le> 61"
  shows "\<exists>p F' s'. kmem_cache_alloc X fl s = Some (slot_of p n, s') \<and> same_but X p s s' \<and> p \<in> G
    \<and> pool G Xs s' (pg(X := p)) (st(X := Suc n)) F' \<and> (n \<noteq> 0 \<longrightarrow> p = pg X)"
proof -
  note D = poolD [OF P]
  have fin: "finite F" by (rule finite_subset [OF order_trans [OF D(9,10)] finite_lessThan])
  have z: "{Y \<in> Xs. (st(X := Suc (st X))) Y = 0} = {Y \<in> Xs. st Y = 0} - {X}" by auto
  have ne: "st X = 0 \<longrightarrow> F \<noteq> {}"
  proof (intro impI notI)
    assume that: "st X = 0" and "F = {}"
    with D(6,7) have "{Y \<in> Xs. st Y = 0} = {}" by simp
    with X that show False by blast
  qed
  obtain p F' s' where r: "kmem_cache_alloc X fl s = Some (slot_of p (st X), s')" "serving s' X p (Suc (st X))" "same_but X p s s'"
      "pair_stock (zones0 s') (smm s') F'" "if st X = 0 then p \<in> F \<and> F' = F - {p} else p = pg X \<and> F' = F"
    using serving_step [OF D(1) [OF X] n [folded nX] D(8) order_trans [OF D(9,10)] ne, of fl] by (elim exE conjE) (rule that)
  have p: "p \<in> G - F'" "F' \<subseteq> F" using r(5) D(2) [OF X] D(9) by (auto split: if_splits)
  have crd: "card {Y \<in> Xs. (st(X := Suc (st X))) Y = 0} \<le> card F'"
  proof (cases "st X = 0")
    case True
    then have "card F' = card F - 1" using r(5) fin by simp
    moreover have "card ({Y \<in> Xs. st Y = 0} - {X}) = card {Y \<in> Xs. st Y = 0} - 1" using X True D(6) by simp
    ultimately show ?thesis using D(7) unfolding z by simp
  next
    case False
    then have "{Y \<in> Xs. st Y = 0} - {X} = {Y \<in> Xs. st Y = 0}" by auto
    with False r(5) D(7) show ?thesis unfolding z by simp
  qed
  have other: "p \<noteq> pg Y" if "Y \<in> Xs" "Y \<noteq> X" "st Y \<noteq> 0" for Y
    using r(5) D(2) [OF that(1,3)] D(4) [OF X that(1)] that by (auto split: if_splits)
  have srv: "serving s' Y (pg Y) (st Y)" if "Y \<in> Xs" "Y \<noteq> X" for Y
  proof (rule serving_unused [OF D(1) [OF that(1)] same_but_unused [OF r(3) D(3) [OF that(1) X that(2)]]])
    fix a assume a: "st Y \<noteq> 0" "a \<in> set (slab_links (caches s Y) (pg Y))"
    have "pair_cache (caches s X)" "pair_cache (caches s Y)" using D(1) [OF X] D(1) [OF that(1)] by (simp_all add: serving_def)
    moreover have "pg Y \<in> G" "p \<noteq> pg Y" using D(2) [OF that(1) a(1)] other [OF that a(1)] by simp_all
    ultimately have "set (slab_links (caches s X) p) \<inter> set (slab_links (caches s Y) (pg Y)) = {}"
      using p(1) D(10) by (intro slab_links_apart D(11)) auto
    with a(2) r(3) show "wds s' a = wds s a" by (auto simp: same_but_def)
  qed
  have cpu: "cpu_of Y s' = cpu_of Y s" for Y using r(3) by (simp add: same_but_def cpu_of_def)
  have pgo: "pg Y \<in> G - F'" if "Y \<in> Xs" "st Y \<noteq> 0" for Y using D(2) [OF that] p(2) by blast
  have "pool G Xs s' (pg(X := p)) (st(X := Suc (st X))) F'"
    unfolding pool_def
  proof (intro conjI ballI impI allI)
    fix Y assume Y: "Y \<in> Xs"
    show "serving s' Y ((pg(X := p)) Y) ((st(X := Suc (st X))) Y)" using r(2) srv [OF Y] by (cases "Y = X") simp_all
    show "(pg(X := p)) Y \<in> G - F'" if "(st(X := Suc (st X))) Y \<noteq> 0" using p(1) pgo [OF Y] that by (cases "Y = X") simp_all
    fix Z assume Z: "Z \<in> Xs" "Y \<noteq> Z"
    show "cpu_of Y s' \<noteq> cpu_of Z s'" unfolding cpu using D(3) [OF Y Z] .
    show "(pg(X := p)) Y \<noteq> (pg(X := p)) Z" if "(st(X := Suc (st X))) Y \<noteq> 0" "(st(X := Suc (st X))) Z \<noteq> 0"
      using that Z(2) D(4) [OF Y Z] other [OF Y] other [OF Z(1)] by (cases "Y = X"; cases "Z = X") auto
  next
    fix q i Y assume "q \<in> G" "i < (64 :: nat)" "Y \<in> Xs"
    then show "slot_of q i \<notin> {Y, cpu_of Y s'}" using D(5) unfolding cpu by simp
  next
    show "F' \<subseteq> G" using p(2) D(9) by blast
  qed (use crd r(4) D(6,10) D(11) in auto)
  then show ?thesis using r p(1) unfolding nX by auto
qed

section \<open>Creating a cache\<close>

definition filled :: "u32 \<Rightarrow> u32 \<Rightarrow> u32 \<Rightarrow> kmem_cache \<Rightarrow> kmem_cache" where
  "filled sz align ord k = set_min_partial (word_of_int (ilog2 False sz sdiv 2))
     (set_cpu_partial (set_layout sz align k\<lparr>kc_cache_order := ord\<rparr>))"

lemma kmem_cache_create_run:
  assumes "kmem_cache_alloc (kmem_cache_cache (statics s)) fl s = Some (d, s1)" and "name_fits d nm"
  shows "\<exists>m. named m (d + 72) nm \<and> (\<forall>x. 32 \<le> x - (d + 72) \<longrightarrow> m x = nbytes s1 x)
    \<and> kmem_cache_create (Some nm) sz align fl ord ctor s = do {
        s4 \<leftarrow> init_cpu_slub d fl (upd_cache d (\<lambda>k. filled sz align ord (k\<lparr>kc_allocflags := fl, kc_ctor := ctor\<rparr>)) (s1\<lparr>nbytes := m\<rparr>));
        s5 \<leftarrow> init_pernode_slab d fl s4;
        Some (d, on_mm (on_lists (list_add CacheListHead (CacheHead d))) s5) }"
proof -
  let ?s = "upd_cache d (\<lambda>k. k\<lparr>kc_allocflags := fl, kc_ctor := ctor\<rparr>) s1"
  obtain m where m: "set_name d nm ?s = Some (?s\<lparr>nbytes := m\<rparr>)" "named m (d + 72) nm" "\<forall>x. 32 \<le> x - (d + 72) \<longrightarrow> m x = nbytes s1 x"
    using set_name_plain [of nm d ?s] assms(2) by (auto simp: name_fits_def upd_cache_def)
  show ?thesis
    using assms(1) m by (intro exI [of _ m]) (simp add: kmem_cache_create_def upd_cache_def filled_def)
qed

lemma filled_simps [simp]:
  "kc_offset (filled sz al ord k) = fst (slab_layout sz al)" "kc_object_size (filled sz al ord k) = snd (slab_layout sz al)"
  "kc_size (filled sz al ord k) = sz" "kc_cache_order (filled sz al ord k) = ord" "kc_ctor (filled sz al ord k) = kc_ctor k"
  by (simp_all add: filled_def set_min_partial_def set_cpu_partial_def set_layout_def split_beta)

lemma slot_name_fits:
  assumes "p < 0x3FFFE" "n < 64" "asc CHR ''%'' \<notin> set nm" "length nm \<le> 64"
  shows "name_fits (slot_of p n) nm"
proof -
  have u: "unat (slot_of p n) = 4096 * p + 0xC0000000 + 128 * n" by (rule slot_of_unat [OF assms(1,2)])
  then have v: "unat (slot_of p n + 72) = 4096 * p + 0xC0000000 + 128 * n + 72"
    using assms(1,2) by (subst unat_add_small) simp_all
  then have "unat (slot_of p n + 72) \<noteq> 0" by simp
  then have "slot_of p n + 72 \<noteq> 0" by (metis unat_0)
  then show ?thesis using assms v by (simp add: name_fits_def in_memory_def)
qed

text \<open>The three caches at the same stage; \<open>ks\<close> are the caches on the list.\<close>

definition static_caches :: "slab_statics \<Rightarrow> u32 set" where
  "static_caches y = {kmem_cache_cache y, kmem_cache_cpu_cache y, kmem_cache_node_cache y}"

definition creating :: "nat set \<Rightarrow> slabs \<Rightarrow> nat \<Rightarrow> (u32 \<Rightarrow> nat) \<Rightarrow> nat set \<Rightarrow> u32 list \<Rightarrow> bool" where
  "creating G s n pg F ks \<longleftrightarrow> pool G (static_caches (statics s)) s pg (\<lambda>X. n) F
     \<and> distinct [kmem_cache_cache (statics s), kmem_cache_cpu_cache (statics s), kmem_cache_node_cache (statics s)]
     \<and> Listhead.ring (lists (smm s)) CacheListHead (map CacheHead ks)"

text \<open>The cache \<open>d\<close> as it was asked for, with its structures \<open>c\<close> and \<open>nd\<close>, without a slab.\<close>

definition as_asked :: "slabs \<Rightarrow> u32 \<Rightarrow> u32 \<Rightarrow> u32 \<Rightarrow> u8 list \<Rightarrow> u32 \<Rightarrow> u32 \<Rightarrow> u32 \<Rightarrow> u32 \<Rightarrow> bool" where
  "as_asked s d c nd nm sz align ord ctor \<longleftrightarrow> (kc_offset (caches s d), kc_object_size (caches s d)) = slab_layout sz align
     \<and> kc_size (caches s d) = sz \<and> kc_cache_order (caches s d) = ord \<and> kc_ctor (caches s d) = ctor
     \<and> kc_cpu_slab (caches s d) = c \<and> kc_node (caches s d) = nd \<and> cache_empty d s \<and> named (nbytes s) (d + 72) nm"

text \<open>What else the creation of \<open>d\<close> leaves.\<close>

definition create_frame :: "u32 \<Rightarrow> u32 \<Rightarrow> slabs \<Rightarrow> slabs \<Rightarrow> bool" where
  "create_frame d c s s' \<longleftrightarrow> statics s' = statics s \<and> zones0 s' = zones0 s \<and> kmalloc_small s' = kmalloc_small s
     \<and> (\<forall>k. k \<noteq> d \<longrightarrow> caches s' k = caches s k)
     \<and> (\<forall>x. x \<notin> insert c ((\<lambda>k. cpu_of k s) ` static_caches (statics s)) \<longrightarrow> cpus s' x = cpus s x)
     \<and> (\<forall>m. list_empty (NodePartial m) (lists (smm s)) \<longrightarrow> list_empty (NodePartial m) (lists (smm s')))
     \<and> (\<forall>x. 32 \<le> x - (d + 72) \<longrightarrow> nbytes s' x = nbytes s x)"

lemma init_cpu_slub_run:
  assumes "kmem_cache_alloc (kmem_cache_cpu_cache (statics s)) fl s = Some (c, t)"
  shows "init_cpu_slub d fl s = Some (upd_cpu c (\<lambda>x. x\<lparr>freelist := 0, cpage := None, cpartial := None\<rparr>) (upd_cache d (\<lambda>k. k\<lparr>kc_cpu_slab := c\<rparr>) t))"
  using assms by (simp add: init_cpu_slub_def)

lemma init_pernode_slab_run:
  assumes "kmem_cache_alloc (kmem_cache_node_cache (statics s)) fl s = Some (nd, t)"
  shows "init_pernode_slab d fl s = Some ((on_mm (on_lists (init_list (NodePartial nd))) (upd_cache d (\<lambda>k. k\<lparr>kc_node := nd\<rparr>) t))\<lparr>nr_partial := (nr_partial t)(nd := 0)\<rparr>)"
  using assms by (simp add: init_pernode_slab_def on_mm_def upd_cache_def)

lemma create_frame_lists:
  fixes d nd :: u32
  assumes r: "Listhead.ring (lists (smm s)) CacheListHead (map CacheHead ks)" and d: "d \<notin> set ks"
    and f: "\<And>x. foreign x \<Longrightarrow> prev (lists (smm u)) x = prev (lists (smm s)) x \<and> nxt (lists (smm u)) x = nxt (lists (smm s)) x"
  defines "m' \<equiv> on_lists (list_add CacheListHead (CacheHead d)) (on_lists (init_list (NodePartial nd)) (smm u))"
  shows "client_change (smm u) m'" and "Listhead.ring (lists m') CacheListHead (map CacheHead (d # ks))"
    and "list_empty (NodePartial nd) (lists m')"
    and "list_empty (NodePartial m) (lists (smm u)) \<Longrightarrow> list_empty (NodePartial m) (lists m')"
proof -
  have ru: "Listhead.ring (lists (smm u)) CacheListHead (map CacheHead ks)"
    by (rule ring_frame [OF r]) (use f in auto)
  note R = register_cache [OF ru d, of nd, folded m'_def]
  show "client_change (smm u) m'" "Listhead.ring (lists m') CacheListHead (map CacheHead (d # ks))" "list_empty (NodePartial nd) (lists m')"
    by (rule R)+
  have "Listhead.ring (init_list (NodePartial nd) (lists (smm u))) CacheListHead (map CacheHead ks)"
    by (rule init_list_ring_other [OF ru]) auto
  from list_add_partial [OF this, of m d]
  show "list_empty (NodePartial m) (lists m')" if "list_empty (NodePartial m) (lists (smm u))"
    using that by (auto simp: m'_def init_list_def set_prev_def set_nxt_def list_empty_def)
qed

lemma pair_stock_client: "pair_stock zs m F \<Longrightarrow> client_change m m' \<Longrightarrow> pair_stock zs m' F"
  by (rule pair_stock_change, assumption) (simp add: client_change_def pair_change_def)

lemma create_served:
  assumes c: "creating G s n pg F ks" and n: "n \<le> 61" and fresh: "\<forall>p \<in> G. slot_of p n \<notin> set ks"
    and nm: "asc CHR ''%'' \<notin> set nm" "length nm \<le> 64"
  defines "A \<equiv> kmem_cache_cache (statics s)" and "B \<equiv> kmem_cache_cpu_cache (statics s)" and "C \<equiv> kmem_cache_node_cache (statics s)"
  shows "\<exists>pg' F' s'. (n \<noteq> 0 \<longrightarrow> (\<forall>X \<in> static_caches (statics s). pg' X = pg X))
     \<and> kmem_cache_create (Some nm) sz align fl ord ctor s = Some (slot_of (pg' A) n, s')
     \<and> creating G s' (Suc n) pg' F' (slot_of (pg' A) n # ks)
     \<and> as_asked s' (slot_of (pg' A) n) (slot_of (pg' B) n) (slot_of (pg' C) n) nm sz align ord ctor
     \<and> create_frame (slot_of (pg' A) n) (slot_of (pg' B) n) s s'
     \<and> (\<exists>u. kmem_cache_alloc A fl s = Some (slot_of (pg' A) n, u)
          \<and> (\<forall>z q. zones0 s = [z] \<longrightarrow> stuck z q (smm s) \<or> stuck z q (smm u) \<longrightarrow> stuck z q (smm s')))"
proof -
  let ?S = "static_caches (statics s)"
  have S: "?S = {A, B, C}" by (simp add: static_caches_def A_def B_def C_def)
  have P0: "pool G ?S s pg (\<lambda>X. n) F" and ne: "distinct [A, B, C]" and r: "Listhead.ring (lists (smm s)) CacheListHead (map CacheHead ks)"
    using c by (simp_all add: creating_def A_def B_def C_def)
  have G: "G \<subseteq> {..<0x3FFFE}" by (rule poolD(10) [OF P0])
  have in_S: "A \<in> ?S" "B \<in> ?S" "C \<in> ?S" by (simp_all add: S)
  \<comment> \<open>the descriptor\<close>
  obtain pa F1 s1 where a: "kmem_cache_alloc A fl s = Some (slot_of pa n, s1)" "same_but A pa s s1" "pa \<in> G"
      "pool G ?S s1 (pg(A := pa)) ((\<lambda>X. n)(A := Suc n)) F1" "n \<noteq> 0 \<longrightarrow> pa = pg A"
    using pool_step [OF P0 in_S(1) refl n, of fl] by (elim exE conjE) (rule that)
  let ?d = "slot_of pa n"
  have d: "?d \<notin> ?S" using poolD(5) [OF P0 a(3), of n] n by auto
  note sa = a(2) [unfolded same_but_def]
  have pl: "pa < 0x3FFFE" "n < 64" using a(3) G n by auto
  obtain m where m: "named m (?d + 72) nm" "\<forall>x. 32 \<le> x - (?d + 72) \<longrightarrow> m x = nbytes s1 x"
      and run: "kmem_cache_create (Some nm) sz align fl ord ctor s = do {
        s4 \<leftarrow> init_cpu_slub ?d fl (upd_cache ?d (\<lambda>k. filled sz align ord (k\<lparr>kc_allocflags := fl, kc_ctor := ctor\<rparr>)) (s1\<lparr>nbytes := m\<rparr>));
        s5 \<leftarrow> init_pernode_slab ?d fl s4;
        Some (?d, on_mm (on_lists (list_add CacheListHead (CacheHead ?d))) s5) }"
    using kmem_cache_create_run [OF a(1) [unfolded A_def] slot_name_fits [OF pl nm]] by blast
  define s3 where "s3 = upd_cache ?d (\<lambda>k. filled sz align ord (k\<lparr>kc_allocflags := fl, kc_ctor := ctor\<rparr>)) (s1\<lparr>nbytes := m\<rparr>)"
  have f3: "statics s3 = statics s" "smm s3 = smm s1" "zones0 s3 = zones0 s" "wds s3 = wds s1" "cpus s3 = cpus s1" "nbytes s3 = m"
      "kmalloc_small s3 = kmalloc_small s" "\<And>k. k \<noteq> ?d \<Longrightarrow> caches s3 k = caches s k"
      "caches s3 ?d = filled sz align ord ((caches s ?d)\<lparr>kc_allocflags := fl, kc_ctor := ctor\<rparr>)"
    using sa by (simp_all add: s3_def upd_cache_def)
  have P3: "pool G ?S s3 (pg(A := pa)) ((\<lambda>X. n)(A := Suc n)) F1"
  proof (rule pool_change [OF a(4) _ f3(4)])
    show "unused_by X s1 s3" if "X \<in> ?S" for X
      using that d f3(2,5,8) sa by (cases "X = ?d") (auto simp: unused_by_def)
  qed (use poolD(8) [OF a(4)] f3(2,3) sa in simp)
  \<comment> \<open>the processor's structure\<close>
  obtain pb F2 t where b: "kmem_cache_alloc B fl s3 = Some (slot_of pb n, t)" "same_but B pb s3 t" "pb \<in> G"
      "pool G ?S t (pg(A := pa, B := pb)) ((\<lambda>X. n)(A := Suc n, B := Suc n)) F2" "n \<noteq> 0 \<longrightarrow> pb = pg B"
    using pool_step [OF P3 in_S(2) _ n, of fl] ne by (auto simp: fun_upd_other)
  let ?c = "slot_of pb n"
  have cn: "X \<in> ?S \<Longrightarrow> ?c \<noteq> cpu_of X s" for X using poolD(5) [OF P0 b(3), of n] n by auto
  have c3: "X \<in> ?S \<Longrightarrow> cpu_of X s3 = cpu_of X s" for X using d f3(8) [of X] by (cases "X = ?d") (auto simp: cpu_of_def)
  note sb = b(2) [unfolded same_but_def]
  define s4 where "s4 = upd_cpu ?c (\<lambda>x. x\<lparr>freelist := 0, cpage := None, cpartial := None\<rparr>) (upd_cache ?d (\<lambda>k. k\<lparr>kc_cpu_slab := ?c\<rparr>) t)"
  have i4: "init_cpu_slub ?d fl s3 = Some s4"
    using init_cpu_slub_run [of s3 fl ?c t ?d] b(1) f3(1) by (simp add: s4_def B_def)
  have f4: "statics s4 = statics s" "smm s4 = smm t" "zones0 s4 = zones0 s" "wds s4 = wds t" "nbytes s4 = m"
      "kmalloc_small s4 = kmalloc_small s" "\<And>k. k \<noteq> ?d \<Longrightarrow> caches s4 k = caches s k" "\<And>k. k \<noteq> ?d \<Longrightarrow> caches t k = caches s k"
      "caches s4 ?d = (caches s3 ?d)\<lparr>kc_cpu_slab := ?c\<rparr>" "\<And>x. x \<noteq> ?c \<Longrightarrow> cpus s4 x = cpus t x"
      "cpage (cpus s4 ?c) = None" "cpartial (cpus s4 ?c) = None" "zones0 t = zones0 s"
    using sb f3 by (simp_all add: s4_def upd_cache_def upd_cpu_def)
  have u4: "unused_by X t s4" if "X \<in> ?S" for X
    using that d cn [OF that] f4(2,7,8,10) by (cases "X = ?d") (auto simp: unused_by_def cpu_of_def)
  have P4: "pool G ?S s4 (pg(A := pa, B := pb)) ((\<lambda>X. n)(A := Suc n, B := Suc n)) F2"
    using poolD(8) [OF b(4)] f4(2,3,13) by (intro pool_change [OF b(4) u4 f4(4)]) simp_all
  \<comment> \<open>the node\<close>
  obtain pc F3 u where e: "kmem_cache_alloc C fl s4 = Some (slot_of pc n, u)" "same_but C pc s4 u" "pc \<in> G"
      "pool G ?S u (pg(A := pa, B := pb, C := pc)) ((\<lambda>X. n)(A := Suc n, B := Suc n, C := Suc n)) F3" "n \<noteq> 0 \<longrightarrow> pc = pg C"
    using pool_step [OF P4 in_S(3) _ n, of fl] ne by (auto simp: fun_upd_other)
  let ?n = "slot_of pc n"
  note se = e(2) [unfolded same_but_def]
  define s6 where "s6 = on_mm (on_lists (list_add CacheListHead (CacheHead ?d)))
    ((on_mm (on_lists (init_list (NodePartial ?n))) (upd_cache ?d (\<lambda>k. k\<lparr>kc_node := ?n\<rparr>) u))\<lparr>nr_partial := (nr_partial u)(?n := 0)\<rparr>)"
  have run6: "kmem_cache_create (Some nm) sz align fl ord ctor s = Some (?d, s6)"
    using run i4 init_pernode_slab_run [of s4 fl ?n u ?d] e(1) f4(1) by (simp add: s3_def [symmetric] s6_def C_def)
  have f6: "statics s6 = statics s" "smm s6 = on_lists (list_add CacheListHead (CacheHead ?d)) (on_lists (init_list (NodePartial ?n)) (smm u))"
      "zones0 s6 = zones0 s" "wds s6 = wds u" "nbytes s6 = m" "kmalloc_small s6 = kmalloc_small s"
      "\<And>k. k \<noteq> ?d \<Longrightarrow> caches s6 k = caches s k" "\<And>k. k \<noteq> ?d \<Longrightarrow> caches u k = caches s k"
      "caches s6 ?d = (caches s3 ?d)\<lparr>kc_cpu_slab := ?c, kc_node := ?n\<rparr>" "cpus s6 = cpus u" "zones0 u = zones0 s"
    using se f4 by (simp_all add: s6_def on_mm_def upd_cache_def)
  have own: "prev (lists (smm u)) x = prev (lists (smm s)) x \<and> nxt (lists (smm u)) x = nxt (lists (smm s)) x" if "foreign x" for x
    using se f4(2) sb f3(2) sa that by simp
  note L = create_frame_lists [where nd = ?n, OF r bspec [OF fresh a(3)] own, folded f6(2)]
  have P6: "pool G ?S s6 (pg(A := pa, B := pb, C := pc)) ((\<lambda>X. n)(A := Suc n, B := Suc n, C := Suc n)) F3"
  proof (rule pool_change [OF e(4) _ f6(4)])
    show "unused_by X u s6" if "X \<in> ?S" for X
      using that d f6(7,8,10) L(4) by (cases "X = ?d") (auto simp: unused_by_def cpu_of_def)
    show "pair_stock (zones0 s6) (smm s6) F3"
      using pair_stock_client [OF poolD(8) [OF e(4)] L(1)] f6(3,11) by simp
  qed
  have "pool G ?S s6 (pg(A := pa, B := pb, C := pc)) (\<lambda>X. Suc n) F3" by (rule pool_cong [OF P6]) (auto simp: S)
  then have cr: "creating G s6 (Suc n) (pg(A := pa, B := pb, C := pc)) F3 (?d # ks)"
    using ne L(2) by (simp add: creating_def f6(1) A_def B_def C_def)
  have dC: "C \<noteq> ?d" using d in_S(3) by auto
  have c4: "cpu_of C s4 = cpu_of C s" "cpu_of B s3 = cpu_of B s"
    using f4(7) [OF dC] c3 [OF in_S(2)] by (simp_all add: cpu_of_def)
  have "my_cpu ?d s6 = cpus s4 ?c"
    using se c4(1) cn [OF in_S(3)] f6(9,10) by (simp add: my_cpu_def cpu_of_def)
  then have "as_asked s6 ?d ?c ?n nm sz align ord ctor"
    using f6(5,9) f3(9) m(1) L(3) f4(11,12) by (simp add: as_asked_def cache_empty_def)
  moreover have "cpus s6 x = cpus s x" if "x \<notin> insert ?c ((\<lambda>k. cpu_of k s) ` ?S)" for x
    using that sa sb se c4 f4(10) f3(5) f6(10) by (auto simp: S)
  then have "create_frame ?d ?c s s6"
    unfolding create_frame_def using f6 m(2) sa own L(4) by (auto simp: list_empty_def)
  moreover have "stuck z q (smm s6)" if "zones0 s = [z]" "stuck z q (smm s) \<or> stuck z q (smm s1)" for z q
  proof -
    have "stuck z q (smm s3)" using that sa f3(2) by auto
    then have "stuck z q (smm s4)" using sb f3(3) f4(2) that(1) by simp
    then have "stuck z q (smm u)" using se f4(3) that(1) by simp
    then show ?thesis using stuck_client L(1) by blast
  qed
  ultimately show ?thesis
    using run6 cr a(1,5) b(5) e(5) ne by (intro exI [of _ "pg(A := pa, B := pb, C := pc)"] exI [of _ F3] exI [of _ s6]) (auto simp: S)
qed

section \<open>The names of the caches of \<open>kmalloc\<close>\<close>

text \<open>The name of the cache \<open>i\<close>.\<close>

definition kname :: "nat \<Rightarrow> u8 list" where
  "kname i = map of_char ''kmalloc '' @ digit_string SIGN 10 (of_nat i) @ map of_char ''th''"

lemma decimal_digit: "d < 10 \<Longrightarrow> small_digits ! d \<in> set (map of_char ''0123456789'')"
proof -
  assume "d < 10"
  then have "take 10 small_digits ! d \<in> set (take 10 small_digits)" by (intro nth_mem) (simp add: small_digits_def)
  moreover have "take 10 small_digits = map of_char ''0123456789''" by (simp add: small_digits_def)
  moreover have "take 10 small_digits ! d = small_digits ! d" using \<open>d < 10\<close> by (rule nth_take)
  ultimately show ?thesis by metis
qed

lemma decimal_string:
  assumes "i < 16"
  shows "set (digit_string SIGN 10 (of_nat i)) \<subseteq> set (map of_char ''0123456789'')" and "length (digit_string SIGN 10 (of_nat i)) \<le> 4"
proof -
  have l: "SIGN AND LARGE = 0" by (simp add: flag_defs)
  have u: "unat (of_nat i :: u64) = i" by (rule word64_of_nat_unat_id) (use assms in simp)
  show "set (digit_string SIGN 10 (of_nat i)) \<subseteq> set (map of_char ''0123456789'')"
    using decimal_digit digs_less [of _ 10 i] unfolding digit_string_def Let_def u l by auto
  have "length (digs 10 i) \<le> 4" using assms by (intro digs_length) simp_all
  then show "length (digit_string SIGN 10 (of_nat i)) \<le> 4" unfolding digit_string_def Let_def u by simp
qed

lemma kname_cases:
  assumes "i < 16"
  shows "length (kname i) \<le> 64" "asc CHR ''%'' \<notin> set (kname i)" "0 \<notin> set (kname i)"
  using decimal_string [OF assms] by (auto simp: kname_def)

lemma kname_number:
  assumes "i < 16"
  shows "number_bytes (scast (of_nat i :: u32)) 10 (- 1) (- 1) SIGN = digit_string SIGN 10 (of_nat i)"
proof -
  have u: "unat (of_nat i :: u32) = i" by (rule word32_of_nat_unat_id) (use assms in simp)
  then have "sint (of_nat i :: u32) = int i" using assms by (subst sint_small) simp_all
  then have s: "(scast (of_nat i :: u32) :: u64) = of_nat i" by (simp only: scast_eq of_int_of_nat_eq)
  have n: "\<not> (of_nat i :: u64) <s 0"
  proof -
    have "uint (of_nat i :: u64) = int i" using word64_of_nat_unat_id [of i] assms by (simp add: uint_nat)
    then have "sint (of_nat i :: u64) = int i" unfolding sint_uint using assms by (simp add: signed_take_bit_int_eq_self)
    then show ?thesis by (simp add: word_sless_alt)
  qed
  have f: "SIGN AND SIGN \<noteq> 0" "SIGN AND PLUS = 0" "SIGN AND SPACE = 0" "SIGN AND SPECIAL = 0" "SIGN AND LEFT = 0" "SIGN AND ZEROPAD = 0"
    by (simp_all add: flag_defs)
  show ?thesis unfolding number_bytes_def number_sign_def s using f n by (simp add: number_prefix_def)
qed

lemma flag_simps: "SIGN \<noteq> 0" by (simp add: SIGN_def)

lemma kname_format:
  assumes "i < 16"
  shows "format_loop buf lim (map of_char ''kmalloc %dth'') [of_nat i] mp = Some ([], puts buf lim (kname i) mp)"
  using kname_number [OF assms]
  by (simp add: parse_directive_def parse_field_def parse_precision_def parse_qualifier_def peek_def convert_def get_width_def
      get_precision_def conv_int_def get_number_def va_arg_def number_eq kname_def Let_def isdigit_def flag_simps)

lemma kname_written:
  fixes nb :: u32
  assumes "i < 16" "nb \<noteq> 0" "in_memory nb (300 :: u32)"
  shows "\<exists>m'. sprintf nb 300 (map of_char ''kmalloc %dth'') [of_nat i] m = Some (1, m')
    \<and> (\<exists>n. strlen nb m' = Some n \<and> bytes_at m' nb (unat n) = kname i) \<and> (\<forall>a. 300 \<le> a - nb \<longrightarrow> m' a = m a)"
proof -
  let ?l = "length (kname i)"
  have l: "?l \<le> 64" "unat nb + ?l < 4294967296" "unat (of_nat ?l :: u32) = ?l"
    using kname_cases(1) [OF assms(1)] assms(3) by (simp_all add: in_memory_def word32_of_nat_unat_id)
  obtain m' where m': "vsnprintf nb 300 (map of_char ''kmalloc %dth'') [of_nat i] m = Some (of_nat ?l, m')"
      "\<forall>a. 300 \<le> a - nb \<longrightarrow> m' a = m a" "\<forall>j < ?l. m' (nb + of_nat j) = kname i ! j" "m' (nb + of_nat ?l) = 0"
    using vsnprintf_puts [OF assms(2,3) kname_format [OF assms(1)], of m] l by auto
  have "strlen nb m' = Some (of_nat ?l)"
    unfolding strlen_def
  proof (rule strlen_from_spec)
    fix j :: u32 assume "j < of_nat ?l"
    then have "unat j < ?l" using l(3) by (simp add: word_less_nat_alt)
    then have "m' (nb + j) = kname i ! unat j" "kname i ! unat j \<in> set (kname i)" using m'(3) [rule_format, of "unat j"] by simp_all
    then show "m' (nb + j) \<noteq> 0" using kname_cases(3) [OF assms(1)] by auto
  qed (use m'(4) in simp_all)
  moreover have "bytes_at m' nb ?l = kname i" using m'(3) by (intro nth_equalityI) (simp_all add: bytes_at_def)
  ultimately show ?thesis using m'(1,2) l(3) by (auto simp: sprintf_def)
qed

section \<open>The caches of \<open>kmalloc\<close>\<close>

lemma as_asked_kept:
  assumes a: "as_asked s d c nd nm sz al ord ctor" and f: "create_frame d' c' s s'"
    and "d \<noteq> d'" "c \<noteq> c'" "c \<notin> (\<lambda>k. cpu_of k s) ` static_caches (statics s)"
    and fits: "in_memory (d + 72) (32 :: u32)" "in_memory (d' + 72) (32 :: u32)"
    and ap: "unat (d + 72) + 32 \<le> unat (d' + 72) \<or> unat (d' + 72) + 32 \<le> unat (d + 72)"
  shows "as_asked s' d c nd nm sz al ord ctor"
proof -
  note A = a [unfolded as_asked_def cache_empty_def] and f' = f [unfolded create_frame_def]
  have c: "caches s' d = caches s d" using f' assms(3) by simp
  have "cpus s' c = cpus s c" using f' assms(4,5) by blast
  then have m: "my_cpu d s' = my_cpu d s" using A c by (simp add: my_cpu_def cpu_of_def)
  have "named (nbytes s') (d + 72) nm"
    by (rule named_away [where sz = 32 and q = "d' + 72" and m = "nbytes s"]) (use A f' fits ap in simp_all)
  moreover have "list_empty (NodePartial nd) (lists (smm s'))" using A f' by blast
  ultimately show ?thesis using A c m by (simp add: as_asked_def cache_empty_def)
qed

text \<open>The local array with the name lies outside of the pages.\<close>

definition array_outside :: "u32 \<Rightarrow> nat set \<Rightarrow> bool" where
  "array_outside nb G \<longleftrightarrow> nb \<noteq> 0 \<and> in_memory nb (300 :: u32)
     \<and> (\<forall>p\<in>G. unat nb + 300 \<le> 4096 * p + 0xC0000000 \<or> 4096 * p + 0xC0000000 + 8192 \<le> unat nb)"

lemma slot_name_place:
  assumes "p < 0x3FFFE" "n < 64"
  shows "unat (slot_of p n + 72) = 4096 * p + 0xC0000000 + 128 * n + 72" and "in_memory (slot_of p n + 72) (32 :: u32)"
proof -
  show u: "unat (slot_of p n + 72) = 4096 * p + 0xC0000000 + 128 * n + 72"
    using slot_of_unat [OF assms] assms by (subst unat_add_small) simp_all
  then show "in_memory (slot_of p n + 72) (32 :: u32)" using assms by (simp add: in_memory_def)
qed

lemma as_asked_array:
  assumes a: "as_asked s (slot_of p n) c nd nm sz al ord ctor" and p: "p \<in> G" "p < 0x3FFFE" "n < 64"
    and nb: "array_outside nb G" and m: "\<forall>x. 300 \<le> x - nb \<longrightarrow> m x = nbytes s x"
  shows "as_asked (s\<lparr>nbytes := m\<rparr>) (slot_of p n) c nd nm sz al ord ctor"
proof -
  note A = a [unfolded as_asked_def cache_empty_def]
  have "unat (slot_of p n + 72) + 32 \<le> unat nb \<or> unat nb + unat (300 :: u32) \<le> unat (slot_of p n + 72)"
    using nb p(1,3) slot_name_place(1) [OF p(2,3)] by (auto simp: array_outside_def)
  moreover have "named (nbytes s) (slot_of p n + 72) nm" "in_memory nb (300 :: u32)" using A nb by (simp_all add: array_outside_def)
  ultimately have "named m (slot_of p n + 72) nm"
    using m slot_name_place(2) [OF p(2,3)] by (intro named_away [where sz = 300 and q = nb and m = "nbytes s" and m' = m]) blast+
  then show ?thesis using A by (auto simp: as_asked_def cache_empty_def my_cpu_def cpu_of_def)
qed

text \<open>
  The first \<open>i\<close> of the caches have been made, after \<open>n\<close> others. Neither the name array nor the table of \<open>kmalloc\<close>
  matters to the three static caches.
\<close>

definition kmalloc_made :: "nat set \<Rightarrow> slabs \<Rightarrow> nat \<Rightarrow> nat \<Rightarrow> (u32 \<Rightarrow> nat) \<Rightarrow> u32 list \<Rightarrow> bool" where
  "kmalloc_made G s n i pg ks \<longleftrightarrow>
     (let A = pg (kmem_cache_cache (statics s)); B = pg (kmem_cache_cpu_cache (statics s)); C = pg (kmem_cache_node_cache (statics s))
      in (\<exists>F. creating G s (n + i) pg F (rev (map (\<lambda>j. slot_of A (n + j)) [0..<i]) @ ks))
       \<and> (\<forall>j<i. kmalloc_small s j = slot_of A (n + j)
            \<and> as_asked s (slot_of A (n + j)) (slot_of B (n + j)) (slot_of C (n + j)) (kname j) (push_bit j 1) (push_bit j 1) 0 0))"

lemma creating_fields [simp]:
  "creating G (s\<lparr>nbytes := m\<rparr>) n pg F ks = creating G s n pg F ks"
  "creating G (s\<lparr>kmalloc_small := t\<rparr>) n pg F ks = creating G s n pg F ks"
  by (simp_all add: creating_def pool_def serving_def cache_empty_def my_cpu_def cpu_of_def)

lemma as_asked_table [simp]:
  "as_asked (s\<lparr>kmalloc_small := t\<rparr>) d c nd nm sz al ord ctor = as_asked s d c nd nm sz al ord ctor"
  by (simp add: as_asked_def cache_empty_def my_cpu_def cpu_of_def)

text \<open>The first request to the cache of caches gets the pair at \<open>p\<close>, and makes the list of order 0 stuck at its second page.\<close>

definition hooks :: "nat \<Rightarrow> nat \<Rightarrow> slabs \<Rightarrow> bool" where
  "hooks z p s \<longleftrightarrow> (\<forall>m. \<exists>u. kmem_cache_alloc (kmem_cache_cache (statics s)) 0 (s\<lparr>nbytes := m\<rparr>) = Some (slot_of p 0, u)
     \<and> stuck z (Suc p) (smm u))"

definition hooked :: "nat \<Rightarrow> nat \<Rightarrow> (u32 \<Rightarrow> nat) \<Rightarrow> slabs \<Rightarrow> bool" where
  "hooked z p pg s \<longleftrightarrow> pg (kmem_cache_cache (statics s)) = p \<and> stuck z (Suc p) (smm s)"

lemma kmalloc_step:
  assumes K: "kmalloc_made G s n i pg ks" and i: "i < 12" "n + i \<le> 61" and nb: "array_outside nb G"
    and fresh: "\<forall>p\<in>G. \<forall>j<64. slot_of p j \<notin> set ks"
  shows "\<exists>pg' s'. kmalloc_caches nb [i] s = Some s' \<and> kmalloc_made G s' n (Suc i) pg' ks \<and> statics s' = statics s
    \<and> zones0 s' = zones0 s \<and> (\<forall>z p. zones0 s = [z] \<longrightarrow> p < 0x3FFFE \<longrightarrow> (if n + i = 0 then hooks z p s else hooked z p pg s)
          \<longrightarrow> hooked z p pg' s')"
proof -
  let ?A = "kmem_cache_cache (statics s)" and ?B = "kmem_cache_cpu_cache (statics s)" and ?C = "kmem_cache_node_cache (statics s)"
  let ?d = "\<lambda>pg j. slot_of (pg ?A) (n + j)" and ?c = "\<lambda>pg j. slot_of (pg ?B) (n + j)" and ?e = "\<lambda>pg j. slot_of (pg ?C) (n + j)"
  obtain F where cr: "creating G s (n + i) pg F (rev (map (?d pg) [0..<i]) @ ks)"
    and made: "\<And>j. j < i \<Longrightarrow> kmalloc_small s j = ?d pg j \<and> as_asked s (?d pg j) (?c pg j) (?e pg j) (kname j) (push_bit j 1) (push_bit j 1) 0 0"
    using K by (auto simp: kmalloc_made_def Let_def)
  have P: "pool G (static_caches (statics s)) s pg (\<lambda>X. n + i) F" using cr by (simp add: creating_def)
  have G: "G \<subseteq> {..<0x3FFFE}" by (rule poolD(10) [OF P])
  have in_S: "?A \<in> static_caches (statics s)" "?B \<in> static_caches (statics s)" "?C \<in> static_caches (statics s)"
    by (simp_all add: static_caches_def)
  have pgG: "pg X \<in> G" if "X \<in> static_caches (statics s)" "j < i" for X j using poolD(2) [OF P that(1)] that(2) by auto
  have new: "\<forall>p\<in>G. slot_of p (n + i) \<notin> set (rev (map (?d pg) [0..<i]) @ ks)"
  proof
    fix p assume p: "p \<in> G"
    have "slot_of p (n + i) \<noteq> ?d pg j" if "j < i" for j
      using slot_of_eq [of p "pg ?A" "n + i" "n + j"] p pgG [OF in_S(1) that] poolD(11) [OF P p] G i that by auto
    then show "slot_of p (n + i) \<notin> set (rev (map (?d pg) [0..<i]) @ ks)"
      using fresh [rule_format, OF p, of "n + i"] i unfolding set_append set_rev set_map by fastforce
  qed
  have i16: "i < 16" using i by simp
  obtain m l where m: "sprintf nb 300 (map of_char ''kmalloc %dth'') [of_nat i] (nbytes s) = Some (1, m)"
      "strlen nb m = Some l" "bytes_at m nb (unat l) = kname i" "\<forall>a. 300 \<le> a - nb \<longrightarrow> m a = nbytes s a"
    using kname_written [OF i16, of nb "nbytes s"] nb by (auto simp: array_outside_def)
  let ?s = "s\<lparr>nbytes := m\<rparr>"
  have cr1: "creating G ?s (n + i) pg F (rev (map (?d pg) [0..<i]) @ ks)" using cr by simp
  have sm: "statics ?s = statics s" by simp
  obtain pg' F' t u where t: "n + i \<noteq> 0 \<longrightarrow> (\<forall>X \<in> static_caches (statics s). pg' X = pg X)"
      "kmem_cache_create (Some (kname i)) (push_bit i 1) (push_bit i 1) 0 0 0 ?s = Some (?d pg' i, t)"
      "creating G t (Suc (n + i)) pg' F' (?d pg' i # rev (map (?d pg) [0..<i]) @ ks)"
      "as_asked t (?d pg' i) (?c pg' i) (?e pg' i) (kname i) (push_bit i 1) (push_bit i 1) 0 0"
      "create_frame (?d pg' i) (?c pg' i) ?s t"
      "kmem_cache_alloc ?A 0 ?s = Some (?d pg' i, u)"
      "\<forall>z q. zones0 ?s = [z] \<longrightarrow> stuck z q (smm ?s) \<or> stuck z q (smm u) \<longrightarrow> stuck z q (smm t)"
    using create_served [OF cr1 i(2) new kname_cases(2,1) [OF i16], of "push_bit i 1" "push_bit i 1" 0 0 0]
    unfolding sm by (elim exE conjE) (rule that)
  note f = t(5) [unfolded create_frame_def]
  let ?t = "t\<lparr>kmalloc_small := (kmalloc_small t)(i := ?d pg' i)\<rparr>"
  have run: "kmalloc_caches nb [i] s = Some ?t" using m(1-3) t(2) by simp
  have eq: "?d pg' j = ?d pg j" "?c pg' j = ?c pg j" "?e pg' j = ?e pg j" if "j < i" for j
    using t(1) in_S that by simp_all
  have same: "map (?d pg') [0..<i] = map (?d pg) [0..<i]" using eq(1) by simp
  have "creating G ?t (n + Suc i) pg' F' (rev (map (?d pg') [0..<Suc i]) @ ks)"
    using t(3) unfolding upt_Suc_append [OF le0] map_append same by simp
  moreover have "kmalloc_small ?t j = ?d pg' j
      \<and> as_asked ?t (?d pg' j) (?c pg' j) (?e pg' j) (kname j) (push_bit j 1) (push_bit j 1) 0 0" if j: "j < Suc i" for j
  proof (cases "j = i")
    case True
    then show ?thesis using t(4) by simp
  next
    case False
    then have ji: "j < i" using j by simp
    have lt: "n + j < 64" "n + i < 64" using ji i by simp_all
    have pa: "pg ?A \<in> G" "pg ?B \<in> G" "pg ?C \<in> G" "pg' ?A = pg ?A" "pg' ?B = pg ?B"
      using pgG [OF _ ji] in_S t(1) ji by auto
    have low: "pg ?A < 0x3FFFE" "pg ?B < 0x3FFFE" using pa(1,2) G by auto
    have "as_asked ?s (?d pg j) (?c pg j) (?e pg j) (kname j) (push_bit j 1) (push_bit j 1) 0 0"
      by (rule as_asked_array [OF conjunct2 [OF made [OF ji]] pa(1) low(1) lt(1) nb m(4)])
    then have "as_asked t (?d pg j) (?c pg j) (?e pg j) (kname j) (push_bit j 1) (push_bit j 1) 0 0"
    proof (rule as_asked_kept [OF _ t(5)])
      show "?d pg j \<noteq> ?d pg' i" "?c pg j \<noteq> ?c pg' i"
        unfolding pa(4,5) using slot_of_eq [OF low(1) low(1) lt] slot_of_eq [OF low(2) low(2) lt] ji by simp_all
      show "?c pg j \<notin> (\<lambda>k. cpu_of k ?s) ` static_caches (statics ?s)"
        using poolD(5) [OF P pa(2) lt(1)] by (auto simp: cpu_of_def)
      show "in_memory (?d pg j + 72) (32 :: u32)" "in_memory (?d pg' i + 72) (32 :: u32)"
        "unat (?d pg j + 72) + 32 \<le> unat (?d pg' i + 72) \<or> unat (?d pg' i + 72) + 32 \<le> unat (?d pg j + 72)"
        unfolding pa(4) using slot_name_place [OF low(1)] lt ji by simp_all
    qed
    then show ?thesis using f made [OF ji] eq [OF ji] ji by simp
  qed
  ultimately have "kmalloc_made G ?t n (Suc i) pg' ks"
    using f unfolding kmalloc_made_def Let_def by auto
  moreover have "hooked z p pg' ?t" if h: "zones0 s = [z]" "p < 0x3FFFE" "if n + i = 0 then hooks z p s else hooked z p pg s" for z p
  proof (cases "n + i = 0")
    case True
    have PT: "pool G (static_caches (statics t)) t pg' (\<lambda>X. Suc (n + i)) F'" using t(3) by (simp add: creating_def)
    have "statics t = statics s" using f by simp
    then have "pg' ?A \<in> G" using poolD(2) [OF PT, of ?A] in_S(1) by simp
    then have low: "pg' ?A < 0x3FFFE" using G by auto
    have "\<exists>v. kmem_cache_alloc ?A 0 ?s = Some (slot_of p 0, v) \<and> stuck z (Suc p) (smm v)"
      using h(3) True unfolding hooks_def by simp
    then obtain v where "kmem_cache_alloc ?A 0 ?s = Some (slot_of p 0, v)" "stuck z (Suc p) (smm v)" by blast
    with t(6) have e: "slot_of (pg' ?A) 0 = slot_of p 0" "stuck z (Suc p) (smm u)" using True by simp_all
    have "4096 * pg' ?A + 0xC0000000 = 4096 * p + 0xC0000000"
      using slot_of_unat [OF low, of 0] slot_of_unat [OF h(2), of 0] unfolding e(1) by simp
    then have "pg' ?A = p" by simp
    then show ?thesis using t(7) h(1) e(2) f by (simp add: hooked_def)
  next
    case False
    then have "hooked z p pg s" using h(3) by (simp only: if_False)
    moreover have "pg' ?A = pg ?A" using t(1) False in_S(1) by blast
    ultimately show ?thesis using t(7) h(1) f by (simp add: hooked_def)
  qed
  ultimately show ?thesis using run f by (intro exI [of _ pg'] exI [of _ ?t]) simp
qed

lemma kmalloc_caches_append:
  "kmalloc_caches nb (xs @ ys) s = Option.bind (kmalloc_caches nb xs s) (kmalloc_caches nb ys)"
  by (induction xs arbitrary: s) (auto split: Option.bind_splits)

lemma kmalloc_loop:
  assumes K: "kmalloc_made G s n 0 pg ks" and n: "n + 12 \<le> 62" and nb: "array_outside nb G"
    and fresh: "\<forall>p\<in>G. \<forall>j<64. slot_of p j \<notin> set ks"
  shows "k \<le> 12 \<Longrightarrow> \<exists>pg' s'. kmalloc_caches nb [0..<k] s = Some s' \<and> kmalloc_made G s' n k pg' ks \<and> statics s' = statics s
    \<and> zones0 s' = zones0 s \<and> (\<forall>z p. n = 0 \<longrightarrow> zones0 s = [z] \<longrightarrow> p < 0x3FFFE \<longrightarrow> hooks z p s \<longrightarrow> k \<noteq> 0 \<longrightarrow> hooked z p pg' s')"
proof (induction k)
  case 0
  then show ?case using K by (intro exI [of _ pg] exI [of _ s]) simp
next
  case (Suc k)
  then obtain pg' s' where s': "kmalloc_caches nb [0..<k] s = Some s'" "kmalloc_made G s' n k pg' ks" "statics s' = statics s"
      "zones0 s' = zones0 s" "\<forall>z p. n = 0 \<longrightarrow> zones0 s = [z] \<longrightarrow> p < 0x3FFFE \<longrightarrow> hooks z p s \<longrightarrow> k \<noteq> 0 \<longrightarrow> hooked z p pg' s'"
    by auto
  have "k < 12" "n + k \<le> 61" using Suc.prems n by simp_all
  from kmalloc_step [OF s'(2) this nb fresh] obtain pg2 s2 where
    s2: "kmalloc_caches nb [k] s' = Some s2" "kmalloc_made G s2 n (Suc k) pg2 ks" "statics s2 = statics s'" "zones0 s2 = zones0 s'"
      "\<forall>z p. zones0 s' = [z] \<longrightarrow> p < 0x3FFFE \<longrightarrow> (if n + k = 0 then hooks z p s' else hooked z p pg' s') \<longrightarrow> hooked z p pg2 s2"
    by (elim exE conjE) (rule that)
  have "hooked z p pg2 s2" if h: "n = 0" "zones0 s = [z]" "p < 0x3FFFE" "hooks z p s" for z p
  proof (cases "k = 0")
    case True
    then have "s' = s" using s'(1) by simp
    then show ?thesis using s2(5) h True by simp
  next
    case False
    then show ?thesis using s2(5) s'(4,5) h by simp
  qed
  then show ?case
    using s' s2 unfolding upt_Suc_append [OF le0] kmalloc_caches_append s'(1)
    by (intro exI [of _ pg2] exI [of _ s2]) simp
qed

section \<open>The start of the slab allocator\<close>

text \<open>The static structures, and those of the processors, lie outside of the pages \<open>G\<close>.\<close>

definition statics_outside :: "slab_statics \<Rightarrow> nat set \<Rightarrow> bool" where
  "statics_outside y G \<longleftrightarrow> distinct [t1 y, t2 y, t3 y]
     \<and> (\<forall>p\<in>G. \<forall>x\<in>set [kmem_cache_cache y, kmem_cache_cpu_cache y, kmem_cache_node_cache y, t1 y, t2 y, t3 y].
          unat x < 4096 * p + 0xC0000000 \<or> 4096 * p + 0xC0000000 + 8192 \<le> unat x)"

lemma slot_of_outside:
  assumes "p < 0x3FFFE" "j < 64" "unat x < 4096 * p + 0xC0000000 \<or> 4096 * p + 0xC0000000 + 8192 \<le> unat x"
  shows "slot_of p j \<noteq> x"
  using slot_of_unat [OF assms(1,2)] assms(2,3) by auto

lemma pair_cache_static:
  "(k, c, n, nm, sz) \<in> set (static_table y) \<Longrightarrow> pair_cache (static_cache c n sz kc)"
  by (auto simp: static_table_def pair_cache_def slab_layout_def Let_def SIZEOF_KMEM_CACHE_def SIZEOF_KMEM_CACHE_CPU_def SIZEOF_KMEM_CACHE_NODE_def)

text \<open>What \<open>init_kmem_cache\<close> leaves is a start for \<open>kmalloc_init\<close>.\<close>

lemma creating_start:
  assumes y: "distinct [kmem_cache_cache (statics s), kmem_cache_cpu_cache (statics s), kmem_cache_node_cache (statics s)]"
    and k: "\<forall>(k, c, n, nm, sz) \<in> set (static_table (statics s)). cache_empty k s \<and> caches s k = static_cache c n sz (kc k)"
    and r: "Listhead.ring (lists (smm s)) CacheListHead (map CacheHead ks)"
    and st: "pair_stock (zones0 s) (smm s) G" "3 \<le> card G" "G \<subseteq> {..<0x3FFFE}" and o: "statics_outside (statics s) G"
  shows "creating G s 0 pg G ks"
proof -
  let ?y = "statics s" and ?S = "static_caches (statics s)"
  have c: "cpu_of (kmem_cache_cache ?y) s = t1 ?y" "cpu_of (kmem_cache_cpu_cache ?y) s = t2 ?y" "cpu_of (kmem_cache_node_cache ?y) s = t3 ?y"
    using k by (auto simp: static_table_def cpu_of_def)
  have "serving s X (pg X) 0" if "X \<in> ?S" for X
  proof -
    have "X \<in> fst ` set (static_table ?y)" using that by (auto simp: static_caches_def static_table_def)
    then obtain c n nm sz where t: "(X, c, n, nm, sz) \<in> set (static_table ?y)" by auto
    with k have "cache_empty X s" "caches s X = static_cache c n sz (kc X)" by auto
    then show ?thesis using pair_cache_static [OF t] by (simp add: serving_def)
  qed
  moreover have "cpu_of X s \<noteq> cpu_of Y s" if "X \<in> ?S" "Y \<in> ?S" "X \<noteq> Y" for X Y
    using that c o by (auto simp: static_caches_def statics_outside_def)
  moreover have "slot_of p i \<notin> {X, cpu_of X s}" if p: "p \<in> G" and i: "i < 64" and X: "X \<in> ?S" for p i X
  proof -
    have x: "x \<in> set [kmem_cache_cache ?y, kmem_cache_cpu_cache ?y, kmem_cache_node_cache ?y, t1 ?y, t2 ?y, t3 ?y] \<Longrightarrow> slot_of p i \<noteq> x" for x
      using o p st(3) i unfolding statics_outside_def by (intro slot_of_outside) blast+
    have "X \<in> set [kmem_cache_cache ?y, kmem_cache_cpu_cache ?y, kmem_cache_node_cache ?y, t1 ?y, t2 ?y, t3 ?y]"
        "cpu_of X s \<in> set [kmem_cache_cache ?y, kmem_cache_cpu_cache ?y, kmem_cache_node_cache ?y, t1 ?y, t2 ?y, t3 ?y]"
      using X c unfolding static_caches_def by auto
    from this [THEN x] show ?thesis by blast
  qed
  moreover have "card ?S \<le> card G" using st(2) card_length [of "[kmem_cache_cache ?y, kmem_cache_cpu_cache ?y, kmem_cache_node_cache ?y]"]
    by (simp add: static_caches_def)
  moreover have "blk p 1 \<inter> blk q 1 = {}" if "p \<in> G" "q \<in> G" "p \<noteq> q" for p q
    using pair_stock_apart [OF st(1) that] .
  moreover have "finite ?S" by (simp add: static_caches_def)
  ultimately show ?thesis
    using y r st by (simp add: creating_def pool_def)
qed

text \<open>
  The state \<open>kernel_main\<close> gives to \<open>init_kmem_cache\<close>: the static structures are the linker's, the processors' are
  zero, the page allocator holds at least three pairs of pages, and neither the static structures nor the array with the
  name, at \<open>nb\<close>, lie in free pages.
\<close>

definition kmem_ready :: "u32 \<Rightarrow> slabs \<Rightarrow> freelists \<Rightarrow> bool" where
  "kmem_ready nb s fl \<longleftrightarrow> (let G = all_pairs (set (zones0 s)) fl in
     statics_apart (statics s) \<and> statics_outside (statics s) G \<and> array_outside nb G
     \<and> (\<forall>c \<in> {t1 (statics s), t2 (statics s), t3 (statics s)}. cpage (cpus s c) = None \<and> cpartial (cpus s c) = None)
     \<and> alloc_inv (smm s) (set (zones0 s)) fl \<and> 3 \<le> card G \<and> G \<subseteq> {..<0x3FFFE})"

lemma pair_stock_start: "alloc_inv m (set zs) fl \<Longrightarrow> pair_stock zs m (all_pairs (set zs) fl)"
  unfolding pair_stock_def by (intro exI [of _ "\<lambda>q. NullN"] exI [of _ "{}"] exI [of _ m] exI [of _ fl]) simp

lemma start_run:
  assumes b: "kmem_ready nb s fl"
  defines "G \<equiv> all_pairs (set (zones0 s)) fl" and "ks \<equiv> map fst (static_table (statics s))"
  shows "\<exists>s1 s2 pg. init_kmem_cache s = Some s1 \<and> statics s1 = statics s \<and> zones0 s1 = zones0 s \<and> client_change (smm s) (smm s1)
    \<and> creating G s1 0 pg G ks
    \<and> kmalloc_init nb s1 = Some s2 \<and> kmalloc_made G s2 0 12 pg ks \<and> statics s2 = statics s \<and> zones0 s2 = zones0 s
    \<and> (\<forall>z p. zones0 s = [z] \<longrightarrow> p < 0x3FFFE \<longrightarrow> hooks z p s1 \<longrightarrow> hooked z p pg s2)"
proof -
  note B = b [unfolded kmem_ready_def Let_def, folded G_def]
  have t: "(k, c, n, nm, sz) \<in> set (static_table (statics s)) \<Longrightarrow> c \<in> {t1 (statics s), t2 (statics s), t3 (statics s)}" for k c n nm sz
    by (auto simp: static_table_def)
  have "statics_apart (statics s)" using B by blast
  then obtain s1 where s1: "init_kmem_cache s = Some s1"
      "Listhead.ring (lists (smm s1)) CacheListHead (map (CacheHead \<circ> fst) (static_table (statics s)))"
      "client_change (smm s) (smm s1)" "statics s1 = statics s" "zones0 s1 = zones0 s"
      "\<forall>(k, c, n, nm, sz) \<in> set (static_table (statics s)). cache_empty k s1 \<and> caches s1 k = static_cache c n sz (caches s k)"
    using init_kmem_cache_spec [of s] B t by (fastforce simp: case_prod_unfold)
  have r: "Listhead.ring (lists (smm s1)) CacheListHead (map CacheHead ks)" using s1(2) by (simp add: ks_def)
  have d: "distinct [kmem_cache_cache (statics s), kmem_cache_cpu_cache (statics s), kmem_cache_node_cache (statics s)]"
    using ring_distinct [OF r] by (auto simp: ks_def static_table_def)
  have st: "pair_stock (zones0 s) (smm s1) G"
    using pair_stock_client [OF pair_stock_start s1(3)] B unfolding G_def by blast
  have cr: "creating G s1 0 pg G ks" for pg
    using B d st s1(4-6) by (intro creating_start [where kc = "caches s"] r) simp_all
  then have K: "kmalloc_made G s1 0 0 pg ks" for pg by (auto simp: kmalloc_made_def Let_def)
  have fresh: "\<forall>p\<in>G. \<forall>j<64. slot_of p j \<notin> set ks"
  proof (intro ballI allI impI notI)
    fix p j assume p: "p \<in> G" "j < (64 :: nat)" "slot_of p j \<in> set ks"
    have "set ks \<subseteq> set [kmem_cache_cache (statics s), kmem_cache_cpu_cache (statics s), kmem_cache_node_cache (statics s), t1 (statics s), t2 (statics s), t3 (statics s)]"
      by (simp add: ks_def static_table_def)
    with B p show False using slot_of_outside [OF _ p(2)] unfolding statics_outside_def by blast
  qed
  have nb: "array_outside nb G" using B by blast
  obtain pg s2 where s2: "kmalloc_caches nb [0..<12] s1 = Some s2" "kmalloc_made G s2 0 12 pg ks" "statics s2 = statics s1"
      "zones0 s2 = zones0 s1" "\<forall>z p. zones0 s1 = [z] \<longrightarrow> p < 0x3FFFE \<longrightarrow> hooks z p s1 \<longrightarrow> hooked z p pg s2"
    using kmalloc_loop [OF K _ nb fresh, of 12] by auto
  then show ?thesis
    using s1 cr by (intro exI [of _ s1] exI [of _ s2] exI [of _ pg]) (simp add: kmalloc_init_def PAGE_SHIFT_def)
qed

lemma kmalloc_made_D:
  assumes "kmalloc_made G s 0 12 pg ks"
  defines "A \<equiv> pg (kmem_cache_cache (statics s))" and "B \<equiv> pg (kmem_cache_cpu_cache (statics s))" and "C \<equiv> pg (kmem_cache_node_cache (statics s))"
  shows "{A, B, C} \<subseteq> G" "distinct [A, B, C]" "G \<subseteq> {..<0x3FFFE}"
    and "Listhead.ring (lists (smm s)) CacheListHead (map CacheHead (rev (map (slot_of A) [0..<12]) @ ks))"
    and "i < 12 \<Longrightarrow> kmalloc_small s i = slot_of A i
       \<and> as_asked s (slot_of A i) (slot_of B i) (slot_of C i) (kname i) (push_bit i 1) (push_bit i 1) 0 0"
proof -
  obtain F where cr: "creating G s 12 pg F (rev (map (slot_of A) [0..<12]) @ ks)"
    using assms(1) by (auto simp: kmalloc_made_def Let_def A_def)
  have P: "pool G (static_caches (statics s)) s pg (\<lambda>X. 12) F" using cr by (simp add: creating_def)
  have i: "kmem_cache_cache (statics s) \<in> static_caches (statics s)" "kmem_cache_cpu_cache (statics s) \<in> static_caches (statics s)"
      "kmem_cache_node_cache (statics s) \<in> static_caches (statics s)" by (simp_all add: static_caches_def)
  show "{A, B, C} \<subseteq> G" using poolD(2) [OF P] i by (simp add: A_def B_def C_def)
  show "G \<subseteq> {..<0x3FFFE}" by (rule poolD(10) [OF P])
  show "distinct [A, B, C]" using poolD(4) [OF P i(1,2)] poolD(4) [OF P i(1,3)] poolD(4) [OF P i(2,3)] cr
    by (simp add: creating_def A_def B_def C_def)
  show "Listhead.ring (lists (smm s)) CacheListHead (map CacheHead (rev (map (slot_of A) [0..<12]) @ ks))"
    using cr by (simp add: creating_def)
  show "i < 12 \<Longrightarrow> kmalloc_small s i = slot_of A i
       \<and> as_asked s (slot_of A i) (slot_of B i) (slot_of C i) (kname i) (push_bit i 1) (push_bit i 1) 0 0"
    using assms(1) by (simp add: kmalloc_made_def Let_def A_def B_def C_def)
qed

section \<open>The properties\<close>

text \<open>
  C20: the start of the slab allocator on a page allocator with three free pairs: \<open>init_kmem_cache\<close> and then
  \<open>kmalloc_init\<close> return. The list of caches is the twelve caches of \<open>kmalloc\<close>, the last made first, before the three static
  ones. The cache for the size \<open>2 ^ i\<close> has the structures number \<open>i\<close> of three slabs, on three different pairs of free
  pages; it has the layout for that size, no slab yet, and the name \<open>kmalloc <i>th\<close>.
\<close>

theorem slab_start:
  assumes "kmem_ready nb s fl"
  shows "\<exists>s1 s2 pa pb pc. init_kmem_cache s = Some s1 \<and> kmalloc_init nb s1 = Some s2
     \<and> {pa, pb, pc} \<subseteq> all_pairs (set (zones0 s)) fl \<and> distinct [pa, pb, pc]
     \<and> Listhead.ring (lists (smm s2)) CacheListHead (map CacheHead (rev (map (slot_of pa) [0..<12]) @ map fst (static_table (statics s))))
     \<and> (\<forall>i<12. kmalloc_small s2 i = slot_of pa i
          \<and> as_asked s2 (slot_of pa i) (slot_of pb i) (slot_of pc i) (kname i) (push_bit i 1) (push_bit i 1) 0 0)"
proof -
  obtain s1 s2 pg where r: "init_kmem_cache s = Some s1" "kmalloc_init nb s1 = Some s2"
      and K: "kmalloc_made (all_pairs (set (zones0 s)) fl) s2 0 12 pg (map fst (static_table (statics s)))"
    using start_run [OF assms] by blast
  note D = kmalloc_made_D [OF K]
  show ?thesis
    by (intro exI [of _ s1] exI [of _ s2] exI [of _ "pg (kmem_cache_cache (statics s2))"]
        exI [of _ "pg (kmem_cache_cpu_cache (statics s2))"] exI [of _ "pg (kmem_cache_node_cache (statics s2))"] conjI allI impI r D(1,2,4))
       (use D(5) in blast)+
qed

lemma demo_boot_kmem: "kmem_ready 0x2000 demo_boot eight_fl"
proof -
  let ?G = "all_pairs {1} eight_fl"
  have inv: "alloc_inv demo_eight {1} eight_fl" by (rule demo_eight_inv)
  have e: "eight_fl 1 k = (if k = 3 then [8] else [])" for k by (auto simp: eight_fl_def empty_fl_def)
  have "pairs_in 8 3 \<subseteq> ?G"
    unfolding all_pairs_def pair_set_def using e [of 3] by (intro subsetI UN_I [of 1] UN_I [of 3] UN_I [of 8]) (simp_all add: MAX_ORDER_def)
  moreover have "{8, 10, 12} \<subseteq> pairs_in 8 3" by (simp add: pairs_in_def blk_def)
  ultimately have three: "{8, 10, 12} \<subseteq> ?G" by blast
  have "?G \<subseteq> all_free {1} eight_fl" using pair_set_free by (auto simp: all_pairs_def all_free_def)
  then have G: "?G \<subseteq> {8..<16}" unfolding all_free_def using demo_eight_free by simp
  then have "finite ?G" by (rule finite_subset) simp
  from card_mono [OF this three] have c: "3 \<le> card ?G" by simp
  have b: "p < 0x3FFFE" "4096 * p + 0xC0000000 \<ge> 0xC0008000" if "p \<in> ?G" for p using that G by auto
  show ?thesis
    unfolding kmem_ready_def Let_def using inv demo_boot_apart c b
    by (auto simp: demo_boot_def demo_slabs_def statics_outside_def array_outside_def in_memory_def; fastforce)
qed

theorem slab_start_witness:
  "\<exists>s1 s2 pa. init_kmem_cache demo_boot = Some s1 \<and> kmalloc_init 0x2000 s1 = Some s2
     \<and> kmalloc_small s2 5 = slot_of pa 5 \<and> named (nbytes s2) (slot_of pa 5 + 72) (kname 5)"
proof -
  obtain s1 s2 pa pb pc where r: "init_kmem_cache demo_boot = Some s1" "kmalloc_init 0x2000 s1 = Some s2"
      "\<forall>i<12. kmalloc_small s2 i = slot_of pa i \<and> as_asked s2 (slot_of pa i) (slot_of pb i) (slot_of pc i) (kname i) (push_bit i 1) (push_bit i 1) 0 0"
    using slab_start [OF demo_boot_kmem] by (elim exE conjE) (rule that)
  from r(3) [rule_format, of 5] show ?thesis
    by (intro exI [of _ s1] exI [of _ s2] exI [of _ pa] conjI r(1,2)) (simp_all add: as_asked_def)
qed

text \<open>The first request to the cache of caches, when no single page is free at the start.\<close>

lemma start_hooks:
  assumes b: "kmem_ready nb s fl" and z: "zones0 s = [z]" "pcp_idle (smm s)"
    and h: "1 \<le> h" "h < MAX_ORDER" "fl z h = p # ps" "\<forall>i<h. fl z i = []"
    and s1: "zones0 s1 = zones0 s" "client_change (smm s) (smm s1)" "creating (all_pairs (set (zones0 s)) fl) s1 0 pg F ks"
  shows "hooks z p s1" and "p < 0x3FFFE"
proof -
  let ?A = "kmem_cache_cache (statics s1)"
  have P: "pool (all_pairs (set (zones0 s)) fl) (static_caches (statics s1)) s1 pg (\<lambda>X. 0) F" using s1(3) by (simp add: creating_def)
  have "p \<in> all_pairs (set (zones0 s)) fl"
    unfolding all_pairs_def pair_set_def z(1) using h by (intro UN_I [of z] UN_I [of h] UN_I [of p]) simp_all
  then show p: "p < 0x3FFFE" using poolD(10) [OF P] by auto
  have A: "pair_cache (caches s1 ?A)" "cache_empty ?A s1"
    using poolD(1) [OF P, of ?A] by (simp_all add: static_caches_def serving_def)
  have "alloc_inv (smm s) {z} fl" using b z(1) by (simp add: kmem_ready_def Let_def)
  then have inv: "alloc_inv (smm s1) {z} fl" by (rule alloc_inv_client [OF _ s1(2)])
  have idle: "pcp_idle (smm s1)" using z(2) s1(2) by (simp add: pcp_idle_def client_change_def)
  note room = pair_cache_room [OF A(1) p]
  have "\<exists>u. kmem_cache_alloc ?A 0 (s1\<lparr>nbytes := m\<rparr>) = Some (page_address p, u) \<and> stuck z (Suc p) (smm u)" for m
    using first_pair_stuck [of "s1\<lparr>nbytes := m\<rparr>" "{z}" fl z h p ps ?A 0] inv idle h z(1) s1(1) A room
    by (auto simp: pair_cache_def cache_empty_def my_cpu_def cpu_of_def)
  then show "hooks z p s1" by (simp add: hooks_def slot_of_def)
qed

text \<open>The caches of \<open>kmalloc\<close> for up to 512 bytes have slabs of one page with three objects or more.\<close>

lemma class_layout:
  assumes "i < 10"
  shows "slab_layout (push_bit i 1) (push_bit i 1) = (if i < 2 then 4 else push_bit i 1, if i < 2 then 8 else push_bit (Suc i) 1)"
proof -
  have "i \<in> {0, 1, 2, 3, 4, 5, 6, 7, 8, 9}" using assms by auto
  then show ?thesis by (elim insertE emptyE) (simp_all add: slab_layout_def Let_def)
qed

lemma class_fresh:
  assumes "as_asked s d c nd nm (push_bit i 1) (push_bit i 1) 0 0" and "i < 10"
  shows "fresh_cache s d"
proof -
  have e: "cache_empty d s" "kc_cache_order (caches s d) = 0"
      "(kc_offset (caches s d), kc_object_size (caches s d)) = (if i < 2 then 4 else push_bit i 1, if i < 2 then 8 else push_bit (Suc i) 1)"
    using assms(1) unfolding as_asked_def class_layout [OF assms(2)] by blast+
  have "i \<in> {0, 1, 2, 3, 4, 5, 6, 7, 8, 9}" using assms(2) by auto
  then show ?thesis
    using e by (elim insertE emptyE) (simp_all add: fresh_cache_def one_page_cache_def slab_last_def slab_bytes_def)
qed



end
