(* ===== verification/Setup.thy ===== *)
theory Setup
  imports MmInitProps Console
begin

text \<open>
  The report on the boot loader's information, \<open>kernel/kernel/setup.c\<close>, with the structures and flags of
  \<open>multiboot.h\<close>. A report is the list of the calls of \<open>printf\<close>, each with its format and its arguments; the code
  ignores what \<open>printf\<close> returns, so the calls do not depend on it.
\<close>

section \<open>The information\<close>

definition MULTIBOOT_INFO_MEMORY :: u32 where "MULTIBOOT_INFO_MEMORY = 0x1"
definition MULTIBOOT_INFO_BOOTDEV :: u32 where "MULTIBOOT_INFO_BOOTDEV = 0x2"
definition MULTIBOOT_INFO_CMDLINE :: u32 where "MULTIBOOT_INFO_CMDLINE = 0x4"
definition MULTIBOOT_INFO_MODS :: u32 where "MULTIBOOT_INFO_MODS = 0x8"
definition MULTIBOOT_INFO_AOUT_SYMS :: u32 where "MULTIBOOT_INFO_AOUT_SYMS = 0x10"
definition MULTIBOOT_INFO_ELF_SHDR :: u32 where "MULTIBOOT_INFO_ELF_SHDR = 0x20"
definition MULTIBOOT_INFO_MEM_MAP :: u32 where "MULTIBOOT_INFO_MEM_MAP = 0x40"
definition MULTIBOOT_INFO_DRIVE_INFO :: u32 where "MULTIBOOT_INFO_DRIVE_INFO = 0x80"
definition MULTIBOOT_INFO_CONFIG_TABLE :: u32 where "MULTIBOOT_INFO_CONFIG_TABLE = 0x100"
definition MULTIBOOT_INFO_BOOT_LOADER_NAME :: u32 where "MULTIBOOT_INFO_BOOT_LOADER_NAME = 0x200"

definition MULTIBOOT_MEMORY_RESERVED :: u32 where "MULTIBOOT_MEMORY_RESERVED = 2"
definition MULTIBOOT_MEMORY_ACPI_RECLAIMABLE :: u32 where "MULTIBOOT_MEMORY_ACPI_RECLAIMABLE = 3"
definition MULTIBOOT_MEMORY_NVS :: u32 where "MULTIBOOT_MEMORY_NVS = 4"
definition MULTIBOOT_MEMORY_BADRAM :: u32 where "MULTIBOOT_MEMORY_BADRAM = 5"

text \<open>The fields up to the name of the boot loader; no code reads the ones after it, or the symbol tables.\<close>

record multiboot_info =
  mb_flags :: u32
  mb_mem_lower :: u32
  mb_mem_upper :: u32
  mb_boot_device :: u32
  mb_cmdline :: u32
  mb_mods_count :: u32
  mb_mods_addr :: u32
  mb_mmap_length :: u32
  mb_mmap_addr :: u32
  mb_drives_length :: u32
  mb_drives_addr :: u32
  mb_config_table :: u32
  mb_boot_loader_name :: u32

lemmas multiboot_defs [code_defs] = MULTIBOOT_INFO_MEMORY_def MULTIBOOT_INFO_BOOTDEV_def MULTIBOOT_INFO_CMDLINE_def
  MULTIBOOT_INFO_MODS_def MULTIBOOT_INFO_AOUT_SYMS_def MULTIBOOT_INFO_ELF_SHDR_def MULTIBOOT_INFO_MEM_MAP_def
  MULTIBOOT_INFO_DRIVE_INFO_def MULTIBOOT_INFO_CONFIG_TABLE_def MULTIBOOT_INFO_BOOT_LOADER_NAME_def
  MULTIBOOT_MEMORY_AVAILABLE_def MULTIBOOT_MEMORY_RESERVED_def MULTIBOOT_MEMORY_ACPI_RECLAIMABLE_def
  MULTIBOOT_MEMORY_NVS_def MULTIBOOT_MEMORY_BADRAM_def

section \<open>The calls of printf\<close>

type_synonym call = "string \<times> u32 list"

definition line :: "string \<Rightarrow> u32 list \<Rightarrow> call" where
  "line fmt args = (fmt @ [CHR 0x0A], args)"

definition print_mem_map :: "mmap_entry \<Rightarrow> call list" where
  "print_mem_map a =
     line ''    address :%x %x   length:%x '' [ucast (mm_addr a), ucast (mm_addr a + mm_len a), ucast (mm_len a)]
     # (if mm_type a = MULTIBOOT_MEMORY_AVAILABLE then [line ''    Avaliable memory'' []]
        else if mm_type a = MULTIBOOT_MEMORY_RESERVED then [line ''    Reversed memory'' []]
        else if mm_type a = MULTIBOOT_MEMORY_ACPI_RECLAIMABLE then [line ''    Apic memory'' []]
        else if mm_type a = MULTIBOOT_MEMORY_NVS then [line ''    NVS memory'' []]
        else if mm_type a = MULTIBOOT_MEMORY_BADRAM then [line ''    Bad memory'' []]
        else [])"

text \<open>The loop over the map stops when the length left is exactly zero.\<close>

partial_function (option) print_map_loop :: "(u32 \<Rightarrow> mmap_entry) \<Rightarrow> u32 \<Rightarrow> u32 \<Rightarrow> call list option" where
  "print_map_loop rd all_mem_map_length mmap_pointer =
     (if all_mem_map_length \<noteq> 0 then
        do { rest \<leftarrow> print_map_loop rd (all_mem_map_length - (mm_size (rd mmap_pointer) + 4))
                       (mmap_pointer + mm_size (rd mmap_pointer) + 4);
             Some (print_mem_map (rd mmap_pointer) @ rest) }
      else Some [])"

definition print_head :: "multiboot_info \<Rightarrow> call list" where
  "print_head mdb =
     [if mb_flags mdb AND MULTIBOOT_INFO_MEMORY \<noteq> 0
      then line ''lower memory and uppper memory detected :%x  %x'' [mb_mem_lower mdb, mb_mem_upper mdb]
      else line ''there is no mempry detected !!!!'' [],
      if mb_flags mdb AND MULTIBOOT_INFO_BOOTDEV \<noteq> 0
      then line ''bootdev have been detected : %x'' [mb_boot_device mdb] else line ''no bootdev'' [],
      if mb_flags mdb AND MULTIBOOT_INFO_CMDLINE \<noteq> 0
      then line ''cmd_line option : %s'' [mb_cmdline mdb] else line ''no cmd_line option'' [],
      if mb_flags mdb AND MULTIBOOT_INFO_MODS \<noteq> 0
      then line ''to do:: show modinfo here'' [] else line ''no mod info for now'' [],
      if mb_flags mdb AND MULTIBOOT_INFO_AOUT_SYMS \<noteq> 0 then line ''symbol table has been founded'' []
      else if mb_flags mdb AND MULTIBOOT_INFO_ELF_SHDR \<noteq> 0 then line ''elf header tabel has been found'' []
      else (''error in flags bit 4&5'', [])]"

definition print_map :: "(u32 \<Rightarrow> mmap_entry) \<Rightarrow> multiboot_info \<Rightarrow> call list option" where
  "print_map rd mdb =
     (if mb_flags mdb AND MULTIBOOT_INFO_MEM_MAP \<noteq> 0 then do {
        entries \<leftarrow> print_map_loop rd (mb_mmap_length mdb) (mb_mmap_addr mdb);
        Some (line (''full memory map detected  as follow'' @ [CHR 0x0A] @ ''    memory map address: %x length : %x'')
                [mb_mmap_addr mdb, mb_mmap_length mdb] # entries) }
      else Some [])"

definition print_tail :: "multiboot_info \<Rightarrow> call list" where
  "print_tail mdb =
     [if mb_flags mdb AND MULTIBOOT_INFO_DRIVE_INFO \<noteq> 0
      then line ''drive info detected '' [] else line ''no drive info detected '' [],
      if mb_flags mdb AND MULTIBOOT_INFO_CONFIG_TABLE \<noteq> 0
      then line ''config table detected'' [] else line ''no config table detected '' [],
      if mb_flags mdb AND MULTIBOOT_INFO_BOOT_LOADER_NAME \<noteq> 0
      then line ''boot loader name : %s'' [mb_boot_loader_name mdb] else line ''no boot loader name'' []]"

definition print_mempry_map_with_grub2 :: "(u32 \<Rightarrow> mmap_entry) \<Rightarrow> multiboot_info \<Rightarrow> call list option" where
  "print_mempry_map_with_grub2 rd mdb = do {
     entries \<leftarrow> print_map rd mdb;
     Some (print_head mdb @ entries @ print_tail mdb) }"

section \<open>Output, and the start of memory management\<close>

text \<open>The calls, one after the other, on the terminal; \<open>stack\<close> is what follows the arguments of a call.\<close>

fun print_calls :: "u32 \<Rightarrow> u32 \<Rightarrow> u32 list \<Rightarrow> call list \<Rightarrow> console \<Rightarrow> console option" where
  "print_calls tb lb stack [] s = Some s"
| "print_calls tb lb stack ((fmt, args) # cs) s = do {
     (r, t) \<leftarrow> printf tb lb (map of_char fmt) (args @ stack) s;
     print_calls tb lb stack cs t }"

definition setup_arch ::
    "u32 \<Rightarrow> u32 \<Rightarrow> u32 list \<Rightarrow> (u32 \<Rightarrow> mmap_entry) \<Rightarrow> u32 \<Rightarrow> u32 \<Rightarrow> u32 \<Rightarrow> u32 \<Rightarrow> u32 \<Rightarrow> multiboot_info
     \<Rightarrow> console \<times> words \<times> mm \<times> (nat \<Rightarrow> zonelist) \<Rightarrow> (console \<times> words \<times> mm \<times> (nat \<Rightarrow> zonelist)) option" where
  "setup_arch tb lb stack rd ps pgd ks ke kend mdb st = do {
     calls \<leftarrow> print_mempry_map_with_grub2 rd mdb;
     con \<leftarrow> print_calls tb lb stack calls (fst st);
     mem \<leftarrow> mm_page_init rd (mb_mmap_addr mdb) (mb_mmap_length mdb) ps pgd ks ke kend (snd st);
     Some (con, mem) }"

section \<open>The report ends\<close>

lemma print_map_loop_entries:
  assumes "mmap_at rd ptr es" "mmap_bytes es < 2 ^ 32"
  shows "print_map_loop rd (of_nat (mmap_bytes es)) ptr = Some (concat (map print_mem_map es))"
  using assms
proof (induction es arbitrary: ptr)
  case Nil
  then show ?case by (simp add: mmap_bytes_def print_map_loop.simps)
next
  case (Cons e es)
  note left = mmap_left [OF Cons.prems(2)]
  have "print_map_loop rd (of_nat (mmap_bytes es)) (ptr + mm_size e + 4) = Some (concat (map print_mem_map es))"
    using Cons.prems left(3) by (intro Cons.IH) simp_all
  then show ?case using Cons.prems(1) left(1,2) by (subst print_map_loop.simps) simp
qed

section \<open>The property\<close>


definition demo_info :: multiboot_info where
  "demo_info = \<lparr>mb_flags = 0x40, mb_mem_lower = 0, mb_mem_upper = 0, mb_boot_device = 0, mb_cmdline = 0, mb_mods_count = 0,
     mb_mods_addr = 0, mb_mmap_length = 24, mb_mmap_addr = 0x9000, mb_drives_length = 0, mb_drives_addr = 0,
     mb_config_table = 0, mb_boot_loader_name = 0\<rparr>"


end
