(* ===== verification/Traps.thy ===== *)
theory Traps
  imports Clock Console
begin

text \<open>
  The interrupt descriptor table: the gates and handlers of the processor's exceptions
  (\<open>kernel/kernel/traps.c\<close>, \<open>segment.h\<close>, \<open>process.h\<close>, \<open>ptrace.h\<close>, \<open>current.h\<close>), and
  \<open>init_IRQ\<close> of \<open>kernel/arch/i386/i8259.c\<close>, which sets the gates of the interrupt lines. The addresses of the
  assembly stubs are parameters.
\<close>

section \<open>Gates\<close>

record desc_struct =
  desc_a :: u32
  desc_b :: u32

definition desc_empty :: "desc_struct \<Rightarrow> bool" where
  "desc_empty x \<longleftrightarrow> desc_a x + desc_b x = 0"

definition desc_equal :: "desc_struct \<Rightarrow> desc_struct \<Rightarrow> bool" where
  "desc_equal x y \<longleftrightarrow> desc_a x = desc_a y \<and> desc_b x = desc_b y"

definition GDT_ENTRY_KERNEL_BASE :: u32 where "GDT_ENTRY_KERNEL_BASE = 12"
definition GDT_ENTRY_KERNEL_CS :: u32 where "GDT_ENTRY_KERNEL_CS = GDT_ENTRY_KERNEL_BASE + 0"
definition KERNEL_CS :: u32 where "KERNEL_CS = GDT_ENTRY_KERNEL_CS * 8"
definition GDT_ENTRY_DOUBLEFAULT_TSS :: u32 where "GDT_ENTRY_DOUBLEFAULT_TSS = 31"

text \<open>
  \<open>_set_gate\<close>: \<open>eax\<close> starts as the shifted selector and \<open>edx\<close> as the address; the two 16-bit moves replace the
  low half of \<open>eax\<close> by that of the address, and the low half of \<open>edx\<close> by the constant.
\<close>

definition low_half :: "u32 \<Rightarrow> u32 \<Rightarrow> u32" where
  "low_half reg v = (reg AND NOT (mask 16)) OR (v AND mask 16)"

definition set_gate :: "nat \<Rightarrow> nat \<Rightarrow> u32 \<Rightarrow> u32 \<Rightarrow> desc_struct" where
  "set_gate type dpl addr seg =
     (let eax = low_half (push_bit 16 seg) addr;
          edx = low_half addr (0x8000 + push_bit 13 (of_nat dpl) + push_bit 8 (of_nat type))
      in \<lparr>desc_a = eax, desc_b = edx\<rparr>)"

type_synonym idt = "nat \<Rightarrow> desc_struct"

definition set_intr_gate :: "nat \<Rightarrow> u32 \<Rightarrow> idt \<Rightarrow> idt" where
  "set_intr_gate n addr t = t(n := set_gate 14 0 addr KERNEL_CS)"

definition set_system_intr_gate :: "nat \<Rightarrow> u32 \<Rightarrow> idt \<Rightarrow> idt" where
  "set_system_intr_gate n addr t = t(n := set_gate 14 3 addr KERNEL_CS)"

definition set_trap_gate :: "nat \<Rightarrow> u32 \<Rightarrow> idt \<Rightarrow> idt" where
  "set_trap_gate n addr t = t(n := set_gate 15 0 addr KERNEL_CS)"

definition set_system_gate :: "nat \<Rightarrow> u32 \<Rightarrow> idt \<Rightarrow> idt" where
  "set_system_gate n addr t = t(n := set_gate 15 3 addr KERNEL_CS)"

definition set_task_gate :: "nat \<Rightarrow> u32 \<Rightarrow> idt \<Rightarrow> idt" where
  "set_task_gate n gdt_entry t = t(n := set_gate 5 0 0 (push_bit 3 gdt_entry))"

section \<open>Exceptions\<close>

text \<open>The exceptions that have a handler.\<close>

datatype trap_entry =
    divide_error | debug | overflow | bounds | invalid_op | coprocessor_segment_overrun | invalid_TSS
  | segment_not_present | stack_segment | general_protection | page_fault | alignment_check

text \<open>\<open>entry e\<close> is the address of the assembly stub of \<open>e\<close>.\<close>

definition trap_init :: "(trap_entry \<Rightarrow> u32) \<Rightarrow> idt \<Rightarrow> idt" where
  "trap_init entry t =
     (let t1 = set_trap_gate 0 (entry divide_error) t;
          t2 = set_system_gate 4 (entry overflow) t1;
          t3 = set_system_gate 5 (entry bounds) t2;
          t4 = set_trap_gate 6 (entry invalid_op) t3;
          t5 = set_task_gate 8 GDT_ENTRY_DOUBLEFAULT_TSS t4;
          t6 = set_trap_gate 9 (entry coprocessor_segment_overrun) t5;
          t7 = set_trap_gate 10 (entry invalid_TSS) t6;
          t8 = set_trap_gate 11 (entry segment_not_present) t7;
          t9 = set_trap_gate 12 (entry stack_segment) t8;
          t10 = set_trap_gate 13 (entry general_protection) t9;
          t11 = set_intr_gate 14 (entry page_fault) t10
      in set_trap_gate 17 (entry alignment_check) t11)"

record pt_regs =
  r_ebx :: u32
  r_ecx :: u32
  r_edx :: u32
  r_esi :: u32
  r_edi :: u32
  r_ebp :: u32
  r_eax :: u32
  r_xds :: u32
  r_xes :: u32
  r_orig_eax :: u32
  r_eip :: u32
  r_xcs :: u32
  r_eflags :: u32
  r_esp :: u32
  r_xss :: u32

record siginfo =
  si_signo :: u32
  si_errno :: u32
  si_code :: u32
  si_addr :: u32

text \<open>The fields of \<open>task_struct.thread\<close> that a trap records.\<close>

record thread_fault =
  error_code :: u32
  trap_no :: u32

text \<open>
  \<open>stk\<close> is the memory of the kernel stacks, whose lowest word is \<open>thread_info.task\<close>; \<open>threads\<close> gives the fault
  fields of the task at an address, \<open>esp\<close> is the stack pointer in the handler.
\<close>

record trap_state =
  stk :: "u32 \<Rightarrow> u32"
  esp :: u32
  threads :: "u32 \<Rightarrow> thread_fault"

definition THREAD_SIZE :: u32 where "THREAD_SIZE = 4096"

definition current_thread_info :: "trap_state \<Rightarrow> u32" where
  "current_thread_info s = esp s AND NOT (THREAD_SIZE - 1)"

definition get_current :: "trap_state \<Rightarrow> u32" where
  "get_current s = stk s (current_thread_info s)"

definition SIGILL :: u32 where "SIGILL = 4"
definition SIGTRAP :: u32 where "SIGTRAP = 5"
definition SIGBUS :: u32 where "SIGBUS = 7"
definition SIGFPE :: u32 where "SIGFPE = 8"
definition SIGSEGV :: u32 where "SIGSEGV = 11"

text \<open>The signal is not sent: the number, the string and the siginfo have no effect.\<close>

definition do_trap :: "u32 \<Rightarrow> u32 \<Rightarrow> string \<Rightarrow> pt_regs \<Rightarrow> u32 \<Rightarrow> siginfo \<Rightarrow> trap_state \<Rightarrow> trap_state" where
  "do_trap trapnr signr str regs err info s =
     (let tsk = get_current s in s\<lparr>threads := (threads s)(tsk := \<lparr>error_code = err, trap_no = trapnr\<rparr>)\<rparr>)"

definition DO_ERROR_INFO :: "u32 \<Rightarrow> u32 \<Rightarrow> string \<Rightarrow> u32 \<Rightarrow> u32 \<Rightarrow> pt_regs \<Rightarrow> u32 \<Rightarrow> trap_state \<Rightarrow> trap_state" where
  "DO_ERROR_INFO trapnr signr str sicode siaddr regs err s =
     (let info = \<lparr>si_signo = signr, si_errno = 0, si_code = sicode, si_addr = siaddr\<rparr>
      in do_trap trapnr signr str regs err info s)"

text \<open>The handlers \<open>do_divide_error\<close>, \<open>do_debug\<close> and so on.\<close>

fun do_error :: "trap_entry \<Rightarrow> pt_regs \<Rightarrow> u32 \<Rightarrow> trap_state \<Rightarrow> trap_state" where
  "do_error divide_error regs = DO_ERROR_INFO 0 SIGFPE ''divide error'' 0 (r_eip regs) regs"
| "do_error debug regs = DO_ERROR_INFO 1 SIGTRAP ''debug'' 0 (r_eip regs) regs"
| "do_error overflow regs = DO_ERROR_INFO 4 SIGSEGV ''overflow'' 0 (r_eip regs) regs"
| "do_error bounds regs = DO_ERROR_INFO 5 SIGSEGV ''bounds'' 0 (r_eip regs) regs"
| "do_error invalid_op regs = DO_ERROR_INFO 6 SIGILL ''invalid operand'' 0 (r_eip regs) regs"
| "do_error coprocessor_segment_overrun regs = DO_ERROR_INFO 9 SIGFPE ''coprocessor segment overrun'' 0 (r_eip regs) regs"
| "do_error invalid_TSS regs = DO_ERROR_INFO 10 SIGSEGV ''invalid TSS'' 0 (r_eip regs) regs"
| "do_error segment_not_present regs = DO_ERROR_INFO 11 SIGBUS ''segment not present'' 0 (r_eip regs) regs"
| "do_error stack_segment regs = DO_ERROR_INFO 12 SIGBUS ''stack segment'' 0 (r_eip regs) regs"
| "do_error general_protection regs = DO_ERROR_INFO 13 SIGSEGV ''general protection'' 0 (r_eip regs) regs"
| "do_error page_fault regs = DO_ERROR_INFO 14 SIGSEGV ''page fault'' 0 (r_eip regs) regs"
| "do_error alignment_check regs = DO_ERROR_INFO 17 SIGBUS ''alignment check'' 0 (r_eip regs) regs"

section \<open>The interrupt lines\<close>

record machine =
  mc_clock :: clock
  idt_table :: idt

text \<open>The loop over the vectors: \<open>stubs i\<close> is \<open>interrupt[i]\<close>; it stops at the number of lines.\<close>

fun set_irq_gates :: "(nat \<Rightarrow> u32) \<Rightarrow> nat list \<Rightarrow> idt \<Rightarrow> idt" where
  "set_irq_gates stubs [] t = t"
| "set_irq_gates stubs (i # is) t =
     (let vector = FIRST_EXTERNAL_VECTOR + i in
      if NR_IRQS \<le> i then t
      else set_irq_gates stubs is (if vector \<noteq> SYSCALL_VECTOR then set_intr_gate vector (stubs i) t else t))"

definition on_irqs :: "(irqs \<Rightarrow> irqs option) \<Rightarrow> clock \<Rightarrow> clock option" where
  "on_irqs f c = map_option (\<lambda>t. c\<lparr>ck_irqs := t\<rparr>) (f (ck_irqs c))"

definition init_IRQ :: "(nat \<Rightarrow> u32) \<Rightarrow> machine \<Rightarrow> machine option" where
  "init_IRQ stubs s = do {
     c1 \<leftarrow> on_irqs init_ISA_irqs (mc_clock s);
     c2 \<leftarrow> on_irqs (enable_8259A_irq 0) c1;
     c3 \<leftarrow> on_irqs (enable_8259A_irq 1) c2;
     let t = set_irq_gates stubs [0..<NR_VECTORS - FIRST_EXTERNAL_VECTOR] (idt_table s);
     c4 \<leftarrow> setup_pit_timer c3;
     c5 \<leftarrow> on_irqs intr_init_hook c4;
     Some \<lparr>mc_clock = c5, idt_table = t\<rparr> }"

end
