(* ===== verification/TrapsProps.thy ===== *)
theory TrapsProps
  imports Traps IrqProps ClockProps
begin

text \<open>
  Properties of the interrupt descriptor table: what the processor reads from the gates that the code writes,
  the gates after \<open>trap_init\<close> and \<open>init_IRQ\<close>, and what an exception handler records.
\<close>

section \<open>What the processor reads from a gate\<close>

definition gate_offset :: "desc_struct \<Rightarrow> u32" where
  "gate_offset d = (desc_b d AND NOT (mask 16)) OR (desc_a d AND mask 16)"

definition gate_selector :: "desc_struct \<Rightarrow> u16" where
  "gate_selector d = ucast (drop_bit 16 (desc_a d))"

definition gate_type :: "desc_struct \<Rightarrow> u32" where
  "gate_type d = take_bit 5 (drop_bit 8 (desc_b d))"

definition gate_dpl :: "desc_struct \<Rightarrow> u32" where
  "gate_dpl d = take_bit 2 (drop_bit 13 (desc_b d))"

definition gate_present :: "desc_struct \<Rightarrow> bool" where
  "gate_present d \<longleftrightarrow> bit (desc_b d) 15"

lemma low_half_twice: "low_half x (low_half y z) = low_half x z"
  by (rule bit_eqI) (auto simp: low_half_def bit_simps)

lemma low_half_self: "low_half x x = x"
  by (rule bit_eqI) (auto simp: low_half_def bit_simps)

lemma gate_word: "gate_offset (set_gate type dpl addr seg) = addr"
  by (rule bit_eqI) (auto simp: gate_offset_def set_gate_def low_half_def Let_def bit_simps)

lemma gate_seg: "gate_selector (set_gate type dpl addr seg) = ucast seg"
  by (rule bit_eqI) (auto simp: gate_selector_def set_gate_def low_half_def Let_def bit_simps)

text \<open>The constant of a gate, for the types and levels that have room in their fields.\<close>

definition gate_const :: "nat \<Rightarrow> nat \<Rightarrow> u32" where
  "gate_const type dpl = 0x8000 + push_bit 13 (of_nat dpl) + push_bit 8 (of_nat type)"

lemma gate_const_fields:
  assumes "type < 32" "dpl < 4"
  shows "take_bit 5 (drop_bit 8 (gate_const type dpl)) = of_nat type \<and> take_bit 2 (drop_bit 13 (gate_const type dpl)) = of_nat dpl
    \<and> bit (gate_const type dpl) 15"
proof -
  have "\<forall>t \<in> set [0..<32]. \<forall>d \<in> set [0..<4]. take_bit 5 (drop_bit 8 (gate_const t d)) = of_nat t
      \<and> take_bit 2 (drop_bit 13 (gate_const t d)) = of_nat d \<and> bit (gate_const t d) 15"
    by code_simp
  with assms show ?thesis by auto
qed

lemma gate_fields_const:
  "gate_type (set_gate type dpl addr seg) = take_bit 5 (drop_bit 8 (gate_const type dpl))"
  "gate_dpl (set_gate type dpl addr seg) = take_bit 2 (drop_bit 13 (gate_const type dpl))"
  "gate_present (set_gate type dpl addr seg) = bit (gate_const type dpl) 15"
proof -
  have b: "bit (desc_b (set_gate type dpl addr seg)) i = bit (gate_const type dpl) i" if "i < 16" for i
    using that by (simp add: set_gate_def low_half_def gate_const_def Let_def bit_simps)
  show "gate_type (set_gate type dpl addr seg) = take_bit 5 (drop_bit 8 (gate_const type dpl))"
    unfolding gate_type_def by (rule bit_eqI) (auto simp: bit_simps b)
  show "gate_dpl (set_gate type dpl addr seg) = take_bit 2 (drop_bit 13 (gate_const type dpl))"
    unfolding gate_dpl_def by (rule bit_eqI) (auto simp: bit_simps b)
  show "gate_present (set_gate type dpl addr seg) = bit (gate_const type dpl) 15"
    unfolding gate_present_def by (rule b) simp
qed

text \<open>The fields of a gate as one predicate.\<close>

definition gate_is :: "desc_struct \<Rightarrow> nat \<Rightarrow> nat \<Rightarrow> u32 \<Rightarrow> u32 \<Rightarrow> bool" where
  "gate_is d type dpl addr seg \<longleftrightarrow> gate_present d \<and> gate_type d = of_nat type \<and> gate_dpl d = of_nat dpl
     \<and> gate_offset d = addr \<and> gate_selector d = ucast seg"

lemma set_gate_is: "type < 32 \<Longrightarrow> dpl < 4 \<Longrightarrow> gate_is (set_gate type dpl addr seg) type dpl addr seg"
  using gate_const_fields [of type dpl] unfolding gate_is_def gate_fields_const gate_word gate_seg by simp

section \<open>The gates of the interrupt lines\<close>

lemma set_irq_gates_vectors:
  assumes "m \<le> NR_IRQS"
  shows "set_irq_gates stubs ([k..<m] @ is) t
    = set_irq_gates stubs is (\<lambda>v. if FIRST_EXTERNAL_VECTOR + k \<le> v \<and> v < FIRST_EXTERNAL_VECTOR + m
        then set_gate 14 0 (stubs (v - FIRST_EXTERNAL_VECTOR)) KERNEL_CS else t v)"
proof (induction "m - k" arbitrary: k t)
  case 0
  then have e: "[k..<m] = []" by simp
  have "(\<lambda>v. if FIRST_EXTERNAL_VECTOR + k \<le> v \<and> v < FIRST_EXTERNAL_VECTOR + m
      then set_gate 14 0 (stubs (v - FIRST_EXTERNAL_VECTOR)) KERNEL_CS else t v) = t"
    using 0 by (auto simp: fun_eq_iff)
  then show ?case unfolding e by simp
next
  case (Suc n)
  then have u: "[k..<m] = k # [Suc k..<m]" and k: "k < m" "n = m - Suc k" by (simp_all add: upt_conv_Cons)
  have nr: "\<not> NR_IRQS \<le> k" "FIRST_EXTERNAL_VECTOR + k \<noteq> SYSCALL_VECTOR"
    using k assms by (simp_all add: NR_IRQS_def FIRST_EXTERNAL_VECTOR_def SYSCALL_VECTOR_def)
  have f: "(\<lambda>v. if FIRST_EXTERNAL_VECTOR + Suc k \<le> v \<and> v < FIRST_EXTERNAL_VECTOR + m
        then set_gate 14 0 (stubs (v - FIRST_EXTERNAL_VECTOR)) KERNEL_CS
        else (set_intr_gate (FIRST_EXTERNAL_VECTOR + k) (stubs k) t) v)
    = (\<lambda>v. if FIRST_EXTERNAL_VECTOR + k \<le> v \<and> v < FIRST_EXTERNAL_VECTOR + m
        then set_gate 14 0 (stubs (v - FIRST_EXTERNAL_VECTOR)) KERNEL_CS else t v)"
    using k by (auto simp: fun_eq_iff set_intr_gate_def)
  show ?case unfolding u using nr Suc.hyps(1) [OF k(2)] unfolding f [symmetric] by (simp add: Let_def)
qed

lemma set_irq_gates_all:
  "set_irq_gates stubs [0..<NR_VECTORS - FIRST_EXTERNAL_VECTOR] t
    = (\<lambda>v. if 32 \<le> v \<and> v < 48 then set_gate 14 0 (stubs (v - 32)) KERNEL_CS else t v)"
proof -
  have u: "[0..<NR_VECTORS - FIRST_EXTERNAL_VECTOR] = [0..<NR_IRQS] @ NR_IRQS # [Suc NR_IRQS..<224]"
    using upt_add_eq_append [of 0 16 208] upt_conv_Cons [of 16 224]
    by (simp add: NR_VECTORS_def FIRST_EXTERNAL_VECTOR_def NR_IRQS_def del: upt_rec_numeral)
  have stop: "set_irq_gates stubs (NR_IRQS # is) t' = t'" for "is" t' by (simp add: Let_def)
  show ?thesis unfolding u set_irq_gates_vectors [OF order_refl] stop
    unfolding FIRST_EXTERNAL_VECTOR_def NR_IRQS_def by simp
qed

lemma bit_of_iff: "bit (bit_of k) i \<longleftrightarrow> i = k \<and> k < 32"
  by (auto simp: bit_of_def bit_simps)

section \<open>The controllers at start-up\<close>

lemma init_irq_descs_frame:
  "i8259A_lock (init_irq_descs is s) = i8259A_lock s" "io (init_irq_descs is s) = io s"
  "cached_irq_mask (init_irq_descs is s) = cached_irq_mask s" "cpu_if (init_irq_descs is s) = cpu_if s"
  "actions (init_irq_descs is s) = actions s" "ack_8259A (init_irq_descs is s) = ack_8259A s"
  by (induction "is" s rule: init_irq_descs.induct) (simp_all add: upd_desc_def)

lemma init_irq_descs_desc:
  "distinct is \<Longrightarrow> irq_desc (init_irq_descs is s) i = (if i \<in> set is then (irq_desc s i)\<lparr>d_status := IRQ_DISABLED,
     d_action := None, d_depth := 1, d_handler := (if i < 16 then i8259A_irq_type else no_irq_type)\<rparr> else irq_desc s i)"
  by (induction "is" s rule: init_irq_descs.induct) (auto simp: upd_desc_def)

lemma pic_inv_init_descs: "pic_inv (init_irq_descs is s) = pic_inv s"
  by (simp add: pic_inv_def imr_mirrored_def cached_master_mask_def cached_slave_mask_def init_irq_descs_frame)

lemma init_ISA_irqs_inv:
  assumes "unlocked (i8259A_lock s)"
  shows "\<exists>s'. init_ISA_irqs s = Some s' \<and> pic_inv s' \<and> cpu_if s' = cpu_if s \<and> cached_irq_mask s' = cached_irq_mask s
    \<and> actions s' = actions s \<and> ack_8259A s' = AckMask
    \<and> (\<forall>i<16. irq_desc s' i = (irq_desc s i)\<lparr>d_status := IRQ_DISABLED, d_action := None, d_depth := 1,
          d_handler := i8259A_irq_type\<rparr>)"
proof -
  obtain t where "init_8259A False s = Some t" "pic_inv t" "cpu_if t = cpu_if s" "cached_irq_mask t = cached_irq_mask s"
      "actions t = actions s" "irq_desc t = irq_desc s" "ack_8259A t = AckMask"
    using init_8259A_inv [OF assms, of False] by auto
  then show ?thesis
    by (auto simp: init_ISA_irqs_def pic_inv_init_descs init_irq_descs_frame init_irq_descs_desc NR_IRQS_def)
qed

lemma setup_pit_keeps:
  assumes "unlocked (i8253_lock c)"
  shows "\<exists>c'. setup_pit_timer c = Some c' \<and> i8253_lock c' = i8253_lock c \<and> pic_inv (ck_irqs c') = pic_inv (ck_irqs c)
    \<and> cpu_if (ck_irqs c') = cpu_if (ck_irqs c) \<and> cached_irq_mask (ck_irqs c') = cached_irq_mask (ck_irqs c)
    \<and> actions (ck_irqs c') = actions (ck_irqs c) \<and> irq_desc (ck_irqs c') = irq_desc (ck_irqs c)
    \<and> ack_8259A (ck_irqs c') = ack_8259A (ck_irqs c) \<and> rtc_lock c' = rtc_lock c"
  using assms spin_lock_unlock [OF assms]
  by (simp add: setup_pit_timer_def lock_8253_def unlock_8253_def ck_outb_def pic_inv_def imr_mirrored_def
      PIT_MODE_def PIT_CH0_def pic_ports)
     (simp add: cached_master_mask_def cached_slave_mask_def)

text \<open>The state of the machine before \<open>init_IRQ\<close>.\<close>

definition boot_ready :: "clock \<Rightarrow> bool" where
  "boot_ready c \<longleftrightarrow> unlocked (i8259A_lock (ck_irqs c)) \<and> unlocked (i8253_lock c)
     \<and> unlocked (d_lock (irq_desc (ck_irqs c) 1)) \<and> a_next (actions (ck_irqs c) IRQ1_ACTION) = None"

lemma init_IRQ_spec:
  assumes "boot_ready (mc_clock s)"
  shows "\<exists>s'. init_IRQ stubs s = Some s'
    \<and> idt_table s' = (\<lambda>v. if 32 \<le> v \<and> v < 48 then set_gate 14 0 (stubs (v - 32)) KERNEL_CS else idt_table s v)
    \<and> pic_inv (ck_irqs (mc_clock s'))
    \<and> cached_irq_mask (ck_irqs (mc_clock s'))
        = cached_irq_mask (ck_irqs (mc_clock s)) AND NOT (bit_of 0) AND NOT (bit_of 1)
    \<and> chain (actions (ck_irqs (mc_clock s'))) (d_action (irq_desc (ck_irqs (mc_clock s')) 1)) [IRQ1_ACTION]
    \<and> d_status (irq_desc (ck_irqs (mc_clock s')) 1) = IRQ_PER_CPU
    \<and> i8253_lock (mc_clock s') = i8253_lock (mc_clock s) \<and> cpu_if (ck_irqs (mc_clock s')) = cpu_if (ck_irqs (mc_clock s))
    \<and> irq_desc (ck_irqs (mc_clock s')) 0 = (irq_desc (ck_irqs (mc_clock s)) 0)\<lparr>d_status := IRQ_PER_CPU,
        d_action := None, d_depth := 1, d_handler := i8259A_irq_type\<rparr>
    \<and> (\<forall>a. a \<noteq> IRQ1_ACTION \<longrightarrow> actions (ck_irqs (mc_clock s')) a = actions (ck_irqs (mc_clock s)) a)
    \<and> rtc_lock (mc_clock s') = rtc_lock (mc_clock s)"
proof -
  let ?q = "ck_irqs (mc_clock s)"
  have b: "unlocked (i8259A_lock ?q)" "unlocked (i8253_lock (mc_clock s))" "unlocked (d_lock (irq_desc ?q 1))"
      "a_next (actions ?q IRQ1_ACTION) = None"
    using assms by (simp_all add: boot_ready_def)
  obtain q1 where q1: "init_ISA_irqs ?q = Some q1" "pic_inv q1" "cpu_if q1 = cpu_if ?q"
      "cached_irq_mask q1 = cached_irq_mask ?q" "actions q1 = actions ?q" "ack_8259A q1 = AckMask"
      "\<forall>i<16. irq_desc q1 i = (irq_desc ?q i)\<lparr>d_status := IRQ_DISABLED, d_action := None, d_depth := 1,
          d_handler := i8259A_irq_type\<rparr>"
    using init_ISA_irqs_inv [OF b(1)] by blast
  obtain q2 where q2: "enable_8259A_irq 0 q1 = Some q2" "pic_inv q2" "cpu_if q2 = cpu_if q1"
      "cached_irq_mask q2 = cached_irq_mask q1 AND NOT (bit_of 0)" "actions q2 = actions q1"
      "irq_desc q2 = (irq_desc q1)(0 := (irq_desc q1 0)\<lparr>d_status := IRQ_PER_CPU\<rparr>)" "ack_8259A q2 = ack_8259A q1"
    using enable_8259A_inv [OF q1(2), of 0] enable_8259A_eq [of q1 0] q1(2) by (auto simp: pic_inv_def upd_desc_def)
  obtain q3 where q3: "enable_8259A_irq 1 q2 = Some q3" "pic_inv q3" "cpu_if q3 = cpu_if q2"
      "cached_irq_mask q3 = cached_irq_mask q2 AND NOT (bit_of 1)" "actions q3 = actions q2"
      "irq_desc q3 = (irq_desc q2)(1 := (irq_desc q2 1)\<lparr>d_status := IRQ_PER_CPU\<rparr>)" "ack_8259A q3 = ack_8259A q2"
    using enable_8259A_inv [OF q2(2), of 1] enable_8259A_eq [of q2 1] q2(2) by (auto simp: pic_inv_def upd_desc_def)
  let ?c3 = "mc_clock s\<lparr>ck_irqs := q3\<rparr>"
  obtain c4 where c4: "setup_pit_timer ?c3 = Some c4" "i8253_lock c4 = i8253_lock (mc_clock s)"
      "pic_inv (ck_irqs c4)" "cpu_if (ck_irqs c4) = cpu_if q3" "cached_irq_mask (ck_irqs c4) = cached_irq_mask q3"
      "actions (ck_irqs c4) = actions q3" "irq_desc (ck_irqs c4) = irq_desc q3" "ack_8259A (ck_irqs c4) = ack_8259A q3"
      "rtc_lock c4 = rtc_lock (mc_clock s)"
    using setup_pit_keeps [of ?c3] b(2) q3(2) by auto
  have d: "d_handler (irq_desc (ck_irqs c4) 1) = i8259A_irq_type" "d_action (irq_desc (ck_irqs c4) 1) = None"
      "unlocked (d_lock (irq_desc (ck_irqs c4) 1))"
    using b(3) q1(7) unfolding c4(7) q3(6) q2(6) by simp_all
  have n: "a_next (actions (ck_irqs c4) IRQ1_ACTION) = None" using b(4) unfolding c4(6) q3(5) q2(5) q1(5) .
  obtain q5 where q5: "setup_irq 1 IRQ1_ACTION (ck_irqs c4) = Some (0, q5)" "chain (actions q5) (d_action (irq_desc q5 1)) [IRQ1_ACTION]"
      "d_status (irq_desc q5 1) = IRQ_PER_CPU" "pic_inv q5" "cached_irq_mask q5 = cached_irq_mask (ck_irqs c4) AND NOT (bit_of 1)"
      "cpu_if q5 = cpu_if (ck_irqs c4)" "\<forall>j. j \<noteq> 1 \<longrightarrow> irq_desc q5 j = irq_desc (ck_irqs c4) j"
      "\<forall>a. a \<noteq> IRQ1_ACTION \<longrightarrow> actions q5 a = actions (ck_irqs c4) a"
    using setup_irq_first [OF d(1,3) c4(3) _ d(2) n] by auto
  have run: "init_IRQ stubs s = Some \<lparr>mc_clock = c4\<lparr>ck_irqs := q5\<rparr>,
      idt_table = set_irq_gates stubs [0..<NR_VECTORS - FIRST_EXTERNAL_VECTOR] (idt_table s)\<rparr>"
    using q1(1) q2(1) q3(1) c4(1) q5(1) by (simp add: init_IRQ_def on_irqs_def intr_init_hook_def Let_def)
  have m: "cached_irq_mask q5 = cached_irq_mask ?q AND NOT (bit_of 0) AND NOT (bit_of 1)"
    unfolding q5(5) c4(5) q3(4) q2(4) q1(4) by (rule bit_eqI) (auto simp: bit_simps)
  have z: "irq_desc q5 0 = (irq_desc ?q 0)\<lparr>d_status := IRQ_PER_CPU, d_action := None, d_depth := 1, d_handler := i8259A_irq_type\<rparr>"
    using q5(7) q1(7) unfolding c4(7) q3(6) q2(6) by simp
  show ?thesis
    unfolding run set_irq_gates_all using q5(2-4,6,8) m c4(2,4,6,9) q3(3,5) q2(3,5) q1(3,5) z by simp
qed

text \<open>The vector of each exception.\<close>

fun trap_vector :: "trap_entry \<Rightarrow> nat" where
  "trap_vector divide_error = 0" | "trap_vector debug = 1" | "trap_vector overflow = 4" | "trap_vector bounds = 5"
| "trap_vector invalid_op = 6" | "trap_vector coprocessor_segment_overrun = 9" | "trap_vector invalid_TSS = 10"
| "trap_vector segment_not_present = 11" | "trap_vector stack_segment = 12" | "trap_vector general_protection = 13"
| "trap_vector page_fault = 14" | "trap_vector alignment_check = 17"

section \<open>The properties\<close>

text \<open>
  What \<open>_set_gate\<close> packs into the two words of a descriptor the processor unpacks: the gate is present, with the
  type, privilege level, address and the low half of the selector that were given.
\<close>

theorem set_gate_roundtrip:
  assumes "type < 32" and "dpl < 4"
  shows "gate_present (set_gate type dpl addr seg) \<and> gate_type (set_gate type dpl addr seg) = of_nat type
     \<and> gate_dpl (set_gate type dpl addr seg) = of_nat dpl \<and> gate_offset (set_gate type dpl addr seg) = addr
     \<and> gate_selector (set_gate type dpl addr seg) = ucast seg"
  using set_gate_is [OF assms] unfolding gate_is_def .

theorem set_gate_roundtrip_witness:
  "gate_offset (set_gate 15 3 0xC0101234 KERNEL_CS) = 0xC0101234 \<and> gate_dpl (set_gate 15 3 0xC0101234 KERNEL_CS) = 3"
  using set_gate_roundtrip [of 15 3 "0xC0101234" KERNEL_CS] by simp

text \<open>
  C13: the table after \<open>trap_init\<close>. Each exception has a gate to its own stub; only overflow and bounds may be raised
  from user mode, the page fault alone enters with interrupts off, a double fault switches to the task of descriptor 31,
  and no other entry changes: the exceptions 1 (although \<open>do_debug\<close> exists), 2, 3, 7, 15, 16 and 18 up keep what
  the boot code put there.
\<close>

theorem trap_init_gates:
  "(\<forall>e \<in> UNIV - {debug}. gate_is (trap_init entry t (trap_vector e))
       (if e = page_fault then 14 else 15) (if e = overflow \<or> e = bounds then 3 else 0) (entry e) 0x60)
   \<and> gate_is (trap_init entry t 8) 5 0 0 0xF8
   \<and> (\<forall>v. v \<noteq> 8 \<and> v \<notin> trap_vector ` (UNIV - {debug}) \<longrightarrow> trap_init entry t v = t v)"
proof (intro conjI ballI allI impI)
  have cs: "KERNEL_CS = 0x60" by (simp add: KERNEL_CS_def GDT_ENTRY_KERNEL_CS_def GDT_ENTRY_KERNEL_BASE_def)
  note defs = trap_init_def set_trap_gate_def set_system_gate_def set_task_gate_def set_intr_gate_def Let_def
  show "gate_is (trap_init entry t (trap_vector e)) (if e = page_fault then 14 else 15)
      (if e = overflow \<or> e = bounds then 3 else 0) (entry e) 0x60" if "e \<in> UNIV - {debug}" for e
    using that unfolding cs [symmetric] by (cases e) (simp_all add: defs set_gate_is)
  have "push_bit 3 GDT_ENTRY_DOUBLEFAULT_TSS = 0xF8" by (simp add: GDT_ENTRY_DOUBLEFAULT_TSS_def)
  then show "gate_is (trap_init entry t 8) 5 0 0 0xF8" by (simp add: defs set_gate_is)
  fix v assume v: "v \<noteq> 8 \<and> v \<notin> trap_vector ` (UNIV - {debug})"
  have "v \<noteq> trap_vector e" if "e \<noteq> debug" for e using v that by auto
  from this [of divide_error] this [of overflow] this [of bounds] this [of invalid_op] this [of coprocessor_segment_overrun]
    this [of invalid_TSS] this [of segment_not_present] this [of stack_segment] this [of general_protection]
    this [of page_fault] this [of alignment_check] v
  show "trap_init entry t v = t v" by (simp add: defs)
qed

theorem trap_init_gates_witness:
  "gate_is (trap_init (\<lambda>e. 0xC0101000 + 16 * of_nat (trap_vector e)) (\<lambda>v. \<lparr>desc_a = 0, desc_b = 0\<rparr>) 14) 14 0 0xC01010E0 0x60"
proof -
  have "page_fault \<in> UNIV - {debug}" by simp
  from bspec [OF conjunct1 [OF trap_init_gates] this, of "\<lambda>e. 0xC0101000 + 16 * of_nat (trap_vector e)" "\<lambda>v. \<lparr>desc_a = 0, desc_b = 0\<rparr>"]
  show ?thesis by simp
qed

text \<open>
  \<open>init_IRQ\<close> returns when the locks are free. It points the vectors 32 to 47 at the stubs of the 16 lines, with
  interrupts off on entry, and leaves all others; the lines 0 and 1 are unmasked, the mask registers mirror the
  cached mask, the keyboard's action serves line 1, and the interrupt flag and the locks are as before.
\<close>

theorem init_IRQ_correct:
  assumes "boot_ready (mc_clock s)"
  shows "\<exists>s'. init_IRQ stubs s = Some s'
     \<and> (\<forall>i<16. gate_is (idt_table s' (32 + i)) 14 0 (stubs i) 0x60) \<and> (\<forall>v. v < 32 \<or> 48 \<le> v \<longrightarrow> idt_table s' v = idt_table s v)
     \<and> pic_inv (ck_irqs (mc_clock s')) \<and> (\<forall>i. bit (cached_irq_mask (ck_irqs (mc_clock s'))) i
          = (bit (cached_irq_mask (ck_irqs (mc_clock s))) i \<and> i \<noteq> 0 \<and> i \<noteq> 1))
     \<and> chain (actions (ck_irqs (mc_clock s'))) (d_action (irq_desc (ck_irqs (mc_clock s')) 1)) [IRQ1_ACTION]
     \<and> d_status (irq_desc (ck_irqs (mc_clock s')) 1) = IRQ_PER_CPU \<and> cpu_if (ck_irqs (mc_clock s')) = cpu_if (ck_irqs (mc_clock s))
     \<and> i8253_lock (mc_clock s') = i8253_lock (mc_clock s)"
proof -
  obtain s' where s': "init_IRQ stubs s = Some s'"
    "idt_table s' = (\<lambda>v. if 32 \<le> v \<and> v < 48 then set_gate 14 0 (stubs (v - 32)) KERNEL_CS else idt_table s v)"
    "cached_irq_mask (ck_irqs (mc_clock s'))
        = cached_irq_mask (ck_irqs (mc_clock s)) AND NOT (bit_of 0) AND NOT (bit_of 1)"
    "pic_inv (ck_irqs (mc_clock s'))"
    "chain (actions (ck_irqs (mc_clock s'))) (d_action (irq_desc (ck_irqs (mc_clock s')) 1)) [IRQ1_ACTION]"
    "d_status (irq_desc (ck_irqs (mc_clock s')) 1) = IRQ_PER_CPU"
    "i8253_lock (mc_clock s') = i8253_lock (mc_clock s)" "cpu_if (ck_irqs (mc_clock s')) = cpu_if (ck_irqs (mc_clock s))"
    using init_IRQ_spec [OF assms, of stubs] by blast
  have cs: "KERNEL_CS = 0x60" by (simp add: KERNEL_CS_def GDT_ENTRY_KERNEL_CS_def GDT_ENTRY_KERNEL_BASE_def)
  have "\<forall>i<16. gate_is (idt_table s' (32 + i)) 14 0 (stubs i) 0x60"
    unfolding s'(2) cs [symmetric] by (simp add: set_gate_is)
  moreover have "\<forall>i. bit (cached_irq_mask (ck_irqs (mc_clock s'))) i
      = (bit (cached_irq_mask (ck_irqs (mc_clock s))) i \<and> i \<noteq> 0 \<and> i \<noteq> 1)"
    unfolding s'(3) by (auto simp: bit_of_iff bit_and_iff bit_not_iff dest: bit_imp_le_length)
  ultimately show ?thesis using s' by auto
qed

theorem init_IRQ_correct_witness:
  "\<exists>s'. init_IRQ (\<lambda>i. 0xC0102000 + 8 * of_nat i) \<lparr>mc_clock = demo_clock, idt_table = (\<lambda>v. \<lparr>desc_a = 0, desc_b = 0\<rparr>)\<rparr> = Some s'
     \<and> gate_is (idt_table s' (32 + 1)) 14 0 0xC0102008 0x60"
proof -
  have "boot_ready (mc_clock \<lparr>mc_clock = demo_clock, idt_table = (\<lambda>v. \<lparr>desc_a = 0, desc_b = 0\<rparr>)\<rparr>)"
    using demo_clock_facts demo_irqs_inv by (simp add: boot_ready_def demo_clock_def demo_irqs_def pic_inv_def)
  from init_IRQ_correct [OF this, of "\<lambda>i. 0xC0102000 + 8 * of_nat i"] obtain s' where
    "init_IRQ (\<lambda>i. 0xC0102000 + 8 * of_nat i) \<lparr>mc_clock = demo_clock, idt_table = (\<lambda>v. \<lparr>desc_a = 0, desc_b = 0\<rparr>)\<rparr> = Some s'"
    "\<forall>i<16. gate_is (idt_table s' (32 + i)) 14 0 (0xC0102000 + 8 * of_nat i) 0x60" by blast
  note run = this(1) and gates = spec [OF this(2), of 1]
  from gates have "gate_is (idt_table s' (32 + 1)) 14 0 0xC0102008 0x60" by simp
  with run show ?thesis by blast
qed

text \<open>
  The handler of an exception records the vector and the error code of the exception in the task whose pointer
  is in the lowest word of the stack's page, and changes nothing else; the instruction is then tried again.
\<close>

theorem trap_recorded:
  "do_error e regs err s
     = s\<lparr>threads := (threads s)(stk s (of_nat (unat (esp s) div 4096 * 4096))
         := \<lparr>error_code = err, trap_no = of_nat (trap_vector e)\<rparr>)\<rparr>"
proof -
  have "unat (esp s AND NOT (THREAD_SIZE - 1)) = unat (esp s) div 4096 * 4096"
    using align_down_unat [of "esp s" 12] by (simp add: THREAD_SIZE_def)
  from word_of_unat_eq [OF this] have "get_current s = stk s (of_nat (unat (esp s) div 4096 * 4096))"
    unfolding get_current_def current_thread_info_def by (simp only:)
  then show ?thesis by (cases e) (simp_all add: DO_ERROR_INFO_def do_trap_def Let_def)
qed

end
