(* ===== verification/TestProg.thy ===== *)
theory TestProg
  imports SlabRun Setup
begin

text \<open>
  The test program \<open>kernel/kernel/test.c\<close> that \<open>kernel_main\<close> runs: it creates two caches, allocates and frees, and
  prints every cache. As in \<open>Setup\<close>, what is printed is a list of calls of \<open>printf\<close>; \<open>jump_num\<close> is in \<open>Slab\<close>.
\<close>

section \<open>Dumps\<close>

text \<open>The loop over the processor's partial slabs, which never moves on to the next one.\<close>

partial_function (option) dump_partial :: "nat option \<Rightarrow> slabs \<Rightarrow> call list option" where
  "dump_partial part s =
     (case part of
        None \<Rightarrow> Some []
      | Some q \<Rightarrow> do {
          n \<leftarrow> jump_num (wds s) (pg_free_list (page_of q s));
          rest \<leftarrow> dump_partial part s;
          Some (line ''partial; slab : %x %d/ %d '' [page_address q, n, ucast (pg_objects (page_of q s))] # rest) })"

definition dump_current :: "u32 \<Rightarrow> slabs \<Rightarrow> call list option" where
  "dump_current kmp s =
     (let c = cpus s (cpu_of kmp s) in
      case cpage c of
        Some p \<Rightarrow> do {
          n \<leftarrow> jump_num (wds s) (freelist c);
          Some [line ''current slab : %x %d/ %d '' [page_address p, n, ucast (pg_objects (page_of p s))]] }
      | None \<Rightarrow> Some [line ''no current slab'' []])"

definition dump_head :: "u32 \<Rightarrow> kmem_cache \<Rightarrow> call list" where
  "dump_head kmp k =
     [line ''cache name is  %s '' [kmp + 72],
      (''        size pointer: %d %d %d. slab-page-num : %d '',
        [kc_size k, kc_pointer_size k, kc_object_size k, push_bit (unat (kc_cache_order k)) 1]),
      line '' inuse:%d '' [kc_inuse k]]"

definition dump_cachep_info :: "u32 \<Rightarrow> slabs \<Rightarrow> call list option" where
  "dump_cachep_info kmp s = do {
     cur \<leftarrow> dump_current kmp s;
     parts \<leftarrow> dump_partial (cpartial (cpus s (cpu_of kmp s))) s;
     Some (dump_head kmp (caches s kmp) @ cur @ parts) }"

text \<open>\<open>list_for_each\<close> over the caches; a node that is not in a cache is not a cache.\<close>

partial_function (option) dump_from :: "lnode \<Rightarrow> slabs \<Rightarrow> call list option" where
  "dump_from pos s =
     (if pos = CacheListHead then Some []
      else case pos of
             CacheHead k \<Rightarrow> do {
               cs \<leftarrow> dump_cachep_info k s;
               rest \<leftarrow> dump_from (nxt (lists (smm s)) pos) s;
               Some (line ''---------'' [] # cs @ rest) }
           | _ \<Rightarrow> None)"

definition test_dump_all_cahep :: "slabs \<Rightarrow> call list option" where
  "test_dump_all_cahep s = dump_from (nxt (lists (smm s)) CacheListHead) s"

section \<open>The tests\<close>

text \<open>The terminal and the allocator; they share the memory of bytes.\<close>

definition say :: "u32 \<Rightarrow> u32 \<Rightarrow> u32 list \<Rightarrow> call list \<Rightarrow> console \<times> slabs \<Rightarrow> (console \<times> slabs) option" where
  "say tb lb stack cs w =
     map_option (\<lambda>con. (con, (snd w)\<lparr>nbytes := cmem con\<rparr>)) (print_calls tb lb stack cs ((fst w)\<lparr>cmem := nbytes (snd w)\<rparr>))"

definition test_dump :: "u32 \<Rightarrow> u32 \<Rightarrow> u32 list \<Rightarrow> console \<times> slabs \<Rightarrow> (console \<times> slabs) option" where
  "test_dump tb lb stack w = Option.bind (test_dump_all_cahep (snd w)) (\<lambda>cs. say tb lb stack cs w)"

definition test_slub :: "u32 \<Rightarrow> u32 \<Rightarrow> u32 list \<Rightarrow> console \<times> slabs \<Rightarrow> (console \<times> slabs) option" where
  "test_slub tb lb stack w = do {
     (test1, s1) \<leftarrow> kmem_cache_create (Some (map of_char ''for purpose'')) 54 16 0 2 0 (snd w);
     (test2, s2) \<leftarrow> kmem_cache_create (Some (map of_char ''tes2 cache'')) 58 128 0 0 0 s1;
     w3 \<leftarrow> say tb lb stack [line ''localtion test1 cache : %x , test2 cache: %x'' [test1, test2]] (fst w, s2);
     w4 \<leftarrow> test_dump tb lb stack w3;
     (t1_o1, s5) \<leftarrow> kmem_cache_alloc test1 0 (snd w4);
     (t1_o2, s6) \<leftarrow> kmem_cache_alloc test1 0 s5;
     (t1_o3, s7) \<leftarrow> kmem_cache_alloc test1 0 s6;
     w8 \<leftarrow> say tb lb stack [line ''test1 cache alloc result : %x %x %x'' [t1_o1, t1_o2, t1_o3]] (fst w4, s7);
     w9 \<leftarrow> test_dump tb lb stack w8;
     s10 \<leftarrow> kmem_cache_free test1 t1_o1 (snd w9);
     s11 \<leftarrow> kmem_cache_free test1 t1_o2 s10;
     s12 \<leftarrow> kmem_cache_free test1 t1_o3 s11;
     say tb lb stack [line ''WANING :: test slub end'' []] (fst w9, s12) }"

fun malloc_each :: "u32 \<Rightarrow> u32 \<Rightarrow> u32 list \<Rightarrow> u32 list \<Rightarrow> console \<times> slabs \<Rightarrow> (console \<times> slabs) option" where
  "malloc_each tb lb stack [] w = Some w"
| "malloc_each tb lb stack (n # ns) w = do {
     (p, s) \<leftarrow> kmalloc n (snd w);
     w1 \<leftarrow> say tb lb stack [line ''malloced pointer %x'' [p]] (fst w, s);
     malloc_each tb lb stack ns w1 }"

definition test_kmalloc :: "u32 \<Rightarrow> u32 \<Rightarrow> u32 list \<Rightarrow> console \<times> slabs \<Rightarrow> (console \<times> slabs) option" where
  "test_kmalloc tb lb stack w = do {
     w1 \<leftarrow> say tb lb stack [line ''test for kernel malloc test'' []] w;
     malloc_each tb lb stack [1, 5, 27, 7485] w1 }"

section \<open>When a dump ends\<close>

lemma dump_partial_returns: "dump_partial part s = Some cs \<Longrightarrow> part = None"
proof (induction part s cs rule: dump_partial.raw_induct [rotated, consumes 1, case_names step])
  case (step f part s cs)
  then show ?case by (auto split: option.splits Option.bind_splits)
qed

lemma dump_partial_result: "dump_partial part s = (if part = None then Some [] else None)"
proof (cases part)
  case None
  then show ?thesis by (simp add: dump_partial.simps)
next
  case (Some q)
  then show ?thesis using dump_partial_returns [of part s] by (cases "dump_partial part s") auto
qed

text \<open>The caches whose dump ends.\<close>

definition dumpable :: "u32 \<Rightarrow> slabs \<Rightarrow> bool" where
  "dumpable k s \<longleftrightarrow> cpartial (my_cpu k s) = None
     \<and> (cpage (my_cpu k s) \<noteq> None \<longrightarrow> jump_num (wds s) (freelist (my_cpu k s)) \<noteq> None)"

lemma dump_cachep_info_result:
  "dump_cachep_info k s = (if dumpable k s
     then Some (dump_head k (caches s k) @ [the (map_option hd (dump_current k s))]) else None)"
  by (auto simp: dump_cachep_info_def dump_partial_result dumpable_def dump_current_def my_cpu_def Let_def
      split: option.splits)

lemma dump_from_links:
  "links (lists (smm s)) (map CacheHead ks @ [CacheListHead]) \<Longrightarrow> dump_from (hd (map CacheHead ks @ [CacheListHead])) s
   = (if \<forall>k \<in> set ks. dumpable k s then Some (concat (map (\<lambda>k. line ''---------'' [] # the (dump_cachep_info k s)) ks)) else None)"
proof (induction ks)
  case (Cons k ks)
  have "links (lists (smm s)) (map CacheHead ks @ [CacheListHead])" "nxt (lists (smm s)) (CacheHead k) = hd (map CacheHead ks @ [CacheListHead])"
    using Cons.prems by (cases ks; simp)+
  with Cons.IH show ?case
    by (subst dump_from.simps) (auto simp: dump_cachep_info_result)
qed (simp add: dump_from.simps)

section \<open>The property\<close>


definition demo_listed :: "nat option \<Rightarrow> slabs" where
  "demo_listed part = demo_slabs\<lparr>smm := on_lists (list_add CacheListHead (CacheHead 0)) demo_eight,
     cpus := (\<lambda>c. \<lparr>freelist = 0, cpage = None, cpartial = part\<rparr>)\<rparr>"

lemma demo_listed_ring: "Listhead.ring (lists (smm (demo_listed part))) CacheListHead (map CacheHead [0])"
proof -
  have "Listhead.ring (lists demo_eight) CacheListHead (map CacheHead [])"
    by (simp add: ring_Nil demo_eight_def demo_empty_def list_add_def list_add_between_def set_prev_def set_nxt_def Let_def)
  from list_add_ring [OF this, of "CacheHead 0"] show ?thesis by (simp add: demo_listed_def)
qed


end
