(* ===== verification/Boot.thy ===== *)
theory Boot
  imports TrapsProps MmInitProps TestProg IrqChip
begin

text \<open>
  From the boot loader to the idle loop: the page tables and the interrupt table of
  \<open>arch/i386/boot.S\<close>, and \<open>kernel_main\<close> (\<open>kernel/kernel/kernel.c\<close>) up to its idle loop.
\<close>

section \<open>The first page tables\<close>

text \<open>
  The loop of \<open>stosl\<close>. Paging is off: memory is at its kernel address. The result is that of the next page
  frame and that of the table.
\<close>

fun stosl_loop :: "nat \<Rightarrow> u32 \<Rightarrow> u32 \<Rightarrow> words \<Rightarrow> words" where
  "stosl_loop 0 edi eax m = m"
| "stosl_loop (Suc ecx) edi eax m = stosl_loop ecx (edi + 4) (eax + 0x1000) (m(va edi := eax))"

text \<open>\<open>pg0\<close> and \<open>pg4\<close> are physical addresses, \<open>dir\<close> is the address of \<open>global_page_dir\<close>.\<close>

definition boot_page_tables :: "u32 \<Rightarrow> u32 \<Rightarrow> u32 \<Rightarrow> words \<Rightarrow> words" where
  "boot_page_tables pg0 pg4 dir m =
     (let ebx = va (dir - PAGE_OFFSET);
          m1 = m(ebx := pg0 + 0x007);
          m2 = m1(ebx + 0xc00 := pg0 + 0x007);
          m3 = stosl_loop 1024 pg0 0x007 m2;
          m4 = m3(ebx + 0x010 := pg4 + 0x007);
          m5 = m4(ebx + 0xc10 := pg4 + 0x007)
      in stosl_loop 1024 pg4 0x01000007 m5)"

section \<open>The first interrupt table\<close>

text \<open>\<open>setup_ign_idt\<close>: the words are put together from 16-bit halves.\<close>

fun rep_set_idt :: "u32 \<Rightarrow> u32 \<Rightarrow> nat list \<Rightarrow> idt \<Rightarrow> idt" where
  "rep_set_idt eax ebx [] t = t"
| "rep_set_idt eax ebx (n # ns) t = rep_set_idt eax ebx ns (t(n := \<lparr>desc_a = eax, desc_b = ebx\<rparr>))"

definition setup_ign_idt :: "u32 \<Rightarrow> idt \<Rightarrow> idt" where
  "setup_ign_idt ignore_int t =
     (let eax = low_half (push_bit 16 KERNEL_CS) ignore_int;
          ebx = low_half ignore_int 0x8e00
      in rep_set_idt eax ebx [0..<256] t)"

section \<open>The start of the machine\<close>

definition local_irq_enable :: "clock \<Rightarrow> clock" where
  "local_irq_enable c = c\<lparr>ck_irqs := (ck_irqs c)\<lparr>cpu_if := True\<rparr>\<rparr>"

text \<open>\<open>thread_init\<close> is empty.\<close>

definition thread_init :: "machine \<Rightarrow> machine" where
  "thread_init m = m"

text \<open>
  \<open>kernel_main\<close> from \<open>trap_init\<close> to the idle loop. \<open>entry\<close> and \<open>stubs\<close> are the addresses of the assembly
  stubs, \<open>dev\<close> the devices, \<open>nb\<close> the local array of \<open>kmalloc_init\<close>.
\<close>

definition start_machine ::
    "(trap_entry \<Rightarrow> u32) \<Rightarrow> (nat \<Rightarrow> u32) \<Rightarrow> device \<Rightarrow> u32 \<Rightarrow> machine \<times> slabs \<Rightarrow> (machine \<times> slabs) option" where
  "start_machine entry stubs dev nb st = do {
     let (m, s) = st;
     let m1 = m\<lparr>idt_table := trap_init entry (idt_table m)\<rparr>;
     m2 \<leftarrow> init_IRQ stubs m1;
     c \<leftarrow> time_init dev (mc_clock m2);
     s1 \<leftarrow> kmalloc_init nb s;
     let m3 = thread_init (m2\<lparr>mc_clock := c\<rparr>);
     Some (m3\<lparr>mc_clock := local_irq_enable (mc_clock m3)\<rparr>, s1) }"

section \<open>The whole of kernel\_main\<close>

text \<open>A zonelist has four entries and ends with null.\<close>

definition zones_of :: "zonelist \<Rightarrow> nat list" where
  "zones_of zl = map the (takeWhile (\<lambda>z. z \<noteq> None) (map zl [0..<4]))"

text \<open>
  The state: the terminal, the words of memory, the page allocator with its zonelists, the machine and the slab
  allocator. The slab allocator works on the zones and the memory that \<open>setup_arch\<close> leaves.
\<close>

type_synonym kernel = "console \<times> words \<times> mm \<times> (nat \<Rightarrow> zonelist) \<times> machine \<times> slabs"

definition kernel_main ::
    "u32 \<Rightarrow> u32 \<Rightarrow> u32 list \<Rightarrow> (u32 \<Rightarrow> mmap_entry) \<Rightarrow> u32 \<Rightarrow> u32 \<Rightarrow> u32 \<Rightarrow> u32 \<Rightarrow> u32 \<Rightarrow> multiboot_info
     \<Rightarrow> (trap_entry \<Rightarrow> u32) \<Rightarrow> (nat \<Rightarrow> u32) \<Rightarrow> device \<Rightarrow> u32 \<Rightarrow> kernel \<Rightarrow> (console \<times> machine \<times> slabs) option" where
  "kernel_main tb lb stack rd ps pgd ks ke kend mdb entry stubs dev nb st = do {
     let (con, m, pages, zls, mch, s) = st;
     (con1, m1, pages1, zls1) \<leftarrow> setup_arch tb lb stack rd ps pgd ks ke kend mdb (terminal_initialize con, m, pages, zls);
     s1 \<leftarrow> init_kmem_cache (s\<lparr>smm := pages1, zones0 := zones_of (zls1 0), wds := m1, nbytes := cmem con1\<rparr>);
     w2 \<leftarrow> say tb lb stack [(''test-begin-all-parts'' @ [CHR 0x0A, CHR 0x0A], [])] (terminal_initialize con1, s1);
     w3 \<leftarrow> test_slub tb lb stack w2;
     (con4, s4) \<leftarrow> say tb lb stack [(''slub has been tested well'' @ [CHR 0x0A, CHR 0x0A], [])] w3;
     (mch5, s5) \<leftarrow> start_machine entry stubs dev nb (mch, s4);
     Some (con4, mch5, s5) }"

section \<open>What the first tables map\<close>

lemma va_next: "va (edi + 4) + 4 * of_nat i = va edi + 4 * of_nat (Suc i)"
  by (simp add: va_def algebra_simps)

lemma stosl_loop_other:
  "(\<And>j. j < n \<Longrightarrow> a \<noteq> va edi + 4 * of_nat j) \<Longrightarrow> stosl_loop n edi eax m a = m a"
proof (induction n arbitrary: edi eax m)
  case (Suc n)
  have "stosl_loop n (edi + 4) (eax + 0x1000) (m(va edi := eax)) a = (m(va edi := eax)) a"
    by (rule Suc.IH, unfold va_next, rule Suc.prems) simp
  moreover have "a \<noteq> va edi" using Suc.prems [of 0] by simp
  ultimately show ?case by simp
qed simp

lemma stosl_loop_at:
  "n \<le> 1024 \<Longrightarrow> j < n \<Longrightarrow> stosl_loop n edi eax m (va edi + 4 * of_nat j) = eax + 0x1000 * of_nat j"
proof (induction n arbitrary: edi eax m j)
  case (Suc n)
  show ?case
  proof (cases j)
    case 0
    have "stosl_loop n (edi + 4) (eax + 0x1000) (m(va edi := eax)) (va edi) = (m(va edi := eax)) (va edi)"
    proof (rule stosl_loop_other, unfold va_next)
      fix i assume "i < n"
      with Suc.prems(1) show "va edi \<noteq> va edi + 4 * of_nat (Suc i)"
        using step4_inj [of "va edi" 0 "Suc i"] by auto
    qed
    with 0 show ?thesis by simp
  next
    case (Suc k)
    have "stosl_loop n (edi + 4) (eax + 0x1000) (m(va edi := eax)) (va (edi + 4) + 4 * of_nat k) = eax + 0x1000 + 0x1000 * of_nat k"
      using Suc Suc.prems by (intro Suc.IH) simp_all
    then show ?thesis unfolding va_next Suc by (simp add: algebra_simps)
  qed
qed simp

text \<open>A directory entry for the table at the physical address \<open>q\<close> and what it maps.\<close>

lemma low_bits_clear: "take_bit 12 c = (c :: u32) \<Longrightarrow> push_bit 12 q + c = push_bit 12 q OR c"
  by (rule disjunctive_add) (metis bit_push_bit_iff bit_take_bit_iff not_le)

lemma present_word: "(push_bit 12 q + 7) AND NOT (mask 12) = push_bit 12 (q :: u32)" "bit (push_bit 12 q + 7 :: u32) 0"
proof -
  have t: "take_bit 12 (7 :: u32) = 7" by simp
  note e = low_bits_clear [OF t, of q]
  show "(push_bit 12 q + 7) AND NOT (mask 12) = push_bit 12 q" unfolding e by (rule frame_low [OF t])
  show "bit (push_bit 12 q + 7 :: u32) 0" unfolding e by (simp add: bit_simps)
qed

lemma walk_table:
  assumes pde: "m (pgd + 4 * drop_bit 22 a) = push_bit 12 q + 7"
    and pte: "\<And>j. j < 1024 \<Longrightarrow> m (va (push_bit 12 q) + 4 * of_nat j) = push_bit 12 f + 7 + 0x1000 * of_nat j"
  shows "mmu_walk m pgd a = Some (push_bit 12 (f + (drop_bit 12 a AND mask 10)) + take_bit 12 a)"
proof -
  define j where "j = unat (drop_bit 12 a AND mask 10)"
  have j: "drop_bit 12 a AND mask 10 = of_nat j" by (simp add: j_def)
  have "drop_bit 12 a AND mask 10 \<le> mask 10" by (rule word_and_le1)
  then have "j < 1024" by (simp add: j_def word_le_nat_alt mask_eq_exp_minus_1)
  then have "m (va (push_bit 12 q) + 4 * of_nat j) = push_bit 12 f + 7 + 0x1000 * of_nat j" by (rule pte)
  also have "\<dots> = push_bit 12 (f + of_nat j) + 7" by (simp add: push_bit_eq_mult algebra_simps)
  finally have v: "m (va (push_bit 12 q) + 4 * of_nat j) = push_bit 12 (f + of_nat j) + 7" .
  have "push_bit 12 (f + of_nat j) OR (a AND mask 12) = push_bit 12 (f + of_nat j) + take_bit 12 a"
    using low_bits_clear [of "take_bit 12 a" "f + of_nat j"] by (simp add: take_bit_eq_mask)
  then show ?thesis by (simp add: mmu_walk_def pde v j present_word)
qed

lemma small_bits:
  assumes "(y :: u32) < 2 ^ k" "k < 32" "k \<le> n"
  shows "\<not> bit y n"
proof -
  have "unat (2 ^ k :: u32) = 2 ^ k" by (rule unat_pow_u32 [OF assms(2)])
  then have "unat y < 2 ^ k" using assms(1) by (simp add: word_less_nat_alt)
  then have "take_bit k (unat y) = unat y" by (rule take_bit_nat_eq_self)
  then have "\<not> bit (unat y) n" using assms(3) by (metis bit_take_bit_iff not_le)
  then show ?thesis by (simp add: bit_unsigned_iff)
qed

lemma address_parts:
  assumes "y < 2 ^ 22" "c < 2 ^ 10"
  shows "drop_bit 22 (push_bit 22 c + y) = (c :: u32)"
    and "drop_bit 12 (push_bit 22 c + y) AND mask 10 = drop_bit 12 y"
    and "take_bit 12 (push_bit 22 c + y) = take_bit 12 y"
proof -
  have y: "n < 22" if "bit y n" for n
    using small_bits [OF assms(1), of n] that by (cases "n < 22") auto
  have c: "n < 10" if "bit c n" for n
    using small_bits [OF assms(2), of n] that by (cases "n < 10") auto
  have e: "push_bit 22 c + y = push_bit 22 c OR y"
    by (rule disjunctive_add) (auto simp: bit_push_bit_iff dest: y)
  show "drop_bit 22 (push_bit 22 c + y) = c"
    unfolding e by (rule bit_eqI) (auto simp: bit_simps dest: y c)
  show "drop_bit 12 (push_bit 22 c + y) AND mask 10 = drop_bit 12 y"
    unfolding e by (rule bit_eqI) (auto simp: bit_simps dest: y)
  show "take_bit 12 (push_bit 22 c + y) = take_bit 12 y"
    unfolding e by (rule bit_eqI) (auto simp: bit_simps)
qed

lemma walk_window:
  assumes "m (pgd + 4 * c) = push_bit 12 q + 7" "y < 2 ^ 22" "c < 2 ^ 10"
    and "\<And>j. j < 1024 \<Longrightarrow> m (va (push_bit 12 q) + 4 * of_nat j) = push_bit 12 f + 7 + 0x1000 * of_nat j"
  shows "mmu_walk m pgd (push_bit 22 c + y) = Some (push_bit 12 f + y)"
proof -
  note parts = address_parts [OF assms(2,3)]
  have "mmu_walk m pgd (push_bit 22 c + y) = Some (push_bit 12 (f + drop_bit 12 y) + take_bit 12 y)"
    using walk_table [of m pgd "push_bit 22 c + y" q f] assms(1,4) unfolding parts by simp
  also have "push_bit 12 (f + drop_bit 12 y) + take_bit 12 y = push_bit 12 f + y"
    using bits_ident [of 12 y] by (simp add: push_bit_add add.assoc)
  finally show ?thesis .
qed

text \<open>The directory and the two tables are apart.\<close>

definition tables_apart :: "u32 \<Rightarrow> u32 \<Rightarrow> u32 \<Rightarrow> bool" where
  "tables_apart pg0 pg4 dir \<longleftrightarrow> take_bit 12 pg0 = 0 \<and> take_bit 12 pg4 = 0
     \<and> (\<forall>k j. k < 1024 \<longrightarrow> j < 1024 \<longrightarrow> dir + 4 * of_nat k \<noteq> va pg0 + 4 * of_nat j \<and> dir + 4 * of_nat k \<noteq> va pg4 + 4 * of_nat j
         \<and> va pg0 + 4 * of_nat k \<noteq> va pg4 + 4 * of_nat j)"

lemma dir_index: "k < 1024 \<Longrightarrow> i < 1024 \<Longrightarrow> dir + 4 * of_nat k = (dir + 4 * of_nat i :: u32) \<longleftrightarrow> k = i"
  using step4_inj [of dir k i] by auto

lemma boot_page_tables_words:
  fixes m :: words
  assumes "tables_apart pg0 pg4 dir"
  defines "m' \<equiv> boot_page_tables pg0 pg4 dir m"
  shows "k < 1024 \<Longrightarrow> m' (dir + 4 * of_nat k)
      = (if k = 0 \<or> k = 768 then pg0 + 7 else if k = 4 \<or> k = 772 then pg4 + 7 else m (dir + 4 * of_nat k))"
    and "j < 1024 \<Longrightarrow> m' (va pg0 + 4 * of_nat j) = 7 + 0x1000 * of_nat j"
    and "j < 1024 \<Longrightarrow> m' (va pg4 + 4 * of_nat j) = 0x1000007 + 0x1000 * of_nat j"
proof -
  have ap: "dir + 4 * of_nat k \<noteq> va pg0 + 4 * of_nat j" "dir + 4 * of_nat k \<noteq> va pg4 + 4 * of_nat j"
      "va pg0 + 4 * of_nat k \<noteq> va pg4 + 4 * of_nat j" if "k < 1024" "j < 1024" for k j
    using assms(1) that unfolding tables_apart_def by blast+
  define m2 where "m2 = m(dir + 4 * of_nat 0 := pg0 + 7, dir + 4 * of_nat 768 := pg0 + 7)"
  define m3 where "m3 = stosl_loop 1024 pg0 7 m2"
  define m5 where "m5 = m3(dir + 4 * of_nat 4 := pg4 + 7, dir + 4 * of_nat 772 := pg4 + 7)"
  have m': "m' = stosl_loop 1024 pg4 0x1000007 m5"
    by (simp add: m'_def boot_page_tables_def m5_def m3_def m2_def va_def)
  have m5_other: "m5 a = m3 a" if "\<And>k. k < 1024 \<Longrightarrow> dir + 4 * of_nat k \<noteq> a" for a
    using that [of 4] that [of 772] by (auto simp: m5_def)
  show "m' (dir + 4 * of_nat k)
      = (if k = 0 \<or> k = 768 then pg0 + 7 else if k = 4 \<or> k = 772 then pg4 + 7 else m (dir + 4 * of_nat k))" if k: "k < 1024"
  proof -
    have "m' (dir + 4 * of_nat k) = m5 (dir + 4 * of_nat k)"
      unfolding m' by (rule stosl_loop_other) (rule ap(2) [OF k])
    also have "m3 (dir + 4 * of_nat k) = m2 (dir + 4 * of_nat k)"
      unfolding m3_def by (rule stosl_loop_other) (rule ap(1) [OF k])
    then have "m5 (dir + 4 * of_nat k) = (if k = 4 \<or> k = 772 then pg4 + 7 else m2 (dir + 4 * of_nat k))"
      unfolding m5_def fun_upd_apply by (simp only: dir_index [OF k] if_cancel) auto
    also have "m2 (dir + 4 * of_nat k) = (if k = 0 \<or> k = 768 then pg0 + 7 else m (dir + 4 * of_nat k))"
      unfolding m2_def fun_upd_apply using dir_index [OF k, of 768 dir] dir_index [OF k, of 0 dir] by simp
    finally show ?thesis by auto
  qed
  show "m' (va pg0 + 4 * of_nat j) = 7 + 0x1000 * of_nat j" if j: "j < 1024"
  proof -
    have "m' (va pg0 + 4 * of_nat j) = m5 (va pg0 + 4 * of_nat j)"
      unfolding m' by (rule stosl_loop_other) (rule ap(3) [OF j])
    also have "\<dots> = m3 (va pg0 + 4 * of_nat j)" by (rule m5_other) (rule ap(1) [OF _ j])
    finally show ?thesis unfolding m3_def by (simp only: stosl_loop_at [OF order_refl j])
  qed
  show "m' (va pg4 + 4 * of_nat j) = 0x1000007 + 0x1000 * of_nat j" if j: "j < 1024"
    unfolding m' by (rule stosl_loop_at [OF order_refl j])
qed

text \<open>The frame of a table.\<close>

lemma table_frame: "take_bit 12 p = 0 \<Longrightarrow> push_bit 12 (drop_bit 12 p) = (p :: u32)"
  using bits_ident [of 12 p] by simp

section \<open>The gates\<close>

lemma rep_set_idt_all:
  "rep_set_idt eax ebx ns t v = (if v \<in> set ns then \<lparr>desc_a = eax, desc_b = ebx\<rparr> else t v)"
  by (induction ns arbitrary: t) auto

lemma setup_ign_idt_gates: "v < 256 \<Longrightarrow> setup_ign_idt a t v = set_gate 14 0 a KERNEL_CS"
  by (simp add: setup_ign_idt_def rep_set_idt_all set_gate_def)

text \<open>Where each vector leads in the end; \<open>debug\<close> has no gate.\<close>

definition trap_list :: "trap_entry list" where
  "trap_list = [divide_error, overflow, bounds, invalid_op, coprocessor_segment_overrun, invalid_TSS, segment_not_present,
     stack_segment, general_protection, page_fault, alignment_check]"

definition vector_target :: "(trap_entry \<Rightarrow> u32) \<Rightarrow> (nat \<Rightarrow> u32) \<Rightarrow> u32 \<Rightarrow> nat \<Rightarrow> u32" where
  "vector_target entry stubs ign v =
     (if v = 8 then 0 else if 32 \<le> v \<and> v < 48 then stubs (v - 32)
      else case find (\<lambda>e. trap_vector e = v) trap_list of Some e \<Rightarrow> entry e | None \<Rightarrow> ign)"

lemma set_gate_target: "type < 32 \<Longrightarrow> dpl < 4 \<Longrightarrow> gate_present (set_gate type dpl a seg) \<and> gate_offset (set_gate type dpl a seg) = a"
  using set_gate_is [of type dpl a seg] by (simp add: gate_is_def)

lemma trap_init_targets:
  assumes "v < 256" "v < 32 \<or> 48 \<le> v"
  shows "gate_present (trap_init entry (setup_ign_idt ign t) v)
    \<and> gate_offset (trap_init entry (setup_ign_idt ign t) v) = vector_target entry stubs ign v"
  using assms(2)
  by (auto simp: trap_init_def set_trap_gate_def set_system_gate_def set_task_gate_def set_intr_gate_def Let_def
      set_gate_target setup_ign_idt_gates [OF assms(1)] vector_target_def trap_list_def)

section \<open>The properties\<close>

text \<open>
  C38: the tables that the boot code builds map the first four megabytes and the four megabytes from 16 MiB on,
  each at its physical address and at its address in the kernel's half, and leave the other entries of the
  directory alone. Address 0 is mapped: the null pointer can be read and written.
\<close>

theorem boot_tables_map:
  assumes "tables_apart pg0 pg4 dir" and "y < 2 ^ 22"
  shows "mmu_walk (boot_page_tables pg0 pg4 dir m) dir y = Some y
     \<and> mmu_walk (boot_page_tables pg0 pg4 dir m) dir (PAGE_OFFSET + y) = Some y
     \<and> mmu_walk (boot_page_tables pg0 pg4 dir m) dir (0x1000000 + y) = Some (0x1000000 + y)
     \<and> mmu_walk (boot_page_tables pg0 pg4 dir m) dir (PAGE_OFFSET + 0x1000000 + y) = Some (0x1000000 + y)
     \<and> (\<forall>k < 1024. k \<notin> {0, 4, 768, 772} \<longrightarrow> boot_page_tables pg0 pg4 dir m (dir + 4 * of_nat k) = m (dir + 4 * of_nat k))"
proof -
  let ?m = "boot_page_tables pg0 pg4 dir m"
  note w = boot_page_tables_words [OF assms(1), of _ m]
  have t: "push_bit 12 (drop_bit 12 pg0) = pg0" "push_bit 12 (drop_bit 12 pg4) = pg4"
    using assms(1) by (simp_all add: table_frame tables_apart_def)
  have low: "?m (va (push_bit 12 (drop_bit 12 pg0)) + 4 * of_nat j) = push_bit 12 0 + 7 + 0x1000 * of_nat j" if "j < 1024" for j
    using w(2) [OF that] by (simp add: t)
  have high: "?m (va (push_bit 12 (drop_bit 12 pg4)) + 4 * of_nat j) = push_bit 12 0x1000 + 7 + 0x1000 * of_nat j" if "j < 1024" for j
    using w(3) [OF that] by (simp add: t add.assoc [symmetric])
  have dir: "?m (dir + 4 * 0) = push_bit 12 (drop_bit 12 pg0) + 7" "?m (dir + 4 * 768) = push_bit 12 (drop_bit 12 pg0) + 7"
      "?m (dir + 4 * 4) = push_bit 12 (drop_bit 12 pg4) + 7" "?m (dir + 4 * 772) = push_bit 12 (drop_bit 12 pg4) + 7"
    using w(1) [of 0] w(1) [of 768] w(1) [of 4] w(1) [of 772] by (simp_all add: t)
  have "mmu_walk ?m dir (push_bit 22 0 + y) = Some (push_bit 12 0 + y)"
    by (rule walk_window [OF dir(1) assms(2) _ low]) simp_all
  moreover have "mmu_walk ?m dir (push_bit 22 768 + y) = Some (push_bit 12 0 + y)"
    by (rule walk_window [OF dir(2) assms(2) _ low]) simp_all
  moreover have "mmu_walk ?m dir (push_bit 22 4 + y) = Some (push_bit 12 0x1000 + y)"
    by (rule walk_window [OF dir(3) assms(2) _ high]) simp_all
  moreover have "mmu_walk ?m dir (push_bit 22 772 + y) = Some (push_bit 12 0x1000 + y)"
    by (rule walk_window [OF dir(4) assms(2) _ high]) simp_all
  ultimately show ?thesis using w(1) by (simp add: PAGE_OFFSET_def)
qed

lemma window_unat: "unat b + 4096 < 4294967296 \<Longrightarrow> k < 1024 \<Longrightarrow> unat (b + 4 * of_nat k :: u32) = unat b + 4 * k"
proof -
  assume b: "unat b + 4096 < 4294967296" "k < 1024"
  have "unat (of_nat (4 * k) :: u32) = 4 * k" using b(2) by (intro word32_of_nat_unat_id) simp
  then have "unat (b + of_nat (4 * k)) = unat b + 4 * k" using b by (subst unat_add_small) simp_all
  then show ?thesis by simp
qed

lemma demo_tables_apart: "tables_apart 0x102000 0x103000 0xC0110000"
  unfolding tables_apart_def
proof (intro conjI allI impI)
  fix k j :: nat assume k: "k < 1024" and j: "j < 1024"
  have u: "unat (0xC0110000 + 4 * of_nat k :: u32) = 0xC0110000 + 4 * k" "unat (va 0x102000 + 4 * of_nat k) = 0xC0102000 + 4 * k"
      "unat (va 0x102000 + 4 * of_nat j) = 0xC0102000 + 4 * j" "unat (va 0x103000 + 4 * of_nat j) = 0xC0103000 + 4 * j"
    using k j by (simp_all add: window_unat va_def PAGE_OFFSET_def)
  show "(0xC0110000 + 4 * of_nat k :: u32) \<noteq> va 0x102000 + 4 * of_nat j"
    by (rule notI, drule arg_cong [of _ _ unat], unfold u) (use k j in linarith)
  show "(0xC0110000 + 4 * of_nat k :: u32) \<noteq> va 0x103000 + 4 * of_nat j"
    by (rule notI, drule arg_cong [of _ _ unat], unfold u) (use k j in linarith)
  show "va 0x102000 + 4 * of_nat k \<noteq> va 0x103000 + 4 * of_nat j"
    by (rule notI, drule arg_cong [of _ _ unat], unfold u) (use k j in linarith)
qed simp_all

theorem boot_tables_map_witness:
  "mmu_walk (boot_page_tables 0x102000 0x103000 0xC0110000 (\<lambda>a. 0)) 0xC0110000 (PAGE_OFFSET + 0x2C) = Some 0x2C"
  using boot_tables_map [OF demo_tables_apart, of "0x2C" "\<lambda>a. 0"] by simp

lemma two_lines_served:
  assumes "pic_inv q" "chain (actions q) (d_action (irq_desc q 0)) (a # as)" "chain (actions q) (d_action (irq_desc q 1)) (b # bs)"
    and "d_status (irq_desc q 0) = IRQ_PER_CPU" "d_status (irq_desc q 1) = IRQ_PER_CPU"
    and "set is \<subseteq> {0, 1}" "\<forall>i. keeps pic_inv run i"
  shows "\<exists>q'. irq_run (do_IRQ_inner d run) is q = Some q' \<and> pic_inv q'"
proof -
  have "line_up q 0" "line_up q 1"
    using line_up_chain [OF assms(2) _ assms(4)] line_up_chain [OF assms(3) _ assms(5)] by simp_all
  then have "line_up q i \<and> keeps pic_inv run i" if "i \<in> set is" for i
    using that assms(6,7) by blast
  then show ?thesis using irq_run_returns [OF assms(1), of "is" run d] by blast
qed

text \<open>\<open>init_IRQ\<close> and \<open>time_init\<close>, one after the other.\<close>

lemma interrupts_then_clock:
  assumes ready: "boot_ready (mc_clock mch)"
    and free: "unlocked (rtc_lock (mc_clock mch))" "unlocked (d_lock (irq_desc (ck_irqs (mc_clock mch)) 0))"
      "a_next (actions (ck_irqs (mc_clock mch)) IRQ0_ACTION) = None"
    and rtc: "rtc_chip reg dev" "shows_time reg y m d h mi s" "valid_date y m d h mi s"
  shows "\<exists>m2 k. init_IRQ stubs mch = Some m2 \<and> time_init dev (mc_clock m2) = Some k
    \<and> idt_table m2 = (\<lambda>v. if 32 \<le> v \<and> v < 48 then set_gate 14 0 (stubs (v - 32)) KERNEL_CS else idt_table mch v)
    \<and> pic_inv (ck_irqs k) \<and> \<not> bit (cached_irq_mask (ck_irqs k)) 0 \<and> \<not> bit (cached_irq_mask (ck_irqs k)) 1
    \<and> chain (actions (ck_irqs k)) (d_action (irq_desc (ck_irqs k) 0)) [IRQ0_ACTION]
    \<and> chain (actions (ck_irqs k)) (d_action (irq_desc (ck_irqs k) 1)) [IRQ1_ACTION]
    \<and> d_status (irq_desc (ck_irqs k) 0) = IRQ_PER_CPU \<and> d_status (irq_desc (ck_irqs k) 1) = IRQ_PER_CPU
    \<and> tv_sec (xtime k) = of_nat (epoch_seconds y m d h mi s)"
proof -
  obtain m2 where m2: "init_IRQ stubs mch = Some m2"
      "idt_table m2 = (\<lambda>v. if 32 \<le> v \<and> v < 48 then set_gate 14 0 (stubs (v - 32)) KERNEL_CS else idt_table mch v)"
      "pic_inv (ck_irqs (mc_clock m2))"
      "cached_irq_mask (ck_irqs (mc_clock m2)) = cached_irq_mask (ck_irqs (mc_clock mch)) AND NOT (bit_of 0) AND NOT (bit_of 1)"
      "chain (actions (ck_irqs (mc_clock m2))) (d_action (irq_desc (ck_irqs (mc_clock m2)) 1)) [IRQ1_ACTION]"
      "irq_desc (ck_irqs (mc_clock m2)) 0 = (irq_desc (ck_irqs (mc_clock mch)) 0)\<lparr>d_status := IRQ_PER_CPU,
        d_action := None, d_depth := 1, d_handler := i8259A_irq_type\<rparr>"
      "\<forall>a. a \<noteq> IRQ1_ACTION \<longrightarrow> actions (ck_irqs (mc_clock m2)) a = actions (ck_irqs (mc_clock mch)) a"
      "rtc_lock (mc_clock m2) = rtc_lock (mc_clock mch)"
      "d_status (irq_desc (ck_irqs (mc_clock m2)) 1) = IRQ_PER_CPU"
    using init_IRQ_spec [OF ready, of stubs] by (elim exE conjE) (rule that)
  have acts: "IRQ0_ACTION \<noteq> IRQ1_ACTION" by (simp add: IRQ0_ACTION_def IRQ1_ACTION_def)
  have c: "unlocked (rtc_lock (mc_clock m2))" "d_handler (irq_desc (ck_irqs (mc_clock m2)) 0) = i8259A_irq_type"
      "d_action (irq_desc (ck_irqs (mc_clock m2)) 0) = None" "unlocked (d_lock (irq_desc (ck_irqs (mc_clock m2)) 0))"
      "a_next (actions (ck_irqs (mc_clock m2)) IRQ0_ACTION) = None"
    using m2(6-8) free acts by simp_all
  obtain k where k: "time_init dev (mc_clock m2) = Some k" "tv_sec (xtime k) = of_nat (epoch_seconds y m d h mi s)"
      "pic_inv (ck_irqs k)" "chain (actions (ck_irqs k)) (d_action (irq_desc (ck_irqs k) 0)) [IRQ0_ACTION]"
      "cached_irq_mask (ck_irqs k) = cached_irq_mask (ck_irqs (mc_clock m2)) AND NOT (bit_of 0)"
      "\<forall>j. j \<noteq> 0 \<longrightarrow> irq_desc (ck_irqs k) j = irq_desc (ck_irqs (mc_clock m2)) j"
      "\<forall>a. a \<noteq> IRQ0_ACTION \<longrightarrow> actions (ck_irqs k) a = actions (ck_irqs (mc_clock m2)) a"
      "d_status (irq_desc (ck_irqs k) 0) = IRQ_PER_CPU"
    using time_init_spec [OF rtc c(1) m2(3) c(2-5)] by blast
  have "chain (actions (ck_irqs k)) (d_action (irq_desc (ck_irqs k) 1)) [IRQ1_ACTION]"
    using m2(5) k(6,7) acts by (auto simp: chain.simps)
  moreover have "\<not> bit (cached_irq_mask (ck_irqs k)) 0 \<and> \<not> bit (cached_irq_mask (ck_irqs k)) 1"
    unfolding k(5) m2(4) by (simp add: bit_and_iff bit_not_iff bit_of_iff)
  ultimately show ?thesis using m2(1,2,9) k by (intro exI [of _ m2] exI [of _ k]) simp
qed

lemma start_machine_spec:
  assumes "boot_ready (mc_clock mch)" and "idt_table mch = setup_ign_idt ign t"
    and "unlocked (rtc_lock (mc_clock mch))" and "unlocked (d_lock (irq_desc (ck_irqs (mc_clock mch)) 0))"
    and "a_next (actions (ck_irqs (mc_clock mch)) IRQ0_ACTION) = None"
    and "rtc_chip reg dev" and "shows_time reg y m d h mi s" and "valid_date y m d h mi s"
  shows "\<exists>mch'. start_machine entry stubs dev nb (mch, sl) = map_option (Pair mch') (kmalloc_init nb sl)
     \<and> (\<forall>v<256. gate_present (idt_table mch' v) \<and> gate_offset (idt_table mch' v) = vector_target entry stubs ign v)
     \<and> cpu_if (ck_irqs (mc_clock mch')) \<and> pic_inv (ck_irqs (mc_clock mch'))
     \<and> \<not> bit (cached_irq_mask (ck_irqs (mc_clock mch'))) 0 \<and> \<not> bit (cached_irq_mask (ck_irqs (mc_clock mch'))) 1
     \<and> chain (actions (ck_irqs (mc_clock mch'))) (d_action (irq_desc (ck_irqs (mc_clock mch')) 0)) [IRQ0_ACTION]
     \<and> chain (actions (ck_irqs (mc_clock mch'))) (d_action (irq_desc (ck_irqs (mc_clock mch')) 1)) [IRQ1_ACTION]
     \<and> (\<forall>is run d. set is \<subseteq> {0, 1} \<longrightarrow> (\<forall>i. keeps pic_inv run i)
          \<longrightarrow> (\<exists>q. irq_run (do_IRQ_inner d run) is (ck_irqs (mc_clock mch')) = Some q \<and> pic_inv q))
     \<and> tv_sec (xtime (mc_clock mch')) = of_nat (epoch_seconds y m d h mi s)"
proof -
  let ?t = "trap_init entry (idt_table mch)"
  have sel: "mc_clock (mch\<lparr>idt_table := ?t\<rparr>) = mc_clock mch" "idt_table (mch\<lparr>idt_table := ?t\<rparr>) = ?t" by simp_all
  obtain m2 k where m2: "init_IRQ stubs (mch\<lparr>idt_table := ?t\<rparr>) = Some m2"
      "idt_table m2 = (\<lambda>v. if 32 \<le> v \<and> v < 48 then set_gate 14 0 (stubs (v - 32)) KERNEL_CS else ?t v)"
    and k: "time_init dev (mc_clock m2) = Some k" "pic_inv (ck_irqs k)"
      "\<not> bit (cached_irq_mask (ck_irqs k)) 0" "\<not> bit (cached_irq_mask (ck_irqs k)) 1"
      "chain (actions (ck_irqs k)) (d_action (irq_desc (ck_irqs k) 0)) [IRQ0_ACTION]"
      "chain (actions (ck_irqs k)) (d_action (irq_desc (ck_irqs k) 1)) [IRQ1_ACTION]"
      "d_status (irq_desc (ck_irqs k) 0) = IRQ_PER_CPU" "d_status (irq_desc (ck_irqs k) 1) = IRQ_PER_CPU"
      "tv_sec (xtime k) = of_nat (epoch_seconds y m d h mi s)"
    using interrupts_then_clock [of "mch\<lparr>idt_table := ?t\<rparr>" reg dev y m d h mi s stubs, unfolded sel, OF assms(1,3-8)] by blast
  define q where "q = ck_irqs (local_irq_enable k)"
  have q: "pic_inv q" "cpu_if q" "cached_irq_mask q = cached_irq_mask (ck_irqs k)" "actions q = actions (ck_irqs k)"
      "irq_desc q = irq_desc (ck_irqs k)"
    using k(2) by (simp_all add: q_def local_irq_enable_def)
  define mch' where "mch' = m2\<lparr>mc_clock := local_irq_enable k\<rparr>"
  have mch': "ck_irqs (mc_clock mch') = q" "xtime (mc_clock mch') = xtime k" "idt_table mch' = idt_table m2"
    by (simp_all add: mch'_def q_def local_irq_enable_def)
  have run: "start_machine entry stubs dev nb (mch, sl) = map_option (Pair mch') (kmalloc_init nb sl)"
    using m2(1) k(1)
    by (simp add: start_machine_def thread_init_def mch'_def) (cases "kmalloc_init nb sl"; simp)
  have "gate_present (idt_table mch' v) \<and> gate_offset (idt_table mch' v) = vector_target entry stubs ign v" if v: "v < 256" for v
  proof (cases "32 \<le> v \<and> v < 48")
    case True
    then show ?thesis by (simp add: mch'(3) m2(2) set_gate_target vector_target_def)
  next
    case False
    then have "v < 32 \<or> 48 \<le> v" by auto
    from trap_init_targets [OF v this, of entry ign t stubs] show ?thesis
      using False by (auto simp: mch'(3) m2(2) assms(2))
  qed
  moreover have "\<exists>q'. irq_run (do_IRQ_inner e run) is q = Some q' \<and> pic_inv q'"
    if "set is \<subseteq> {0, 1}" "\<forall>i. keeps pic_inv run i" for "is" run e
    using two_lines_served [of q IRQ0_ACTION "[]" IRQ1_ACTION "[]" "is" run e] that k(5-8) q by simp
  ultimately show ?thesis using run k(3-6,9) q by (intro exI [of _ mch']) (simp add: mch')
qed

text \<open>The variables of the kernel as its image initialises them; interrupts are off, and no port has been touched.\<close>

definition image_irqs :: irqs where
  "image_irqs = \<lparr>cached_irq_mask = 0xffff, i8259A_lock = SPIN_LOCK_UNLOCKED,
     irq_desc = (\<lambda>i. \<lparr>d_handler = no_irq_type, d_action = None, d_status = 0, d_depth = 0, d_lock = SPIN_LOCK_UNLOCKED\<rparr>),
     actions = (\<lambda>a. \<lparr>a_flags = SA_INTERRUPT, a_next = None, a_irq = 0\<rparr>), ack_8259A = AckMask,
     spurious_irq_mask = 0, irq_err_count = 0, cpu_if = False, io = []\<rparr>"

definition image_clock :: clock where
  "image_clock = \<lparr>ck_irqs = image_irqs, xtime = \<lparr>tv_sec = 0, tv_nsec = 0\<rparr>, wall_to_monotonic = \<lparr>tv_sec = 0, tv_nsec = 0\<rparr>,
     jiffies_64 = ucast INITIAL_JIFFIES, cur_timer = Some timer_none, count_p = 0, jiffies_p = 0, last_print = 0,
     rtc_lock = SPIN_LOCK_UNLOCKED, i8253_lock = SPIN_LOCK_UNLOCKED\<rparr>"

definition image_machine :: "u32 \<Rightarrow> idt \<Rightarrow> machine" where
  "image_machine ignore_int t = \<lparr>mc_clock = image_clock, idt_table = setup_ign_idt ignore_int t\<rparr>"

lemma image_ready:
  "boot_ready (mc_clock (image_machine ign t))" "unlocked (rtc_lock (mc_clock (image_machine ign t)))"
  "unlocked (d_lock (irq_desc (ck_irqs (mc_clock (image_machine ign t))) 0))"
  "a_next (actions (ck_irqs (mc_clock (image_machine ign t))) IRQ0_ACTION) = None"
  "idt_table (image_machine ign t) = setup_ign_idt ign t"
  by (simp_all add: boot_ready_def image_machine_def image_clock_def image_irqs_def)



end
