(* ===== verification/IdtTypes.thy ===== *)
theory IdtTypes
  imports Boot
begin

text \<open>
  The interrupt table at every moment: the states that the boot code and the functions of \<open>traps.c\<close> and
  \<open>i8259.c\<close> can bring it into.
\<close>

inductive idt_reach :: "idt \<Rightarrow> bool" where
  boot: "idt_reach (setup_ign_idt ign t)"
| traps: "idt_reach t \<Longrightarrow> idt_reach (trap_init entry t)"
| lines: "idt_reach t \<Longrightarrow> idt_reach (set_irq_gates stubs [0..<NR_VECTORS - FIRST_EXTERNAL_VECTOR] t)"
| intr: "idt_reach t \<Longrightarrow> idt_reach (set_intr_gate n addr t)"
| system_intr: "idt_reach t \<Longrightarrow> idt_reach (set_system_intr_gate n addr t)"
| trap: "idt_reach t \<Longrightarrow> idt_reach (set_trap_gate n addr t)"
| system: "idt_reach t \<Longrightarrow> idt_reach (set_system_gate n addr t)"
| task: "idt_reach t \<Longrightarrow> idt_reach (set_task_gate n gdt t)"

text \<open>A present gate of a type the processor knows, and a level and segment that the code means: interrupt or
  trap gates into the kernel's code, for the kernel or for everyone, and task gates for the kernel.\<close>

definition typed_gate :: "desc_struct \<Rightarrow> bool" where
  "typed_gate d \<longleftrightarrow> gate_present d \<and> (gate_type d, gate_dpl d) \<in> {(14, 0), (14, 3), (15, 0), (15, 3), (5, 0)}
     \<and> (gate_type d \<noteq> 5 \<longrightarrow> gate_selector d = 0x60)"

lemma typed_set_gate:
  assumes "(type, dpl) \<in> {(14, 0), (14, 3), (15, 0), (15, 3)}"
  shows "typed_gate (set_gate type dpl addr KERNEL_CS)"
proof -
  have "type < 32" "dpl < 4" using assms by auto
  from set_gate_is [OF this, of addr KERNEL_CS] assms show ?thesis
    by (auto simp: typed_gate_def gate_is_def KERNEL_CS_def GDT_ENTRY_KERNEL_CS_def GDT_ENTRY_KERNEL_BASE_def)
qed

lemma typed_task_gate: "typed_gate (set_gate 5 0 addr seg)"
  using set_gate_is [of 5 0 addr seg] by (simp add: typed_gate_def gate_is_def)

definition idt_typed :: "idt \<Rightarrow> bool" where
  "idt_typed t \<longleftrightarrow> (\<forall>v<256. typed_gate (t v))"

lemma idt_typed_upd: "idt_typed t \<Longrightarrow> typed_gate d \<Longrightarrow> idt_typed (t(n := d))"
  by (simp add: idt_typed_def)

lemma idt_typed_sets:
  assumes "idt_typed t"
  shows "idt_typed (set_intr_gate n addr t)" "idt_typed (set_system_intr_gate n addr t)" "idt_typed (set_trap_gate n addr t)"
    "idt_typed (set_system_gate n addr t)" "idt_typed (set_task_gate n gdt t)"
  using assms
  by (simp_all add: idt_typed_upd typed_set_gate typed_task_gate set_intr_gate_def set_system_intr_gate_def set_trap_gate_def
      set_system_gate_def set_task_gate_def)

lemma idt_reach_typed: "idt_reach t \<Longrightarrow> idt_typed t"
proof (induction rule: idt_reach.induct)
  case (boot ign t)
  then show ?case by (simp add: idt_typed_def setup_ign_idt_gates typed_set_gate)
next
  case (traps t entry)
  then show ?case unfolding trap_init_def Let_def by (intro idt_typed_sets)
next
  case (lines t stubs)
  then show ?case unfolding set_irq_gates_all by (simp add: idt_typed_def typed_set_gate)
qed (simp_all add: idt_typed_sets)

section \<open>The property\<close>



end
