(* ===== verification/Spec2Isabelle.thy ===== *)
theory Spec2Isabelle
  imports BaseProps BuddyProps MmInitProps IrqChip ClockProps LibcProps FormatProps ConsoleProps SlabStart Setup IdtTypes
begin

text \<open>
  A verification library for the sf-os kernel, a small kernel for 32-bit PCs (\<open>kernel/\<close>) with its own C library
  (\<open>libc/\<close>). It follows the sources file by file; each theory names the files it models.

  \<^bold>\<open>The program.\<close> \<open>boot.S\<close> builds the first page tables and the first interrupt table and calls \<open>kernel_main\<close>.
  That prints a report on the memory map (\<open>setup.c\<close>), builds the final page tables, the zones and the free lists of
  the page allocator from the map (\<open>mm.c\<close>, \<open>mm_init.c\<close>), starts the slab allocator (\<open>slab.c\<close>), fills the interrupt
  table (\<open>traps.c\<close>, \<open>i8259.c\<close>), starts the clock (\<open>time.c\<close>, \<open>timer_pit.c\<close>) and waits with interrupts enabled. The page
  allocator (\<open>page_alloc.c\<close>) keeps its lists in the intrusive lists of \<open>list.h\<close>; the slab allocator takes whole
  pages from it; the interrupt controllers, the clock chip and the timer are behind ports and spinlocks; messages
  go through \<open>vsnprintf.c\<close> to the terminal (\<open>tty.c\<close>) and to the log (\<open>printk.c\<close>).

  \<^bold>\<open>Theories, from the bottom up.\<close> A theory \<open>XProps\<close> holds the properties of the definitions of \<open>X\<close>.

  \<^item> \<open>Prelude\<close>: the machine types, fact collections, lemmas on words and lists.
  \<^item> \<open>Bitops\<close> (\<open>bitops.h\<close>, \<open>log2.h\<close>) and \<open>Listhead\<close> (\<open>list.h\<close>): a heap of \<open>prev\<close>/\<open>next\<close> fields over any type of nodes; the ring of a
    head and its members; the locale \<open>list_store\<close>, what clients may use of the lists, interpreted on these
    operations as \<open>rings\<close>. \<open>BaseProps\<close> has their properties.
  \<^item> \<open>PageDesc\<close> (\<open>page.h\<close>, \<open>page_flag.h\<close>, \<open>mm.h\<close>): page descriptors, zones, the record \<open>mm\<close> of the memory
    management, address arithmetic. Descriptors are numbered by page frame; the nodes of all lists are one datatype, with
    a constructor for each kind of head or field.
  \<^item> \<open>Buddy\<close> (\<open>page_alloc.c\<close>): \<open>__free_pages\<close>, \<open>__rmqueue\<close>, \<open>expand\<close>, the per-cpu buffers, \<open>__alloc_pages\<close>. \<open>BuddyInv\<close>: the
    invariant of the free lists (disjoint aligned blocks, free marks, counters, rings) and freeing; the ghost value
    \<open>freelists\<close> is the abstract state. \<open>BuddyAlloc\<close>: allocation. \<open>PageSource\<close>: the locale \<open>page_source\<close>, a source that grants each page once,
    whatever its clients write to descriptors in between, interpreted on order-0 requests as \<open>pages\<close>. \<open>PairSource\<close>: its
    second interpretation \<open>pairs\<close>, on order-1 requests, also when list nodes of order 0 have been overwritten.
  \<^item> \<open>MmInit\<close> (\<open>mm.c\<close>, \<open>mm_init.c\<close>): page tables, memory map, zones, zonelists; \<open>mmu_walk\<close> is what the processor does with the tables.
  \<^item> \<open>Sync\<close> (\<open>sync.h\<close>, \<open>io.h\<close>, \<open>atomic.h\<close>): the log of port accesses, devices as functions from the log to answers,
    spinlocks, and the step relation \<open>smp_step\<close> of processors that contend for one lock.
  \<^item> \<open>Irq\<close> (\<open>i8259.c\<close>, \<open>manage.c\<close>, \<open>handle.c\<close>, \<open>irq.c\<close>): the controllers, descriptors and chains of handlers, and dispatch.
    \<open>IrqChip\<close>: the locale \<open>irq_chip\<close> for the members of \<open>struct hw_interrupt_type\<close> that dispatch calls, and \<open>masking_chip\<close> for a chip that masks the
    line it serves; interpreted on both tables of the kernel, and on that of the 8259A.
  \<^item> \<open>Clock\<close> (\<open>time.c\<close>, \<open>timer.c\<close>, \<open>timer_pit.c\<close>, \<open>timer_none.c\<close>): calendar, clock chip, interval timer, jiffies.
  \<^item> \<open>Libc\<close> (\<open>libc/string\<close>, \<open>util.h\<close>): copying, comparing, lengths, division. \<open>Format\<close> (\<open>vsnprintf.c\<close>): formatted output.
    \<open>Console\<close> (\<open>tty.c\<close>, \<open>printk.c\<close>, \<open>printf.c\<close>, \<open>kbddriver.c\<close>, \<open>abort.c\<close>): terminal, log, keyboard.
  \<^item> \<open>Slab\<close> (\<open>slab.c\<close>, \<open>slub.c\<close>, \<open>jump_num\<close> of \<open>test.c\<close>): caches and \<open>kmalloc\<close>. \<open>SlabProps\<close>: one slab, its chain of free objects. \<open>SlabRun\<close>:
    a cache over all its slabs, on top of the interface \<open>page_source\<close>. \<open>SlabCreate\<close>: \<open>kmem_cache_create\<close>, up to the objects of the new
    cache. \<open>SlabBoot\<close>: \<open>init_kmem_cache\<close>. \<open>SlabShared\<close>: slabs of two pages, and the free list that they spoil. \<open>SlabStart\<close>:
    \<open>init_kmem_cache\<close> followed by \<open>kmalloc_init\<close>; the caches for the allocator's own structures draw on one source of pairs (\<open>pool\<close>,
    \<open>creating\<close>) and serve every creation of a cache.
  \<^item> \<open>TestProg\<close> (\<open>test.c\<close>): the dumps of all caches, and the tests that \<open>kernel_main\<close> runs.
  \<^item> \<open>Setup\<close> (\<open>setup.c\<close>, \<open>multiboot.h\<close>), \<open>Traps\<close> (\<open>traps.c\<close>, \<open>process.h\<close>, \<open>ptrace.h\<close>) and \<open>Boot\<close> (\<open>boot.S\<close>, \<open>kernel.c\<close>): the report, the
    gates, and \<open>kernel_main\<close> composed of the parts. \<open>IdtTypes\<close>: the states of the interrupt table.

  \<^bold>\<open>How code is modelled.\<close> \<open>int\<close>, \<open>unsigned\<close>, \<open>long\<close> and pointers are words of 32 bits that wrap round; signed comparisons and
  divisions are signed operations on them. An \<open>int\<close> that the code cannot make overflow is an integer (orders, indices of the terminal ring).
  State is a record that every function takes and returns; each component's record holds the fields it uses, so
  different views of memory (list nodes, bytes, words of free lists) are different fields. An operation that does not return, that divides by zero or
  goes on through a pointer that leads to no object of the right type is \<^const>\<open>None\<close>; loops that may not end are partial functions into
  \<^typ>\<open>'a option\<close>, and that they end is proved where it is claimed. No fuel is used, except that the two loops that wait for
  the clock chip count a million rounds, as in the code.

  \<^bold>\<open>What the properties show.\<close> Freeing and order-0 allocation keep the buddy invariant and are exact; the start-up code
  establishes it with exactly the unreserved frames, and the page tables map the kernel. A cache hands out disjoint objects until memory is
  exhausted, also a cache that was just created; order-1 requests grant each free pair once; the start of the slab allocator
  makes the twelve caches of \<open>kmalloc\<close> as asked. The spinlock excludes up to 128 processors; the mask registers mirror their cache over every history; every
  handler of a line runs. The clock reads every date right and time does not run backwards. Formatting stays inside
  the buffer and is what the format says; numbers can be read back. The start of the machine ends with every
  vector served. Other properties prove what is wrong in the code: larger requests hand
  out memory twice, the second page of a slab is granted again and again, two requests to \<open>kmalloc\<close> after that start return one pointer, a freed page swallows its granted neighbour, a slab gives up its last object and writes through null, \<open>kmalloc\<close> leaves
  its array, a dump of a partial slab never ends, a line end can hang the terminal, \<open>printf\<close> prints memory behind its array.

  \<^bold>\<open>Not modelled.\<close> \<open>arch/i386/delay.c\<close> is not compiled and cannot be. The assembly stubs of interrupts, the segment and control
  registers and the link script are parameters or outside of the model. Prototypes, typedefs, unused structures (\<open>mm_struct\<close>, \<open>task_struct\<close>
  beyond the fields a trap writes, the statistics of zones, the rest of \<open>multiboot_info\<close>) and the key codes and error
  numbers that nothing uses have no behaviour. The loops that fill or read memory of a device through a pointer are
  the accesses they make; timing is not modelled.
\<close>

end
